(* ===== verification/Rhttp_Prelude.thy ===== *)
theory Rhttp_Prelude
  imports Main "HOL-Library.Word" "HOL-Library.AList" "HOL-Library.Multiset"
begin

text \<open>
  The prelude of the development: the names of the machine types the Go code uses, Go's
  built-in maps as association lists, \<open>sync.Pool\<close> as a free list with an explicit choice,
  decimal numerals (\<open>strconv\<close>), and the generic lemmas on signed words, association lists
  and lists that the component theories share.

  An association list stands for a Go map together with the order in which one \<open>range\<close> loop
  visits it. The order is unspecified in Go, so no statement may depend on it: every theorem
  about a loop over a map is stated for an arbitrary list.
\<close>

section \<open>Machine types\<close>

type_synonym byte = "8 word"
type_synonym uint32 = "32 word"
type_synonym uint64 = "64 word"

text \<open>\<open>int32\<close> is the same type of words, read with \<open>sint\<close> and compared with \<open><s\<close>.\<close>

type_synonym int32 = "32 word"

text \<open>Addresses of heap objects (streams, workers, connections) and of pooled buffers.\<close>

type_synonym ptr = nat

definition fits32 :: "int \<Rightarrow> bool" where
  "fits32 x \<longleftrightarrow> - (2 ^ 31) \<le> x \<and> x < 2 ^ 31"

text \<open>Go's built-in \<open>min\<close> on \<open>int32\<close>.\<close>

definition min32 :: "int32 \<Rightarrow> int32 \<Rightarrow> int32" where
  "min32 a b = (if b <s a then b else a)"

section \<open>Collections of rewrite rules\<close>

text \<open>\<open>flow_simps\<close> evaluates credit bookkeeping, \<open>wire_simps\<close> the write side of a connection,
  \<open>conn_frame\<close> collects the fields an operation leaves alone.\<close>

named_theorems flow_simps
named_theorems wire_simps
named_theorems conn_frame

section \<open>Pools\<close>

text \<open>
  \<open>sync.Pool\<close>: \<open>Get\<close> returns an arbitrary object that was \<open>Put\<close> before, or a new one. The
  argument \<open>k\<close> of \<open>pool_get\<close> is that choice: an index into the free list, or, when it is out
  of range, a fresh object. Theorems quantify over it.
\<close>

record spool =
  pfree :: "ptr list"
  pfresh :: ptr

definition pool_get :: "nat \<Rightarrow> spool \<Rightarrow> ptr \<times> spool" where
  "pool_get k sp =
     (if k < length (pfree sp)
      then (pfree sp ! k, sp\<lparr>pfree := take k (pfree sp) @ drop (Suc k) (pfree sp)\<rparr>)
      else (pfresh sp, sp\<lparr>pfresh := Suc (pfresh sp)\<rparr>))"

definition pool_put :: "ptr \<Rightarrow> spool \<Rightarrow> spool" where
  "pool_put p sp = sp\<lparr>pfree := p # pfree sp\<rparr>"

text \<open>The pool agrees with a set of objects in use: nothing in use is free, and nothing in use
  or free has yet to be allocated.\<close>

definition pool_ok :: "ptr set \<Rightarrow> spool \<Rightarrow> bool" where
  "pool_ok live sp \<longleftrightarrow>
     distinct (pfree sp) \<and> live \<inter> set (pfree sp) = {} \<and>
     (\<forall>p \<in> live \<union> set (pfree sp). p < pfresh sp)"

section \<open>Decimal numerals\<close>

definition digit_char :: "nat \<Rightarrow> char" where
  "digit_char d = char_of (48 + d)"

definition digit_val :: "char \<Rightarrow> nat option" where
  "digit_val c = (let n = of_char c in if 48 \<le> n \<and> n \<le> (57::nat) then Some (n - 48) else None)"

fun utoa :: "nat \<Rightarrow> string" where
  "utoa n = (if n < 10 then [digit_char n] else utoa (n div 10) @ [digit_char (n mod 10)])"

text \<open>\<open>strconv.Itoa\<close>.\<close>

definition Itoa :: "int \<Rightarrow> string" where
  "Itoa i = (if i < 0 then CHR ''-'' # utoa (nat (- i)) else utoa (nat i))"

fun parse_digits :: "nat \<Rightarrow> string \<Rightarrow> nat option" where
  "parse_digits acc [] = Some acc"
| "parse_digits acc (c # cs) =
     (case digit_val c of None \<Rightarrow> None | Some d \<Rightarrow> parse_digits (10 * acc + d) cs)"

text \<open>\<open>strconv.ParseUint(s, 10, bits)\<close>: \<open>None\<close> for the syntax error and for the range error.\<close>

definition ParseUint :: "nat \<Rightarrow> string \<Rightarrow> nat option" where
  "ParseUint bits s =
     (if s = [] then None
      else case parse_digits 0 s of
             None \<Rightarrow> None
           | Some v \<Rightarrow> if v < 2 ^ bits then Some v else None)"

text \<open>
  \<open>strconv.Atoi\<close> as the value it returns and whether it succeeded: the callers here ignore the
  error. On a syntax error the value is 0, on a range error the nearest \<open>int64\<close>.
\<close>

definition Atoi :: "string \<Rightarrow> int \<times> bool" where
  "Atoi s =
     (let neg = (s \<noteq> [] \<and> hd s = CHR ''-'');
          sgn = (s \<noteq> [] \<and> (hd s = CHR ''-'' \<or> hd s = CHR ''+''));
          t = (if sgn then tl s else s)
      in if t = [] then (0, False)
         else case parse_digits 0 t of
                None \<Rightarrow> (0, False)
              | Some v \<Rightarrow>
                  if neg then (if int v \<le> 2 ^ 63 then (- int v, True) else (- (2 ^ 63), False))
                  else (if int v < 2 ^ 63 then (int v, True) else (2 ^ 63 - 1, False)))"

section \<open>Signed words\<close>

lemma sint_cases: "sint (w :: int32) = (if uint w < 2 ^ 31 then uint w else uint w - 2 ^ 32)"
proof -
  have r: "0 \<le> uint w" "uint w < 2 ^ 32" using uint_lt2p [of w] by simp_all
  have "(uint w + 2 ^ 31) mod 2 ^ 32 = uint w + 2 ^ 31 - 2 ^ 32" if "\<not> uint w < 2 ^ 31"
    using minus_mod_self2 [of "uint w + 2 ^ 31" "2 ^ 32 :: int"] r that by simp
  then show ?thesis using r
    by (simp add: sint_uint signed_take_bit_eq_take_bit_shift take_bit_eq_mod)
qed

lemma unat_sint: "0 \<le> sint (w :: int32) \<Longrightarrow> int (unat w) = sint w"
  using uint_lt2p [of w] by (simp add: sint_cases split: if_splits)

lemma sint_of_nat_le: "sint (of_nat n :: int32) \<le> int n"
proof -
  have "unat (of_nat n :: int32) \<le> n" by (simp add: unat_of_nat)
  then have "uint (of_nat n :: int32) \<le> int n" by (metis of_nat_le_iff uint_nat)
  then show ?thesis by (simp add: sint_cases)
qed

lemma fits32_sint [simp]: "fits32 (sint (w :: int32))"
  using sint_range_size [of w] by (simp add: fits32_def word_size)

lemma sint_add32: "fits32 (sint a + sint b) \<Longrightarrow> sint (a + b :: int32) = sint a + sint b"
  by (simp add: sint_word_add fits32_def signed_take_bit_int_eq_self)

lemma sint_diff32: "fits32 (sint a - sint b) \<Longrightarrow> sint (a - b :: int32) = sint a - sint b"
  by (simp add: sint_word_diff fits32_def signed_take_bit_int_eq_self)

lemma sless_sint: "(a :: int32) <s b \<longleftrightarrow> sint a < sint b"
  by (simp add: word_sless_alt)

lemma sle_sint: "(a :: int32) \<le>s b \<longleftrightarrow> sint a \<le> sint b"
  by (simp add: word_sle_eq)

lemma sint_min32: "sint (min32 a b) = min (sint a) (sint b)"
  by (simp add: min32_def sless_sint)

lemma sint_of_nat32: "n < 2 ^ 31 \<Longrightarrow> sint (of_nat n :: int32) = int n"
  by (simp add: signed_of_nat signed_take_bit_int_eq_self)

section \<open>Go maps\<close>

text \<open>What a client of a Go map relies on: how a store and a \<open>delete\<close> change later lookups, and
  that \<open>len\<close> counts the keys present.\<close>

locale registry =
  fixes get :: "'m \<Rightarrow> 'k \<Rightarrow> 'v option"
    and put :: "'k \<Rightarrow> 'v \<Rightarrow> 'm \<Rightarrow> 'm"
    and del :: "'k \<Rightarrow> 'm \<Rightarrow> 'm"
    and len :: "'m \<Rightarrow> nat"
    and wf :: "'m \<Rightarrow> bool"
  assumes get_put: "get (put k v m) = (get m)(k \<mapsto> v)"
    and get_del: "get (del k m) = (get m)(k := None)"
    and wf_put: "wf m \<Longrightarrow> wf (put k v m)"
    and wf_del: "wf m \<Longrightarrow> wf (del k m)"
    and dom_finite: "finite (dom (get m))"
    and len_dom: "wf m \<Longrightarrow> len m = card (dom (get m))"
begin

lemma len_put_new: "wf m \<Longrightarrow> get m k = None \<Longrightarrow> len (put k v m) = Suc (len m)"
  by (simp add: len_dom wf_put get_put dom_finite card_insert_if domIff)

lemma len_put_old: "wf m \<Longrightarrow> get m k = Some w \<Longrightarrow> len (put k v m) = len m"
  by (simp add: len_dom wf_put get_put dom_finite insert_absorb domIff)

lemma len_del_old: "wf m \<Longrightarrow> get m k = Some w \<Longrightarrow> len m = Suc (len (del k m))"
  using card.remove [OF dom_finite, of k m] by (simp add: len_dom wf_del get_del domIff)

lemma len_del_absent: "wf m \<Longrightarrow> get m k = None \<Longrightarrow> len (del k m) = len m"
  by (simp add: len_dom wf_del get_del fun_upd_idem)

lemma len_0_iff: "wf m \<Longrightarrow> len m = 0 \<longleftrightarrow> (\<forall>k. get m k = None)"
  by (simp add: len_dom dom_finite fun_eq_iff)

end

abbreviation keys_distinct :: "('k \<times> 'v) list \<Rightarrow> bool" where
  "keys_distinct m \<equiv> distinct (map fst m)"

lemma alist_len_dom: "keys_distinct m \<Longrightarrow> length m = card (dom (map_of m))"
  by (metis distinct_card dom_map_of_conv_image_fst length_map list.set_map)

interpretation gm: registry map_of AList.update AList.delete length keys_distinct
  by unfold_locales
    (rule update_conv' delete_conv' distinct_update distinct_delete finite_dom_map_of
      alist_len_dom; assumption)+

section \<open>Pool lemmas\<close>

lemma pool_get_fresh:
  assumes "pool_ok live sp" "pool_get k sp = (p, sp')"
  shows "p \<notin> live" "pool_ok (insert p live) sp'"
proof -
  have "p \<notin> live \<and> pool_ok (insert p live) sp'"
  proof (cases "k < length (pfree sp)")
    case True
    let ?r = "take k (pfree sp) @ drop (Suc k) (pfree sp)"
    have eq: "pfree sp = take k (pfree sp) @ p # drop (Suc k) (pfree sp)"
      using assms(2) True id_take_nth_drop [OF True] by (simp add: pool_get_def)
    have sp': "sp' = sp\<lparr>pfree := ?r\<rparr>" using assms(2) True by (auto simp: pool_get_def)
    have "distinct (take k (pfree sp) @ p # drop (Suc k) (pfree sp))"
      using assms(1) eq by (metis pool_ok_def)
    then have d: "distinct ?r" "p \<notin> set ?r" by auto
    have s: "set (pfree sp) = insert p (set ?r)" using eq
      by (metis Un_insert_right list.simps(15) set_append)
    show ?thesis using assms(1) d s sp' by (auto simp: pool_ok_def)
  next
    case False
    then have "p = pfresh sp" "sp' = sp\<lparr>pfresh := Suc (pfresh sp)\<rparr>"
      using assms(2) by (auto simp: pool_get_def)
    then show ?thesis using assms(1) by (auto simp: pool_ok_def less_Suc_eq)
  qed
  then show "p \<notin> live" "pool_ok (insert p live) sp'" by auto
qed

lemma pool_put_ok:
  "pool_ok live sp \<Longrightarrow> p \<in> live \<Longrightarrow> pool_ok (live - {p}) (pool_put p sp)"
  by (auto simp: pool_ok_def pool_put_def)

section \<open>Numerals round-trip\<close>

declare utoa.simps [simp del]

lemma digit_val_char [simp]: "d < 10 \<Longrightarrow> digit_val (digit_char d) = Some d"
  by (simp add: digit_val_def digit_char_def Let_def)

lemma parse_digits_append:
  "parse_digits a (xs @ ys) = (case parse_digits a xs of None \<Rightarrow> None | Some b \<Rightarrow> parse_digits b ys)"
  by (induction xs arbitrary: a) (auto split: option.splits)

lemma parse_utoa: "parse_digits 0 (utoa n) = Some n"
proof (induction n rule: utoa.induct)
  case (1 n)
  show ?case
  proof (cases "n < 10")
    case True
    then show ?thesis by (simp add: utoa.simps [of n])
  next
    case False
    with 1 show ?thesis by (simp add: utoa.simps [of n] parse_digits_append)
  qed
qed

lemma utoa_not_Nil [simp]: "utoa n \<noteq> []"
  by (simp add: utoa.simps [of n])

lemma hd_utoa_digit: "\<exists>d<10. hd (utoa n) = digit_char d"
proof (induction n rule: utoa.induct)
  case (1 n)
  then show ?case by (cases "n < 10") (auto simp: utoa.simps [of n] hd_append)
qed

lemma digit_val_sign: "digit_val (CHR ''-'') = None" "digit_val (CHR ''+'') = None"
  by (simp_all add: digit_val_def)

lemma digit_char_not_sign: "d < 10 \<Longrightarrow> digit_char d \<noteq> CHR ''-'' \<and> digit_char d \<noteq> CHR ''+''"
  using digit_val_char [of d] digit_val_sign by fastforce

lemma Atoi_Itoa: "- (2 ^ 63) \<le> i \<Longrightarrow> i < 2 ^ 63 \<Longrightarrow> Atoi (Itoa i) = (i, True)"
  using hd_utoa_digit [of "nat i"]
  by (auto simp: Atoi_def Itoa_def Let_def parse_utoa dest: digit_char_not_sign)

lemma ParseUint_utoa: "n < 2 ^ bits \<Longrightarrow> ParseUint bits (utoa n) = Some n"
  by (simp add: ParseUint_def parse_utoa)

end
