(* ===== verification/H2_Errors.thy ===== *)
theory H2_Errors
  imports Rhttp_Prelude
begin

text \<open>
  Errors and limits (\<open>internal/h2/errors.go\<close>). Every package-level error variable of the program
  is one constructor of \<open>gerr\<close>, so that comparing errors is comparing constructors, as
  \<open>errors.Is\<close> does on these variables. The constructors after \<open>ErrBadSettings\<close> belong to the
  packages built on \<open>h2\<close>; \<open>EOF\<close> and \<open>ErrContentLength\<close> are those of \<open>io\<close> and \<open>net/http\<close>, and
  \<open>ErrNetTimeout\<close> and \<open>ErrIO n\<close> stand for what the transport and the framer return.
\<close>

datatype gerr =
    ErrConnClosed
  | ErrContInterleaved
  | ErrGoaway
  | ErrStreamReset
  | ErrHpackDecode
  | ErrPingTimeout
  | ErrALPN
  | ErrHeaderListTooLarge
  | ErrBadSettings
  \<comment> \<open>\<open>writer.go\<close> and \<open>pool.go\<close>, package \<open>rhttp\<close>\<close>
  | ErrConnDead
  | ErrShortContentLength
  | ErrMTLSRequired
  | ErrAddrRequired
  | ErrHandlerRequired
  \<comment> \<open>\<open>internal/proxy\<close>\<close>
  | ErrTunnelSaturated
  | ErrTunnelDraining
  | ErrShuttingDown
  | ErrTunnelTLSRequired
  | ErrWorkerDetached
  | ErrReadReqBody gerr
  \<comment> \<open>standard library, transport and framer\<close>
  | EOF
  | ErrContentLength
  | ErrNetTimeout
  | ErrIO nat

definition MaxHeaderListSize :: uint32 where
  "MaxHeaderListSize = push_bit 20 1"

definition DefaultMaxConcurrentStreams :: uint32 where
  "DefaultMaxConcurrentStreams = 100"

definition NoStreamLimit :: uint32 where
  "NoStreamLimit = not 0"

text \<open>The HTTP/2 error codes the program sends or tests for.\<close>

datatype ErrCode =
    ErrCodeNo
  | ErrCodeProtocol
  | ErrCodeInternal
  | ErrCodeStreamClosed
  | ErrCodeCancel
  | ErrCodeOther uint32

lemma unat_MaxHeaderListSize: "unat MaxHeaderListSize = 1048576"
  by (simp add: MaxHeaderListSize_def)

lemma NoStreamLimit_max: "w \<le> NoStreamLimit"
  by (simp add: NoStreamLimit_def)

end
