(* ===== verification/H2_Flow.thy ===== *)
theory H2_Flow
  imports H2_Errors
begin

text \<open>
  Send-side flow control (\<open>internal/h2/flow.go\<close>). \<open>SendCredit\<close> is the connection's part of the
  state; the per-stream windows live in \<open>Stream.SendWindow\<close> and are passed to these functions by
  pointer, so the model carries them as a store \<open>W :: ptr \<Rightarrow> int32\<close>. Each function is the critical
  section under \<open>sc.mu\<close>.

  \<open>Reserve\<close> waits on a condition variable. What other goroutines do to the credit while it waits is
  a list of \<open>credit_event\<close>s, in the order in which they take the lock; \<open>credit_step\<close> performs one
  and says whether it broadcasts. A waiting \<open>Reserve\<close> looks at the windows again only after a
  broadcast, and \<open>None\<close> is the outcome "still waiting when the events are exhausted".
\<close>

section \<open>Definitions\<close>

definition DefaultInitialWindow :: int32 where
  "DefaultInitialWindow = 65535"

record SendCredit =
  sc_cond :: bool            \<comment> \<open>the condition variable exists (it is created lazily)\<close>
  ConnSendWindow :: int32
  PeerInitWindow :: int32
  sc_dead :: bool

text \<open>The credit of a new connection, as \<open>New\<close> in \<open>conn.go\<close> sets it up.\<close>

definition fresh_credit :: SendCredit where
  "fresh_credit = \<lparr>sc_cond = False, ConnSendWindow = DefaultInitialWindow,
     PeerInitWindow = DefaultInitialWindow, sc_dead = False\<rparr>"

definition initCond :: "SendCredit \<Rightarrow> SendCredit" where
  "initCond sc = sc\<lparr>sc_cond := True\<rparr>"

text \<open>One pass through the body of the loop of \<open>Reserve\<close>.\<close>

datatype attempt = Granted int32 | Dead | MustWait

definition reserve_attempt ::
  "SendCredit \<Rightarrow> (ptr \<Rightarrow> int32) \<Rightarrow> ptr \<Rightarrow> int32 \<Rightarrow> attempt \<times> SendCredit \<times> (ptr \<Rightarrow> int32)" where
  "reserve_attempt sc W p want =
     (if sc_dead sc then (Dead, sc, W)
      else let avail = min32 (W p) (ConnSendWindow sc) in
        if 0 <s avail then
          let avail = (if want <s avail then want else avail) in
          (Granted avail, sc\<lparr>ConnSendWindow := ConnSendWindow sc - avail\<rparr>, W(p := W p - avail))
        else (MustWait, sc, W))"

text \<open>\<open>AddConn\<close>, \<open>AddStream\<close>, \<open>ApplyInitialWindowDelta\<close> and \<open>MarkDead\<close> broadcast when the
  condition variable exists; the first component of the result says so.\<close>

definition AddConn :: "SendCredit \<Rightarrow> int32 \<Rightarrow> bool \<times> SendCredit" where
  "AddConn sc delta = (sc_cond sc, sc\<lparr>ConnSendWindow := ConnSendWindow sc + delta\<rparr>)"

definition SendCredit_AddStream ::
  "SendCredit \<Rightarrow> (ptr \<Rightarrow> int32) \<Rightarrow> ptr \<Rightarrow> int32 \<Rightarrow> bool \<times> (ptr \<Rightarrow> int32)" where
  "SendCredit_AddStream sc W p delta = (sc_cond sc, W(p := W p + delta))"

fun add_delta :: "int32 \<Rightarrow> ptr list \<Rightarrow> (ptr \<Rightarrow> int32) \<Rightarrow> (ptr \<Rightarrow> int32)" where
  "add_delta d [] W = W"
| "add_delta d (p # ps) W = add_delta d ps (W(p := W p + d))"

definition ApplyInitialWindowDelta ::
  "SendCredit \<Rightarrow> (ptr \<Rightarrow> int32) \<Rightarrow> int32 \<Rightarrow> ptr list \<Rightarrow> bool \<times> SendCredit \<times> (ptr \<Rightarrow> int32)" where
  "ApplyInitialWindowDelta sc W newSize streamWindows =
     (let delta = newSize - PeerInitWindow sc; sc' = sc\<lparr>PeerInitWindow := newSize\<rparr> in
      if delta \<noteq> 0 then (sc_cond sc', sc', add_delta delta streamWindows W)
      else (False, sc', W))"

definition InitialStreamWindow :: "SendCredit \<Rightarrow> int32" where
  "InitialStreamWindow sc = PeerInitWindow sc"

definition MarkDead :: "SendCredit \<Rightarrow> bool \<times> SendCredit" where
  "MarkDead sc = (sc_cond sc, sc\<lparr>sc_dead := True\<rparr>)"

text \<open>What other goroutines may do while one waits. \<open>EvReserve q n\<close> is another writer passing
  through the loop of its own \<open>Reserve\<close> once.\<close>

datatype credit_event =
    EvAddConn int32
  | EvAddStream ptr int32
  | EvInitWindow int32 "ptr list"
  | EvMarkDead
  | EvReserve ptr int32

fun credit_step ::
  "credit_event \<Rightarrow> SendCredit \<times> (ptr \<Rightarrow> int32) \<Rightarrow> bool \<times> SendCredit \<times> (ptr \<Rightarrow> int32)" where
  "credit_step (EvAddConn d) (sc, W) = (let (b, sc') = AddConn sc d in (b, sc', W))"
| "credit_step (EvAddStream q d) (sc, W) = (let (b, W') = SendCredit_AddStream sc W q d in (b, sc, W'))"
| "credit_step (EvInitWindow n qs) (sc, W) = ApplyInitialWindowDelta sc W n qs"
| "credit_step EvMarkDead (sc, W) = (let (b, sc') = MarkDead sc in (b, sc', W))"
| "credit_step (EvReserve q n) (sc, W) =
     (if n \<le>s 0 then (False, sc, W)
      else let (_, sc', W') = reserve_attempt (initCond sc) W q n in (False, sc', W'))"

type_synonym reserve_outcome =
  "((int32 \<times> bool) \<times> SendCredit \<times> (ptr \<Rightarrow> int32) \<times> credit_event list) option"

text \<open>\<open>sc.cond.Wait()\<close> and the passes of the loop after it.\<close>

fun reserve_wait ::
  "SendCredit \<Rightarrow> (ptr \<Rightarrow> int32) \<Rightarrow> ptr \<Rightarrow> int32 \<Rightarrow> credit_event list \<Rightarrow> reserve_outcome" where
  "reserve_wait sc W p want [] = None"
| "reserve_wait sc W p want (e # es) =
     (let (woken, sc1, W1) = credit_step e (sc, W) in
      if woken then
        (case reserve_attempt sc1 W1 p want of
           (Granted n, sc2, W2) \<Rightarrow> Some ((n, False), sc2, W2, es)
         | (Dead, sc2, W2) \<Rightarrow> Some ((0, True), sc2, W2, es)
         | (MustWait, sc2, W2) \<Rightarrow> reserve_wait sc2 W2 p want es)
      else reserve_wait sc1 W1 p want es)"

definition Reserve ::
  "SendCredit \<Rightarrow> (ptr \<Rightarrow> int32) \<Rightarrow> ptr \<Rightarrow> int32 \<Rightarrow> credit_event list \<Rightarrow> reserve_outcome" where
  "Reserve sc W p want es =
     (if want \<le>s 0 then Some ((0, False), sc, W, es)
      else case reserve_attempt (initCond sc) W p want of
             (Granted n, sc1, W1) \<Rightarrow> Some ((n, False), sc1, W1, es)
           | (Dead, sc1, W1) \<Rightarrow> Some ((0, True), sc1, W1, es)
           | (MustWait, sc1, W1) \<Rightarrow> reserve_wait sc1 W1 p want es)"

section \<open>Specification\<close>

text \<open>A reference for the loop that does not know about broadcasts: look after every event.\<close>

fun reserve_poll ::
  "SendCredit \<Rightarrow> (ptr \<Rightarrow> int32) \<Rightarrow> ptr \<Rightarrow> int32 \<Rightarrow> credit_event list \<Rightarrow> reserve_outcome" where
  "reserve_poll sc W p want es =
     (case reserve_attempt sc W p want of
        (Granted n, sc1, W1) \<Rightarrow> Some ((n, False), sc1, W1, es)
      | (Dead, sc1, W1) \<Rightarrow> Some ((0, True), sc1, W1, es)
      | (MustWait, sc1, W1) \<Rightarrow>
          (case es of [] \<Rightarrow> None
           | e # es' \<Rightarrow> (let (_, sc2, W2) = credit_step e (sc1, W1) in reserve_poll sc2 W2 p want es')))"

text \<open>The states a run of events passes through, up to the event list that is left.\<close>

fun credit_run ::
  "credit_event list \<Rightarrow> SendCredit \<times> (ptr \<Rightarrow> int32) \<Rightarrow> SendCredit \<times> (ptr \<Rightarrow> int32)" where
  "credit_run [] s = s"
| "credit_run (e # es) s = credit_run es (snd (credit_step e s))"

text \<open>The bytes one event takes out of the connection window, and what it puts in.\<close>

fun event_taken :: "credit_event \<Rightarrow> SendCredit \<times> (ptr \<Rightarrow> int32) \<Rightarrow> int" where
  "event_taken (EvReserve q n) (sc, W) =
     (if n \<le>s 0 then 0
      else case fst (reserve_attempt (initCond sc) W q n) of Granted k \<Rightarrow> sint k | _ \<Rightarrow> 0)"
| "event_taken _ _ = 0"

fun event_granted :: "credit_event \<Rightarrow> int" where
  "event_granted (EvAddConn d) = sint d"
| "event_granted _ = 0"

fun run_taken :: "credit_event list \<Rightarrow> SendCredit \<times> (ptr \<Rightarrow> int32) \<Rightarrow> int" where
  "run_taken [] s = 0"
| "run_taken (e # es) s = event_taken e s + run_taken es (snd (credit_step e s))"

fun run_granted :: "credit_event list \<Rightarrow> int" where
  "run_granted [] = 0"
| "run_granted (e # es) = event_granted e + run_granted es"

text \<open>A run in which the peer obeys RFC 9113 6.9.1: increments are not negative and the connection
  window never passes \<open>2^31 - 1\<close>.\<close>

fun peer_obeys :: "credit_event list \<Rightarrow> SendCredit \<times> (ptr \<Rightarrow> int32) \<Rightarrow> bool" where
  "peer_obeys [] s \<longleftrightarrow> True"
| "peer_obeys (e # es) s \<longleftrightarrow>
     0 \<le> event_granted e \<and> sint (ConnSendWindow (fst s)) + event_granted e < 2 ^ 31 \<and>
     peer_obeys es (snd (credit_step e s))"

section \<open>One attempt\<close>

lemma reserve_attempt_cases:
  obtains (dead) "sc_dead sc" "reserve_attempt sc W p want = (Dead, sc, W)"
  | (wait) "\<not> sc_dead sc" "sint (W p) \<le> 0 \<or> sint (ConnSendWindow sc) \<le> 0"
      "reserve_attempt sc W p want = (MustWait, sc, W)"
  | (grant) n where "\<not> sc_dead sc" "0 < sint (W p)" "0 < sint (ConnSendWindow sc)"
      "sint n = min (sint want) (min (sint (W p)) (sint (ConnSendWindow sc)))"
      "reserve_attempt sc W p want =
         (Granted n, sc\<lparr>ConnSendWindow := ConnSendWindow sc - n\<rparr>, W(p := W p - n))"
proof (cases "sc_dead sc")
  case True
  then show ?thesis by (intro dead) (simp_all add: reserve_attempt_def)
next
  case False
  let ?a = "min32 (W p) (ConnSendWindow sc)"
  show ?thesis
  proof (cases "0 <s ?a")
    case True
    then show ?thesis using False
      by (intro grant [of "if want <s ?a then want else ?a"])
        (auto simp: reserve_attempt_def Let_def sless_sint sint_min32)
  next
    case nowin: False
    then show ?thesis using False
      by (intro wait) (auto simp: reserve_attempt_def Let_def sless_sint sint_min32)
  qed
qed

lemma grant_subtract:
  assumes "0 < sint (w :: int32)" "sint n \<le> sint w" "0 \<le> sint n"
  shows "sint (w - n) = sint w - sint n"
  using assms fits32_sint [of w] by (intro sint_diff32) (auto simp: fits32_def)

lemma reserve_attempt_cond [flow_simps]:
  "sc_cond (fst (snd (reserve_attempt sc W p want))) = sc_cond sc"
  by (cases rule: reserve_attempt_cases [of sc W p want]) simp_all

lemma credit_step_cond: "sc_cond sc \<Longrightarrow> sc_cond (fst (snd (credit_step e (sc, W))))"
  by (cases e)
    (simp_all add: AddConn_def SendCredit_AddStream_def ApplyInitialWindowDelta_def MarkDead_def
      initCond_def Let_def split_beta flow_simps)

section \<open>The loop\<close>

text \<open>An event that does not broadcast cannot end a wait.\<close>

lemma silent_event_still_waits:
  assumes "sc_cond sc" "reserve_attempt sc W p want = (MustWait, sc, W)"
    and "credit_step e (sc, W) = (False, sc1, W1)"
  shows "reserve_attempt sc1 W1 p want = (MustWait, sc1, W1)"
proof (cases e)
  case (EvReserve q n)
  have w: "\<not> sc_dead sc" "sint (W p) \<le> 0 \<or> sint (ConnSendWindow sc) \<le> 0"
    using assms(2) by (cases rule: reserve_attempt_cases [of sc W p want]; simp)+
  have i: "initCond sc = sc" using assms(1) by (simp add: initCond_def)
  show ?thesis
  proof (cases "n \<le>s 0")
    case True
    then show ?thesis using assms EvReserve by simp
  next
    case False
    show ?thesis
    proof (cases rule: reserve_attempt_cases [of sc W q n])
      case dead
      with w show ?thesis by simp
    next
      case wait
      then show ?thesis using assms EvReserve False i by simp
    next
      case (grant k)
      have "q \<noteq> p" using grant w by auto
      then have "W1 p = W p" "\<not> sc_dead sc1" and "sint (W p) \<le> 0"
        using assms(3) EvReserve False i grant w by auto
      then show ?thesis by (cases rule: reserve_attempt_cases [of sc1 W1 p want]) auto
    qed
  qed
qed (use assms in \<open>auto simp: AddConn_def SendCredit_AddStream_def MarkDead_def
      ApplyInitialWindowDelta_def Let_def split: if_splits\<close>)

declare reserve_poll.simps [simp del]

lemma reserve_wait_poll:
  assumes "sc_cond sc" "reserve_attempt sc W p want = (MustWait, sc, W)"
  shows "reserve_wait sc W p want es = reserve_poll sc W p want es"
  using assms
proof (induction es arbitrary: sc W)
  case Nil
  then show ?case by (simp add: reserve_poll.simps [of sc])
next
  case (Cons e es)
  obtain b sc1 W1 where st: "credit_step e (sc, W) = (b, sc1, W1)" by (metis prod.exhaust)
  have c1: "sc_cond sc1" using credit_step_cond [OF Cons.prems(1), of e W] st by simp
  have poll: "reserve_poll sc W p want (e # es) = reserve_poll sc1 W1 p want es"
    using Cons.prems(2) st by (simp add: reserve_poll.simps [of sc])
  show ?case
  proof (cases b)
    case False
    then have "reserve_attempt sc1 W1 p want = (MustWait, sc1, W1)"
      using silent_event_still_waits [OF Cons.prems] st by simp
    then show ?thesis using False st poll Cons.IH [OF c1] by simp
  next
    case True
    show ?thesis
    proof (cases rule: reserve_attempt_cases [of sc1 W1 p want])
      case wait
      then show ?thesis using True st poll Cons.IH [OF c1] by simp
    qed (use True st poll in \<open>simp_all add: reserve_poll.simps [of sc1]\<close>)
  qed
qed

lemma Reserve_poll:
  assumes "\<not> want \<le>s 0"
  shows "Reserve sc W p want es = reserve_poll (initCond sc) W p want es"
proof (cases rule: reserve_attempt_cases [of "initCond sc" W p want])
  case wait
  then show ?thesis using assms
    by (simp add: Reserve_def reserve_wait_poll initCond_def)
qed (use assms in \<open>simp_all add: Reserve_def reserve_poll.simps [of "initCond sc"]\<close>)

lemma reserve_poll_grant:
  assumes "reserve_poll sc W p want es = Some ((n, False), sc', W', es')"
  shows "\<exists>used sc0 W0. es = used @ es' \<and> credit_run used (sc, W) = (sc0, W0) \<and>
           reserve_attempt sc0 W0 p want = (Granted n, sc', W')"
  using assms
proof (induction es arbitrary: sc W)
  case Nil
  then show ?case
    by (cases rule: reserve_attempt_cases [of sc W p want]) (auto simp: reserve_poll.simps [of sc])
next
  case (Cons e es)
  show ?case
  proof (cases rule: reserve_attempt_cases [of sc W p want])
    case dead
    then show ?thesis using Cons.prems by (simp add: reserve_poll.simps [of sc])
  next
    case wait
    obtain b sc1 W1 where st: "credit_step e (sc, W) = (b, sc1, W1)" by (metis prod.exhaust)
    with wait Cons.prems have "reserve_poll sc1 W1 p want es = Some ((n, False), sc', W', es')"
      by (simp add: reserve_poll.simps [of sc])
    from Cons.IH [OF this] obtain used sc0 W0 where
      "es = used @ es'" "credit_run used (sc1, W1) = (sc0, W0)"
      "reserve_attempt sc0 W0 p want = (Granted n, sc', W')" by blast
    with st show ?thesis by (intro exI [of _ "e # used"]) auto
  next
    case (grant k)
    then show ?thesis using Cons.prems
      by (intro exI [of _ "[]"]) (auto simp: reserve_poll.simps [of sc])
  qed
qed

lemma reserve_poll_dead:
  "EvMarkDead \<in> set es \<Longrightarrow> \<exists>r. reserve_poll sc W p want es = Some r"
proof (induction es arbitrary: sc W)
  case (Cons e es)
  obtain b sc1 W1 where st: "credit_step e (sc, W) = (b, sc1, W1)" by (metis prod.exhaust)
  have "\<exists>r. reserve_poll sc1 W1 p want es = Some r"
  proof (cases "e = EvMarkDead")
    case True
    then have "sc_dead sc1" using st by (auto simp: MarkDead_def)
    then show ?thesis
      by (cases rule: reserve_attempt_cases [of sc1 W1 p want])
        (auto simp: reserve_poll.simps [of sc1])
  next
    case False
    with Cons show ?thesis by auto
  qed
  then show ?case using st
    by (cases rule: reserve_attempt_cases [of sc W p want])
      (auto simp: reserve_poll.simps [of sc])
qed simp

lemma credit_step_dead: "sc_dead sc \<Longrightarrow> sc_dead (fst (snd (credit_step e (sc, W))))"
  by (cases e)
    (auto simp: AddConn_def SendCredit_AddStream_def ApplyInitialWindowDelta_def MarkDead_def
      reserve_attempt_def initCond_def Let_def split_beta)

lemma reserve_poll_result:
  assumes "reserve_poll sc W p want es = Some ((n, d), sc', W', es')" "0 < sint want"
  shows "(d \<longrightarrow> sc_dead sc') \<and> (\<not> d \<longrightarrow> 0 < sint n \<and> sint n \<le> sint want \<and> \<not> sc_dead sc')
       \<and> (sc_dead sc \<longrightarrow> sc_dead sc')"
  using assms(1)
proof (induction es arbitrary: sc W)
  case Nil
  then show ?case using assms(2)
    by (cases rule: reserve_attempt_cases [of sc W p want]) (auto simp: reserve_poll.simps [of sc])
next
  case (Cons e es)
  show ?case
  proof (cases rule: reserve_attempt_cases [of sc W p want])
    case wait
    obtain b sc1 W1 where st: "credit_step e (sc, W) = (b, sc1, W1)" by (metis prod.exhaust)
    with wait Cons.prems have "reserve_poll sc1 W1 p want es = Some ((n, d), sc', W', es')"
      by (simp add: reserve_poll.simps [of sc])
    from Cons.IH [OF this] wait show ?thesis by simp
  qed (use Cons.prems assms(2) in \<open>auto simp: reserve_poll.simps [of sc]\<close>)
qed

lemma reserve_poll_dead_zero:
  "reserve_poll sc W p want es = Some ((n, True), sc', W', es') \<Longrightarrow> n = 0"
proof (induction es arbitrary: sc W)
  case Nil
  then show ?case
    by (cases rule: reserve_attempt_cases [of sc W p want]) (auto simp: reserve_poll.simps [of sc])
next
  case (Cons e es)
  then show ?case
    by (cases rule: reserve_attempt_cases [of sc W p want])
      (auto simp: reserve_poll.simps [of sc] split: prod.splits)
qed

text \<open>What a caller learns from the result of \<open>Reserve\<close>.\<close>

lemma Reserve_result:
  assumes "Reserve sc W p want es = Some ((n, d), sc', W', es')"
  shows "d \<Longrightarrow> sc_dead sc'" "sc_dead sc \<Longrightarrow> sc_dead sc'" "0 \<le> sint n" "sint n \<le> max 0 (sint want)"
    "\<not> d \<Longrightarrow> 0 < sint want \<Longrightarrow> 0 < sint n"
    "sint want \<le> 0 \<Longrightarrow> n = 0 \<and> \<not> d \<and> sc' = sc \<and> W' = W \<and> es' = es"
proof -
  have "(d \<longrightarrow> sc_dead sc') \<and> (sc_dead sc \<longrightarrow> sc_dead sc') \<and> 0 \<le> sint n \<and> sint n \<le> max 0 (sint want) \<and>
    (\<not> d \<longrightarrow> 0 < sint want \<longrightarrow> 0 < sint n) \<and>
    (sint want \<le> 0 \<longrightarrow> n = 0 \<and> \<not> d \<and> sc' = sc \<and> W' = W \<and> es' = es)"
  proof (cases "want \<le>s 0")
    case True
    then show ?thesis using assms by (auto simp: Reserve_def sle_sint)
  next
    case False
    then have w: "0 < sint want" by (simp add: sle_sint)
    have r: "reserve_poll (initCond sc) W p want es = Some ((n, d), sc', W', es')"
      using assms False by (simp add: Reserve_poll)
    moreover have "d \<Longrightarrow> n = 0"
      using reserve_poll_dead_zero r by simp
    ultimately show ?thesis using reserve_poll_result [OF r w] w by (auto simp: initCond_def)
  qed
  then show "d \<Longrightarrow> sc_dead sc'" "sc_dead sc \<Longrightarrow> sc_dead sc'" "0 \<le> sint n" "sint n \<le> max 0 (sint want)"
    "\<not> d \<Longrightarrow> 0 < sint want \<Longrightarrow> 0 < sint n"
    "sint want \<le> 0 \<Longrightarrow> n = 0 \<and> \<not> d \<and> sc' = sc \<and> W' = W \<and> es' = es" by auto
qed

lemma Reserve_immediate:
  assumes "\<not> sc_dead sc" "0 < sint want" "0 < sint (W p)" "0 < sint (ConnSendWindow sc)"
  obtains n where "sint n = min (sint want) (min (sint (W p)) (sint (ConnSendWindow sc)))"
    "Reserve sc W p want es = Some ((n, False), (initCond sc)\<lparr>ConnSendWindow := ConnSendWindow sc - n\<rparr>,
       W(p := W p - n), es)"
proof -
  have w: "\<not> want \<le>s 0" using assms(2) by (simp add: sle_sint)
  show thesis
  proof (cases rule: reserve_attempt_cases [of "initCond sc" W p want])
    case (grant n)
    then show thesis using w by (intro that [of n]) (simp_all add: Reserve_def initCond_def)
  qed (use assms in \<open>auto simp: initCond_def\<close>)
qed

section \<open>Accounting\<close>

lemma credit_step_account:
  assumes "0 \<le> sint (ConnSendWindow sc)" "0 \<le> event_granted e"
    and "sint (ConnSendWindow sc) + event_granted e < 2 ^ 31"
    and "credit_step e (sc, W) = (b, sc', W')"
  shows "sint (ConnSendWindow sc') + event_taken e (sc, W)
           = sint (ConnSendWindow sc) + event_granted e"
    and "0 \<le> sint (ConnSendWindow sc')" and "0 \<le> event_taken e (sc, W)"
proof -
  have "sint (ConnSendWindow sc') + event_taken e (sc, W)
           = sint (ConnSendWindow sc) + event_granted e \<and> 0 \<le> sint (ConnSendWindow sc') \<and>
        0 \<le> event_taken e (sc, W)"
  proof (cases e)
    case (EvAddConn d)
    then have "sint (ConnSendWindow sc') = sint (ConnSendWindow sc) + sint d"
      using assms by (auto simp: AddConn_def fits32_def intro!: sint_add32)
    then show ?thesis using EvAddConn assms by simp
  next
    case (EvReserve q n)
    show ?thesis
    proof (cases "n \<le>s 0")
      case True
      then show ?thesis using EvReserve assms by auto
    next
      case False
      show ?thesis
      proof (cases rule: reserve_attempt_cases [of "initCond sc" W q n])
        case (grant k)
        then have "sint (ConnSendWindow sc - k) = sint (ConnSendWindow sc) - sint k"
          using False by (intro grant_subtract) (auto simp: sle_sint initCond_def)
        moreover have "sc' = (initCond sc)\<lparr>ConnSendWindow := ConnSendWindow sc - k\<rparr>"
          using EvReserve False assms grant by (auto simp: initCond_def)
        ultimately show ?thesis using EvReserve False grant
          by (auto simp: sle_sint initCond_def)
      qed (use EvReserve False assms in \<open>auto simp: initCond_def\<close>)
    qed
  qed (use assms in \<open>auto simp: SendCredit_AddStream_def MarkDead_def
        ApplyInitialWindowDelta_def Let_def split: if_splits\<close>)
  then show "sint (ConnSendWindow sc') + event_taken e (sc, W)
           = sint (ConnSendWindow sc) + event_granted e"
    and "0 \<le> sint (ConnSendWindow sc')" and "0 \<le> event_taken e (sc, W)" by auto
qed

lemma add_delta_notin: "p \<notin> set ps \<Longrightarrow> add_delta d ps W p = W p"
  by (induction ps arbitrary: W) auto

lemma add_delta_in: "distinct ps \<Longrightarrow> p \<in> set ps \<Longrightarrow> add_delta d ps W p = W p + d"
  by (induction ps arbitrary: W) (auto simp: add_delta_notin)

lemma add_delta_apply:
  "distinct ps \<Longrightarrow> add_delta d ps W = (\<lambda>p. if p \<in> set ps then W p + d else W p)"
  by (auto simp: fun_eq_iff add_delta_in add_delta_notin)

lemma add_delta_zero: "add_delta 0 ps W = W"
  by (induction ps arbitrary: W) auto

lemma ApplyInitialWindowDelta_eq:
  "snd (ApplyInitialWindowDelta sc W n ps) =
     (sc\<lparr>PeerInitWindow := n\<rparr>, add_delta (n - PeerInitWindow sc) ps W)"
  by (auto simp: ApplyInitialWindowDelta_def Let_def add_delta_zero)

section \<open>Properties\<close>

text \<open>
  C9. A reservation never exceeds what the peer has authorised: when \<open>Reserve\<close> returns \<open>n\<close> bytes,
  then at the moment of the grant (after the events it slept through) both windows were positive,
  \<open>n\<close> is positive and is the smallest of the request and the two windows, both windows were
  reduced by exactly \<open>n\<close> without wrapping, and no other stream's window changed.
\<close>

theorem Reserve_within_windows:
  assumes "Reserve sc W p want es = Some ((n, False), sc', W', es')" "0 <s want"
  shows "\<exists>used sc0 W0. es = used @ es' \<and> credit_run used (initCond sc, W) = (sc0, W0) \<and>
           \<not> sc_dead sc0 \<and> 0 < sint n \<and>
           sint n = min (sint want) (min (sint (W0 p)) (sint (ConnSendWindow sc0))) \<and>
           sint (ConnSendWindow sc') = sint (ConnSendWindow sc0) - sint n \<and>
           sint (W' p) = sint (W0 p) - sint n \<and> (\<forall>q. q \<noteq> p \<longrightarrow> W' q = W0 q)"
proof -
  have w: "\<not> want \<le>s 0" "0 < sint want" using assms(2) by (auto simp: sless_sint sle_sint)
  from reserve_poll_grant [OF assms(1) [unfolded Reserve_poll [OF w(1)]]]
  obtain used sc0 W0 where u: "es = used @ es'" "credit_run used (initCond sc, W) = (sc0, W0)"
    and a: "reserve_attempt sc0 W0 p want = (Granted n, sc', W')" by blast
  show ?thesis
  proof (cases rule: reserve_attempt_cases [of sc0 W0 p want])
    case (grant k)
    then have k: "k = n" "sc' = sc0\<lparr>ConnSendWindow := ConnSendWindow sc0 - n\<rparr>"
      "W' = W0(p := W0 p - n)" using a by auto
    have "sint (W0 p - n) = sint (W0 p) - sint n"
      "sint (ConnSendWindow sc0 - n) = sint (ConnSendWindow sc0) - sint n"
      using grant k(1) w by (simp_all add: grant_subtract)
    with u k grant w show ?thesis by (intro exI [of _ used] exI [of _ sc0] exI [of _ W0]) simp
  qed (use a in simp_all)
qed

theorem Reserve_within_windows_witness:
  "\<exists>used sc0 W0. [EvAddStream 7 40] = used \<and>
     credit_run used (initCond fresh_credit, \<lambda>_. 0) = (sc0, W0) \<and>
     sint (40 :: int32) = min (sint (50 :: int32)) (min (sint (W0 7)) (sint (ConnSendWindow sc0)))"
proof -
  have "Reserve fresh_credit (\<lambda>_. 0) 7 50 [EvAddStream 7 40] =
      Some ((40, False), fresh_credit\<lparr>sc_cond := True, ConnSendWindow := 65495\<rparr>,
        ((\<lambda>_. 0)(7 := 40))(7 := 0), [])"
    by (simp add: Reserve_def reserve_attempt_def initCond_def SendCredit_AddStream_def
      fresh_credit_def DefaultInitialWindow_def min32_def sless_sint sle_sint)
  from Reserve_within_windows [OF this] show ?thesis by (auto simp: sless_sint)
qed

text \<open>
  C10. No wake-up is lost: although a waiting \<open>Reserve\<close> looks at the windows only when it is
  signalled, and the condition variable is created lazily, it behaves exactly like a loop that
  looks again after every single event.
\<close>

theorem Reserve_no_lost_wakeup:
  "Reserve sc W p want es =
     (if want \<le>s 0 then Some ((0, False), sc, W, es) else reserve_poll (initCond sc) W p want es)"
  by (cases "want \<le>s 0") (simp add: Reserve_def, simp add: Reserve_poll)

text \<open>
  Credit is conserved: over any sequence of credit operations in which the peer keeps to the
  window limit, the bytes reserved on the connection are exactly what was granted less what is left,
  and the connection window never becomes negative; so no interleaving of writers can overspend.
\<close>

lemma credit_conserved:
  assumes "0 \<le> sint (ConnSendWindow sc)" "peer_obeys es (sc, W)"
  shows "sint (ConnSendWindow (fst (credit_run es (sc, W)))) + run_taken es (sc, W)
           = sint (ConnSendWindow sc) + run_granted es
       \<and> 0 \<le> sint (ConnSendWindow (fst (credit_run es (sc, W))))
       \<and> run_taken es (sc, W) \<le> sint (ConnSendWindow sc) + run_granted es"
  using assms
proof (induction es arbitrary: sc W)
  case (Cons e es)
  obtain b sc1 W1 where st: "credit_step e (sc, W) = (b, sc1, W1)" by (metis prod.exhaust)
  have o: "0 \<le> event_granted e" "sint (ConnSendWindow sc) + event_granted e < 2 ^ 31"
    "peer_obeys es (sc1, W1)" using Cons.prems st by simp_all
  note acc = credit_step_account [OF Cons.prems(1) o(1,2) st]
  from Cons.IH [OF acc(2) o(3)] acc show ?case by (simp add: st)
qed simp

text \<open>
  A change of \<open>SETTINGS_INITIAL_WINDOW_SIZE\<close> moves every registered stream window by the
  difference to the previous value and no other, and a sequence of such changes has the effect of
  the last one alone: intermediate values leave no trace.
\<close>

lemma initial_window_changes_compose:
  assumes "distinct ps"
  shows "snd (ApplyInitialWindowDelta sc W n ps) =
           (sc\<lparr>PeerInitWindow := n\<rparr>,
            \<lambda>p. if p \<in> set ps then W p + (n - PeerInitWindow sc) else W p)
       \<and> (case snd (ApplyInitialWindowDelta sc W m ps) of (sc1, W1) \<Rightarrow>
            snd (ApplyInitialWindowDelta sc1 W1 n ps)) = snd (ApplyInitialWindowDelta sc W n ps)"
  using assms by (simp_all add: ApplyInitialWindowDelta_eq add_delta_apply fun_eq_iff)

text \<open>
  Teardown releases every writer: if the connection is marked dead at some point while
  \<open>Reserve\<close> runs, then \<open>Reserve\<close> returns, whatever the windows are.
\<close>

lemma MarkDead_releases_Reserve:
  assumes "EvMarkDead \<in> set es"
  shows "\<exists>r. Reserve sc W p want es = Some r"
proof (cases "want \<le>s 0")
  case False
  show ?thesis unfolding Reserve_poll [OF False] by (rule reserve_poll_dead [OF assms])
qed (auto simp: Reserve_def)

end
