(* ===== verification/H2_Pools.thy ===== *)
theory H2_Pools
  imports H2_Errors
begin

text \<open>
  Shared small machinery (\<open>internal/h2/pools.go\<close>): the status-string table, ASCII lower-casing, the
  pool of DATA buffers and the pre-interned header names. The standard-library parts the program
  relies on are modelled here too: \<open>http.Header\<close> with \<open>Get\<close>, \<open>Add\<close>, \<open>Del\<close>, and
  \<open>textproto.CanonicalMIMEHeaderKey\<close>.

  Buffers are identified by their pool handle (\<open>Bp\<close>); a chunk carries its bytes by value. That the
  bytes behind a handle cannot change while a chunk is queued is what the ownership results of
  \<open>H2_Stream\<close> are for: a handle is in the pool or in at most one queue.
\<close>

section \<open>Definitions\<close>

record DataChunk =
  Bp :: "ptr option"
  Data :: "byte list"

definition statusStrings :: "string list" where
  "statusStrings = map (\<lambda>i. Itoa (int i)) [0..<600]"

definition StatusString :: "int \<Rightarrow> string" where
  "StatusString code =
     (if 0 \<le> code \<and> code < int (length statusStrings) then statusStrings ! nat code
      else Itoa code)"

definition isUpper :: "char \<Rightarrow> bool" where
  "isUpper c \<longleftrightarrow> 65 \<le> (of_char c :: nat) \<and> (of_char c :: nat) \<le> 90"

definition lowerChar :: "char \<Rightarrow> char" where
  "lowerChar c = (if isUpper c then char_of ((of_char c :: nat) + 32) else c)"

text \<open>The outer loop of \<open>ToLower\<close>: the index of the first upper-case letter.\<close>

fun first_upper :: "nat \<Rightarrow> string \<Rightarrow> nat option" where
  "first_upper i [] = None"
| "first_upper i (c # cs) = (if isUpper c then Some i else first_upper (Suc i) cs)"

definition ToLower :: "string \<Rightarrow> string" where
  "ToLower s =
     (case first_upper 0 s of
        Some i \<Rightarrow> take i s @ map lowerChar (drop i s)
      | None \<Rightarrow> s)"

text \<open>The pool of DATA buffers: which handles are free, and the capacity behind each handle.\<close>

record DataPool =
  dp_pool :: spool
  dp_cap :: "ptr \<Rightarrow> nat"

definition GetDataSlice :: "nat \<Rightarrow> nat \<Rightarrow> DataPool \<Rightarrow> ptr \<times> DataPool" where
  "GetDataSlice k n dp =
     (let (bp, sp) = pool_get k (dp_pool dp);
          cap = (if k < length (pfree (dp_pool dp)) then dp_cap dp bp else 16384);
          cap' = (if cap < n then n else cap)
      in (bp, dp\<lparr>dp_pool := sp, dp_cap := (dp_cap dp)(bp := cap')\<rparr>))"

definition PutDataSlice :: "ptr \<Rightarrow> DataPool \<Rightarrow> DataPool" where
  "PutDataSlice bp dp = dp\<lparr>dp_pool := pool_put bp (dp_pool dp)\<rparr>"

definition CommonCanonNames :: "(string \<times> string) list" where
  "CommonCanonNames =
    [(''accept'', ''Accept''),
     (''accept-encoding'', ''Accept-Encoding''),
     (''accept-language'', ''Accept-Language''),
     (''authorization'', ''Authorization''),
     (''cache-control'', ''Cache-Control''),
     (''content-encoding'', ''Content-Encoding''),
     (''content-length'', ''Content-Length''),
     (''content-type'', ''Content-Type''),
     (''cookie'', ''Cookie''),
     (''host'', ''Host''),
     (''if-modified-since'', ''If-Modified-Since''),
     (''if-none-match'', ''If-None-Match''),
     (''origin'', ''Origin''),
     (''range'', ''Range''),
     (''referer'', ''Referer''),
     (''user-agent'', ''User-Agent''),
     (''x-forwarded-for'', ''X-Forwarded-For''),
     (''x-forwarded-proto'', ''X-Forwarded-Proto''),
     (''x-real-ip'', ''X-Real-Ip''),
     (''x-request-id'', ''X-Request-Id'')]"

definition CommonLowerNames :: "(string \<times> string) list" where
  "CommonLowerNames =
    [(''Content-Type'', ''content-type''),
     (''Content-Length'', ''content-length''),
     (''Content-Encoding'', ''content-encoding''),
     (''Cache-Control'', ''cache-control''),
     (''Date'', ''date''),
     (''Etag'', ''etag''),
     (''Expires'', ''expires''),
     (''Last-Modified'', ''last-modified''),
     (''Location'', ''location''),
     (''Server'', ''server''),
     (''Set-Cookie'', ''set-cookie''),
     (''Vary'', ''vary''),
     (''X-Request-Id'', ''x-request-id''),
     (''X-Content-Type-Options'', ''x-content-type-options'')]"

subsection \<open>\<open>net/textproto\<close> and \<open>http.Header\<close>\<close>

definition isLower :: "char \<Rightarrow> bool" where
  "isLower c \<longleftrightarrow> 97 \<le> (of_char c :: nat) \<and> (of_char c :: nat) \<le> 122"

definition upperChar :: "char \<Rightarrow> char" where
  "upperChar c = (if isLower c then char_of ((of_char c :: nat) - 32) else c)"

text \<open>A byte that may occur in a header field name (RFC 9110 token characters).\<close>

definition validHeaderFieldByte :: "char \<Rightarrow> bool" where
  "validHeaderFieldByte c \<longleftrightarrow>
     isUpper c \<or> isLower c \<or> digit_val c \<noteq> None \<or>
     (of_char c :: nat) \<in> {33, 35, 36, 37, 38, 39, 42, 43, 45, 46, 94, 95, 96, 124, 126}"

fun canonical_case :: "bool \<Rightarrow> string \<Rightarrow> string" where
  "canonical_case up [] = []"
| "canonical_case up (c # cs) =
     (let c' = (if up then upperChar c else lowerChar c) in
      c' # canonical_case (c' = CHR ''-'') cs)"

definition CanonicalMIMEHeaderKey :: "string \<Rightarrow> string" where
  "CanonicalMIMEHeaderKey s = (if list_all validHeaderFieldByte s then canonical_case True s else s)"

type_synonym header = "(string \<times> string list) list"

definition Header_Get :: "header \<Rightarrow> string \<Rightarrow> string" where
  "Header_Get h key =
     (case map_of h (CanonicalMIMEHeaderKey key) of
        Some (v # _) \<Rightarrow> v
      | _ \<Rightarrow> [])"

definition header_append :: "header \<Rightarrow> string \<Rightarrow> string \<Rightarrow> header" where
  "header_append h k v = AList.update k ((case map_of h k of Some vs \<Rightarrow> vs | None \<Rightarrow> []) @ [v]) h"

definition Header_Add :: "header \<Rightarrow> string \<Rightarrow> string \<Rightarrow> header" where
  "Header_Add h key v = header_append h (CanonicalMIMEHeaderKey key) v"

definition Header_Del :: "header \<Rightarrow> string \<Rightarrow> header" where
  "Header_Del h key = AList.delete (CanonicalMIMEHeaderKey key) h"

text \<open>A name cache agrees with the function it caches.\<close>

definition cache_ok :: "(string \<Rightarrow> string) \<Rightarrow> (string \<times> string) list \<Rightarrow> bool" where
  "cache_ok f m \<longleftrightarrow> (\<forall>k v. map_of m k = Some v \<longrightarrow> v = f k)"

section \<open>Lemmas\<close>

lemma first_upper_split:
  "first_upper n s = Some i \<Longrightarrow> n \<le> i \<and> map lowerChar (take (i - n) s) = take (i - n) s"
proof (induction s arbitrary: n)
  case (Cons c cs)
  show ?case
  proof (cases "isUpper c")
    case False
    then have "first_upper (Suc n) cs = Some i" using Cons.prems by simp
    from Cons.IH [OF this] have "Suc n \<le> i"
      and "map lowerChar (take (i - Suc n) cs) = take (i - Suc n) cs" by simp_all
    moreover from this have "i - n = Suc (i - Suc n)" by simp
    moreover have "lowerChar c = c" using False by (simp add: lowerChar_def)
    ultimately show ?thesis by simp
  qed (use Cons.prems in simp)
qed simp

lemma first_upper_None: "first_upper n s = None \<Longrightarrow> map lowerChar s = s"
  by (induction s arbitrary: n) (auto simp: lowerChar_def split: if_splits)

lemma ToLower_map: "ToLower s = map lowerChar s"
proof (cases "first_upper 0 s")
  case (Some i)
  have "map lowerChar s = map lowerChar (take i s) @ map lowerChar (drop i s)"
    by (metis append_take_drop_id map_append)
  then show ?thesis using first_upper_split [OF Some] Some by (simp add: ToLower_def)
qed (simp add: ToLower_def first_upper_None)

lemma of_char_lower: "isUpper c \<Longrightarrow> (of_char (lowerChar c) :: nat) = of_char c + 32"
  by (simp add: lowerChar_def isUpper_def)

lemma of_char_upper: "isLower c \<Longrightarrow> (of_char (upperChar c) :: nat) = of_char c - 32"
  by (auto simp: upperChar_def isLower_def intro!: mod_less)

lemma lowerChar_idem [simp]: "lowerChar (lowerChar c) = lowerChar c"
proof (cases "isUpper c")
  case True
  then have "\<not> isUpper (lowerChar c)" using of_char_lower by (simp add: isUpper_def)
  then show ?thesis by (simp add: lowerChar_def [of "lowerChar c"])
qed (simp add: lowerChar_def)

lemma lowerChar_upperChar: "lowerChar (upperChar c) = lowerChar c"
proof (cases "isLower c")
  case True
  then have "isUpper (upperChar c)" "\<not> isUpper c"
    using of_char_upper by (auto simp: isUpper_def isLower_def)
  then show ?thesis using True of_char_upper [OF True]
    by (simp add: lowerChar_def isLower_def)
qed (simp add: upperChar_def)

lemma canonical_case_lower: "map lowerChar (canonical_case up s) = map lowerChar s"
  by (induction up s rule: canonical_case.induct) (auto simp: Let_def lowerChar_upperChar)

lemma ToLower_Canonical: "ToLower (CanonicalMIMEHeaderKey s) = ToLower s"
  by (simp add: ToLower_map CanonicalMIMEHeaderKey_def canonical_case_lower)

lemma length_canonical_case [simp]: "length (canonical_case up s) = length s"
  by (induction up s rule: canonical_case.induct) (auto simp: Let_def)

lemma GetDataSlice_capacity:
  "GetDataSlice k n dp = (bp, dp') \<Longrightarrow> n \<le> dp_cap dp' bp"
  by (auto simp: GetDataSlice_def Let_def split: prod.splits)

lemma cache_ok_update: "cache_ok f m \<Longrightarrow> cache_ok f (AList.update k (f k) m)"
  by (auto simp: cache_ok_def update_conv')

lemma header_append_get:
  "map_of (header_append h k v) k' =
     (if k' = k then Some ((case map_of h k of Some vs \<Rightarrow> vs | None \<Rightarrow> []) @ [v]) else map_of h k')"
  by (simp add: header_append_def update_conv')

lemma cache_ok_table: "list_all (\<lambda>kv. snd kv = f (fst kv)) m \<Longrightarrow> cache_ok f m"
  unfolding cache_ok_def list_all_iff by (metis fst_conv map_of_SomeD snd_conv)

lemma CommonNames_ok:
  "cache_ok CanonicalMIMEHeaderKey CommonCanonNames" "cache_ok ToLower CommonLowerNames"
proof -
  show "cache_ok CanonicalMIMEHeaderKey CommonCanonNames"
    by (rule cache_ok_table)
      (simp add: CommonCanonNames_def CanonicalMIMEHeaderKey_def validHeaderFieldByte_def Let_def
        isUpper_def isLower_def upperChar_def lowerChar_def digit_val_def char_of_def bit_0)
  show "cache_ok ToLower CommonLowerNames"
    by (rule cache_ok_table)
      (simp add: CommonLowerNames_def ToLower_map isUpper_def lowerChar_def char_of_def bit_0)
qed

lemma StatusString_Itoa: "StatusString code = Itoa code"
proof -
  have "statusStrings ! nat code = Itoa code" if "0 \<le> code" "code < 600"
    using that nth_map_upt [of "nat code" 600 0 "\<lambda>i. Itoa (int i)"]
    by (simp add: statusStrings_def del: upt_rec_numeral)
  moreover have "length statusStrings = 600" by (simp add: statusStrings_def)
  ultimately show ?thesis by (simp add: StatusString_def)
qed

section \<open>Properties\<close>

text \<open>
  The optimised string helpers compute what their plain counterparts do: the table-driven status
  string is the decimal numeral of the code for every integer, and \<open>ToLower\<close>, which returns its
  argument unchanged when it can, lower-cases every byte.
\<close>

lemma string_helpers_correct:
  "StatusString code = Itoa code \<and> ToLower s = map lowerChar s"
  by (simp add: StatusString_Itoa ToLower_map)

text \<open>
  The interned header names are right: every entry of \<open>CommonCanonNames\<close> maps a name to its
  canonical MIME form and every entry of \<open>CommonLowerNames\<close> maps a name to its lower-case form, so
  a connection that starts with these tables decodes and encodes as one without any table would.
\<close>

lemma interned_names_correct:
  "cache_ok CanonicalMIMEHeaderKey CommonCanonNames \<and> cache_ok ToLower CommonLowerNames"
  by (simp add: CommonNames_ok)

end
