(* ===== verification/H2_Stream.thy ===== *)
theory H2_Stream
  imports H2_Pools
begin

text \<open>
  Streams (\<open>internal/h2/stream.go\<close>): the inbound chunk ring with its body reader, end of body and
  failure, and the pooled life cycle (\<open>Acquire\<close>, \<open>Release\<close>).

  The functions on a \<open>Stream\<close> are the critical sections under \<open>s.mu\<close>. A body read that would park on
  the condition variable returns \<open>RBlock\<close> and changes nothing. Buffers that go back to the buffer
  pool are returned as a list of handles.

  Streams are referenced by pointer from the connection registry, from the proxy's \<open>clientStream\<close>
  and from running goroutines, and are recycled through a pool that all connections share. \<open>mem\<close> is
  that shared memory: the stream objects by address, the two pools, and the contexts created by
  \<open>context.WithCancel\<close> with the set of those cancelled.
\<close>

section \<open>Definitions\<close>

record bodyReader =
  r_bp :: "ptr option"
  r_buf :: "byte list"

record Stream =
  st_ID :: uint32
  st_conn :: "ptr option"
  st_queue :: "DataChunk list"
  st_qHead :: nat
  st_dataDone :: bool
  st_dataErr :: "gerr option"
  st_SendWindow :: int32
  st_Header :: header
  st_Ctx :: "ptr option"
  st_Cancel :: "ptr option"
  st_body :: bodyReader

abbreviation emptyChunk :: DataChunk where
  "emptyChunk \<equiv> \<lparr>Bp = None, Data = []\<rparr>"

definition new_Stream :: Stream where
  "new_Stream = \<lparr>st_ID = 0, st_conn = None, st_queue = [], st_qHead = 0, st_dataDone = False,
     st_dataErr = None, st_SendWindow = 0, st_Header = [], st_Ctx = None, st_Cancel = None,
     st_body = \<lparr>r_bp = None, r_buf = []\<rparr>\<rparr>"

definition PushData :: "DataChunk \<Rightarrow> Stream \<Rightarrow> Stream" where
  "PushData chunk s = s\<lparr>st_queue := st_queue s @ [chunk]\<rparr>"

definition CloseData :: "Stream \<Rightarrow> Stream" where
  "CloseData s = s\<lparr>st_dataDone := True\<rparr>"

text \<open>\<open>FailBody\<close> returns the context to cancel, if there is one.\<close>

definition FailBody :: "gerr \<Rightarrow> Stream \<Rightarrow> Stream \<times> ptr option" where
  "FailBody err s =
     (s\<lparr>st_dataErr := (case st_dataErr s of None \<Rightarrow> Some err | Some e \<Rightarrow> Some e),
        st_dataDone := True\<rparr>, st_Cancel s)"

definition DataDone :: "Stream \<Rightarrow> bool" where
  "DataDone s = st_dataDone s"

definition returnBuf :: "bodyReader \<Rightarrow> bodyReader \<times> ptr list" where
  "returnBuf r = (case r_bp r of Some bp \<Rightarrow> (r\<lparr>r_bp := None\<rparr>, [bp]) | None \<Rightarrow> (r, []))"

datatype read_result = ROk "byte list" | RErr gerr | RBlock

definition bodyReader_Read :: "nat \<Rightarrow> Stream \<Rightarrow> read_result \<times> Stream \<times> ptr list" where
  "bodyReader_Read len_p s =
     (let r = st_body s in
      if r_buf r \<noteq> [] then
        let n = min len_p (length (r_buf r));
            r1 = r\<lparr>r_buf := drop n (r_buf r)\<rparr>;
            (r2, freed) = (if r_buf r1 = [] then returnBuf r1 else (r1, []))
        in (ROk (take n (r_buf r)), s\<lparr>st_body := r2\<rparr>, freed)
      else if st_qHead s = length (st_queue s) \<and> \<not> st_dataDone s then (RBlock, s, [])
      else if st_qHead s = length (st_queue s) then
        (RErr (case st_dataErr s of Some err \<Rightarrow> err | None \<Rightarrow> EOF), s, [])
      else
        let chunk = st_queue s ! st_qHead s;
            q1 = (st_queue s)[st_qHead s := emptyChunk];
            h1 = Suc (st_qHead s);
            (q2, h2) = (if 8 < h1 \<and> length q1 \<le> h1 * 2 then (drop h1 q1, 0) else (q1, h1));
            r1 = r\<lparr>r_bp := Bp chunk\<rparr>;
            n = min len_p (length (Data chunk));
            (r2, freed) = (if n < length (Data chunk) then (r1\<lparr>r_buf := drop n (Data chunk)\<rparr>, [])
                           else returnBuf r1)
        in (ROk (take n (Data chunk)),
            s\<lparr>st_queue := q2, st_qHead := h2, st_body := r2\<rparr>, freed))"

text \<open>The handles of the chunks from \<open>qHead\<close> on, as the loops of \<open>Close\<close> and \<open>Release\<close> free them.\<close>

fun chunk_handles :: "DataChunk list \<Rightarrow> ptr list" where
  "chunk_handles [] = []"
| "chunk_handles (c # cs) = (case Bp c of Some bp \<Rightarrow> bp # chunk_handles cs | None \<Rightarrow> chunk_handles cs)"

definition bodyReader_Close :: "Stream \<Rightarrow> Stream \<times> ptr list" where
  "bodyReader_Close s =
     (let (r1, freed) = returnBuf (st_body s) in
      (s\<lparr>st_body := r1, st_queue := [], st_qHead := 0\<rparr>,
       freed @ chunk_handles (drop (st_qHead s) (st_queue s))))"

section \<open>Shared memory\<close>

record mem =
  m_stream :: "ptr \<Rightarrow> Stream"
  m_streamPool :: spool
  m_dataPool :: DataPool
  m_nextCtx :: ptr
  m_cancelled :: "ptr set"

abbreviation upd_stream :: "ptr \<Rightarrow> (Stream \<Rightarrow> Stream) \<Rightarrow> mem \<Rightarrow> mem" where
  "upd_stream p f m \<equiv> m\<lparr>m_stream := (m_stream m)(p := f (m_stream m p))\<rparr>"

definition put_all :: "ptr list \<Rightarrow> mem \<Rightarrow> mem" where
  "put_all hs m = m\<lparr>m_dataPool := fold PutDataSlice hs (m_dataPool m)\<rparr>"

definition cancel_ctx :: "ptr option \<Rightarrow> mem \<Rightarrow> mem" where
  "cancel_ctx c m = (case c of Some x \<Rightarrow> m\<lparr>m_cancelled := insert x (m_cancelled m)\<rparr> | None \<Rightarrow> m)"

text \<open>\<open>k\<close> is the choice of \<open>streamPool.Get\<close>; an object that comes out of \<open>New\<close> is \<open>new_Stream\<close>.\<close>

definition Acquire :: "nat \<Rightarrow> uint32 \<Rightarrow> ptr \<Rightarrow> int32 \<Rightarrow> mem \<Rightarrow> ptr \<times> mem" where
  "Acquire k sid conn initialWindow m =
     (let (p, sp) = pool_get k (m_streamPool m);
          s = (if k < length (pfree (m_streamPool m)) then m_stream m p else new_Stream);
          ctx = m_nextCtx m;
          s' = s\<lparr>st_ID := sid, st_conn := Some conn, st_queue := [], st_qHead := 0,
                 st_dataDone := False, st_dataErr := None, st_SendWindow := initialWindow,
                 st_Header := [], st_Ctx := Some ctx, st_Cancel := Some ctx,
                 st_body := \<lparr>r_bp = None, r_buf = []\<rparr>\<rparr>
      in (p, m\<lparr>m_stream := (m_stream m)(p := s'), m_streamPool := sp, m_nextCtx := Suc ctx\<rparr>))"

definition Release :: "ptr \<Rightarrow> mem \<Rightarrow> mem" where
  "Release p m =
     (let s = m_stream m p;
          m1 = cancel_ctx (st_Cancel s) m;
          s1 = (case st_Cancel s of Some _ \<Rightarrow> s\<lparr>st_Ctx := None, st_Cancel := None\<rparr> | None \<Rightarrow> s);
          (r1, freed) = returnBuf (st_body s1);
          hs = chunk_handles (drop (st_qHead s1) (st_queue s1));
          s2 = s1\<lparr>st_body := r1, st_queue := [], st_qHead := 0, st_conn := None, st_dataErr := None\<rparr>;
          m2 = put_all (freed @ hs) m1
      in m2\<lparr>m_stream := (m_stream m2)(p := s2), m_streamPool := pool_put p (m_streamPool m2)\<rparr>)"

definition mem_PushData :: "ptr \<Rightarrow> DataChunk \<Rightarrow> mem \<Rightarrow> mem" where
  "mem_PushData p chunk m = upd_stream p (PushData chunk) m"

definition mem_CloseData :: "ptr \<Rightarrow> mem \<Rightarrow> mem" where
  "mem_CloseData p m = upd_stream p CloseData m"

definition mem_FailBody :: "gerr \<Rightarrow> ptr \<Rightarrow> mem \<Rightarrow> mem" where
  "mem_FailBody err p m =
     (let (s', c) = FailBody err (m_stream m p) in
      cancel_ctx c (m\<lparr>m_stream := (m_stream m)(p := s')\<rparr>))"

definition mem_Read :: "nat \<Rightarrow> ptr \<Rightarrow> mem \<Rightarrow> read_result \<times> mem" where
  "mem_Read len_p p m =
     (let (res, s', freed) = bodyReader_Read len_p (m_stream m p) in
      (res, put_all freed (m\<lparr>m_stream := (m_stream m)(p := s')\<rparr>)))"

definition mem_Close :: "ptr \<Rightarrow> mem \<Rightarrow> mem" where
  "mem_Close p m =
     (let (st, freed) = bodyReader_Close (m_stream m p)
      in put_all freed (m\<lparr>m_stream := (m_stream m)(p := st)\<rparr>))"

section \<open>Specification\<close>

text \<open>
  What a reader of a body relies on: the bytes not yet read, and how the body ends. A read takes a
  prefix of the bytes, never more than asked for; it fails only when nothing is left and the body
  has ended, and parks only when nothing is left and it has not.
\<close>

definition st_pending :: "Stream \<Rightarrow> byte list" where
  "st_pending s = r_buf (st_body s) @ concat (map Data (drop (st_qHead s) (st_queue s)))"

definition st_end :: "Stream \<Rightarrow> gerr option" where
  "st_end s = (if st_dataDone s then Some (case st_dataErr s of Some e \<Rightarrow> e | None \<Rightarrow> EOF) else None)"

definition st_handles :: "Stream \<Rightarrow> ptr list" where
  "st_handles s =
     (case r_bp (st_body s) of Some bp \<Rightarrow> [bp] | None \<Rightarrow> [])
       @ chunk_handles (drop (st_qHead s) (st_queue s))"

text \<open>Well-formedness: the head index is in range, queued chunks are not empty, and the reader holds
  a handle exactly while it holds bytes.\<close>

definition stream_ok :: "Stream \<Rightarrow> bool" where
  "stream_ok s \<longleftrightarrow>
     st_qHead s \<le> length (st_queue s) \<and>
     (\<forall>c \<in> set (drop (st_qHead s) (st_queue s)). Data c \<noteq> [] \<and> Bp c \<noteq> None) \<and>
     (r_buf (st_body s) = [] \<longleftrightarrow> r_bp (st_body s) = None)"

text \<open>The consumed prefix of the ring stays small.\<close>

definition ring_bounded :: "Stream \<Rightarrow> bool" where
  "ring_bounded s \<longleftrightarrow> st_qHead s \<le> 8 \<or> st_qHead s * 2 < length (st_queue s)"

text \<open>\<open>io.ReadAll\<close> and the copy loop of the proxy: read until an error, with \<open>fuel\<close> bounding the
  number of reads.\<close>

fun read_all :: "(nat \<Rightarrow> 's \<Rightarrow> read_result \<times> 's) \<Rightarrow> nat \<Rightarrow> nat \<Rightarrow> 's \<Rightarrow> (byte list \<times> gerr \<times> 's) option" where
  "read_all rd 0 n s = None"
| "read_all rd (Suc fuel) n s =
     (case rd n s of
        (ROk bs, s') \<Rightarrow> (case read_all rd fuel n s' of
                           Some (cs, e, s'') \<Rightarrow> Some (bs @ cs, e, s'')
                         | None \<Rightarrow> None)
      | (RErr e, s') \<Rightarrow> Some ([], e, s')
      | (RBlock, s') \<Rightarrow> None)"

text \<open>A run of the operations the frame reader and the body reader perform on one stream, in the
  order in which they take the lock, with the bytes read and the buffers given back.\<close>

datatype stream_op = OpPush DataChunk | OpCloseData | OpFailBody gerr | OpRead nat

fun stream_step :: "stream_op \<Rightarrow> Stream \<Rightarrow> byte list \<times> ptr list \<times> Stream" where
  "stream_step (OpPush c) s = ([], [], PushData c s)"
| "stream_step OpCloseData s = ([], [], CloseData s)"
| "stream_step (OpFailBody e) s = ([], [], fst (FailBody e s))"
| "stream_step (OpRead n) s =
     (let (res, s', freed) = bodyReader_Read n s in
      (case res of ROk bs \<Rightarrow> bs | _ \<Rightarrow> [], freed, s'))"

fun stream_run :: "stream_op list \<Rightarrow> Stream \<Rightarrow> byte list \<times> ptr list \<times> Stream" where
  "stream_run [] s = ([], [], s)"
| "stream_run (x # xs) s =
     (let (out, freed, s1) = stream_step x s; (out', freed', s2) = stream_run xs s1
      in (out @ out', freed @ freed', s2))"

fun pushed :: "stream_op list \<Rightarrow> DataChunk list" where
  "pushed [] = []"
| "pushed (OpPush c # xs) = c # pushed xs"
| "pushed (_ # xs) = pushed xs"

definition chunk_ok :: "DataChunk \<Rightarrow> bool" where
  "chunk_ok c \<longleftrightarrow> Data c \<noteq> [] \<and> Bp c \<noteq> None"

definition stream_read :: "nat \<Rightarrow> Stream \<Rightarrow> read_result \<times> Stream" where
  "stream_read n s = (let (res, s', _) = bodyReader_Read n s in (res, s'))"

text \<open>The state every acquired stream starts in.\<close>

definition fresh_stream :: "uint32 \<Rightarrow> ptr \<Rightarrow> int32 \<Rightarrow> ptr \<Rightarrow> Stream" where
  "fresh_stream sid conn w ctx =
     \<lparr>st_ID = sid, st_conn = Some conn, st_queue = [], st_qHead = 0, st_dataDone = False,
      st_dataErr = None, st_SendWindow = w, st_Header = [], st_Ctx = Some ctx, st_Cancel = Some ctx,
      st_body = \<lparr>r_bp = None, r_buf = []\<rparr>\<rparr>"

locale byte_source =
  fixes pending :: "'s \<Rightarrow> byte list"
    and ending :: "'s \<Rightarrow> gerr option"
    and rd :: "nat \<Rightarrow> 's \<Rightarrow> read_result \<times> 's"
    and inv :: "'s \<Rightarrow> bool"
  assumes rd_ok: "inv s \<Longrightarrow> rd n s = (ROk bs, s') \<Longrightarrow>
            pending s = bs @ pending s' \<and> ending s' = ending s \<and> inv s' \<and> length bs \<le> n"
    and rd_progress: "inv s \<Longrightarrow> 0 < n \<Longrightarrow> pending s \<noteq> [] \<Longrightarrow>
            \<exists>bs s'. rd n s = (ROk bs, s') \<and> bs \<noteq> []"
    and rd_end: "inv s \<Longrightarrow> pending s = [] \<Longrightarrow> ending s = Some e \<Longrightarrow> rd n s = (RErr e, s)"
    and rd_block: "inv s \<Longrightarrow> pending s = [] \<Longrightarrow> ending s = None \<Longrightarrow> rd n s = (RBlock, s)"
begin

lemma read_all_complete:
  assumes "inv s" "0 < n" "ending s = Some e" "length (pending s) < fuel"
  shows "\<exists>s'. read_all rd fuel n s = Some (pending s, e, s') \<and> inv s' \<and> pending s' = []"
  using assms
proof (induction fuel arbitrary: s)
  case (Suc fuel)
  show ?case
  proof (cases "pending s = []")
    case True
    then show ?thesis using rd_end Suc.prems by simp
  next
    case False
    from rd_progress [OF Suc.prems(1,2) False] obtain bs s1 where
      r: "rd n s = (ROk bs, s1)" "bs \<noteq> []" by blast
    note ok = rd_ok [OF Suc.prems(1) r(1)]
    with r(2) Suc.prems have "length (pending s1) < fuel" by (cases bs) auto
    with Suc.IH [of s1] ok Suc.prems obtain s2 where
      "read_all rd fuel n s1 = Some (pending s1, e, s2)" "inv s2" "pending s2 = []" by auto
    with r ok show ?thesis by auto
  qed
qed simp

end

section \<open>Reading\<close>

lemma returnBuf_simps [simp]:
  "r_buf (fst (returnBuf r)) = r_buf r" "r_bp (fst (returnBuf r)) = None"
  "snd (returnBuf r) = (case r_bp r of Some b \<Rightarrow> [b] | None \<Rightarrow> [])"
  by (auto simp: returnBuf_def split: option.split)

text \<open>The four ways through \<open>Read\<close> on a well-formed stream.\<close>

lemma Read_buffered:
  assumes "r_buf (st_body s) \<noteq> []"
  shows "bodyReader_Read n s =
    (ROk (take n (r_buf (st_body s))),
     s\<lparr>st_body := (if length (r_buf (st_body s)) \<le> n then \<lparr>r_bp = None, r_buf = []\<rparr>
                   else (st_body s)\<lparr>r_buf := drop n (r_buf (st_body s))\<rparr>)\<rparr>,
     (if length (r_buf (st_body s)) \<le> n
      then case r_bp (st_body s) of Some b \<Rightarrow> [b] | None \<Rightarrow> [] else []))"
  using assms
  by (cases "st_body s")
    (auto simp: bodyReader_Read_def Let_def min_def returnBuf_def split: option.split)

lemma Read_empty:
  assumes "r_buf (st_body s) = []" "st_qHead s = length (st_queue s)"
  shows "bodyReader_Read n s = (case st_end s of None \<Rightarrow> RBlock | Some e \<Rightarrow> RErr e, s, [])"
  using assms by (auto simp: bodyReader_Read_def st_end_def Let_def)

lemma Read_chunk:
  assumes "stream_ok s" "r_buf (st_body s) = []" "st_qHead s \<noteq> length (st_queue s)"
  obtains c cs s' where "drop (st_qHead s) (st_queue s) = c # cs" "chunk_ok c"
    "bodyReader_Read n s = (ROk (take n (Data c)), s', if length (Data c) \<le> n then [the (Bp c)] else [])"
    "drop (st_qHead s') (st_queue s') = cs" "st_qHead s' \<le> length (st_queue s')" "ring_bounded s'"
    "st_body s' = (if length (Data c) \<le> n then \<lparr>r_bp = None, r_buf = []\<rparr>
                   else \<lparr>r_bp = Bp c, r_buf = drop n (Data c)\<rparr>)"
    "st_dataDone s' = st_dataDone s" "st_dataErr s' = st_dataErr s"
proof -
  let ?h = "st_qHead s" and ?q = "st_queue s"
  let ?c = "?q ! ?h" and ?q1 = "?q[?h := emptyChunk]"
  let ?comp = "8 < Suc ?h \<and> length ?q1 \<le> Suc ?h * 2"
  have lt: "?h < length ?q" using assms by (auto simp: stream_ok_def)
  then have d: "drop ?h ?q = ?c # drop (Suc ?h) ?q" by (simp add: Cons_nth_drop_Suc)
  have b: "st_body s = \<lparr>r_bp = None, r_buf = []\<rparr>"
    using assms by (cases "st_body s") (simp add: stream_ok_def)
  have ok: "chunk_ok ?c" using assms(1) d by (auto simp: stream_ok_def chunk_ok_def)
  then obtain bp where bp: "Bp ?c = Some bp" by (auto simp: chunk_ok_def)
  let ?r = "if length (Data ?c) \<le> n then \<lparr>r_bp = None, r_buf = []\<rparr>
            else \<lparr>r_bp = Bp ?c, r_buf = drop n (Data ?c)\<rparr>"
  let ?s' = "s\<lparr>st_queue := if ?comp then drop (Suc ?h) ?q1 else ?q1,
               st_qHead := if ?comp then 0 else Suc ?h, st_body := ?r\<rparr>"
  have "bodyReader_Read n s = (ROk (take n (Data ?c)), ?s', if length (Data ?c) \<le> n then [bp] else [])"
    using lt b bp by (simp add: bodyReader_Read_def Let_def returnBuf_def min_def)
  then show thesis
    using lt d ok bp by (intro that [of ?c "drop (Suc ?h) ?q" ?s']) (auto simp: ring_bounded_def)
qed

lemma st_handles_Cons:
  "chunk_ok c \<Longrightarrow> chunk_handles (c # cs) = the (Bp c) # chunk_handles cs"
  by (auto simp: chunk_ok_def)

lemma stream_ok_chunks:
  "stream_ok s \<longleftrightarrow> st_qHead s \<le> length (st_queue s) \<and>
     (\<forall>c \<in> set (drop (st_qHead s) (st_queue s)). chunk_ok c) \<and>
     (r_buf (st_body s) = [] \<longleftrightarrow> r_bp (st_body s) = None)"
  by (simp add: stream_ok_def chunk_ok_def)

text \<open>What a successful read does, in terms of the specification.\<close>

lemma Read_ok:
  assumes "stream_ok s" "bodyReader_Read n s = (ROk bs, s', fr)"
  shows "st_pending s = bs @ st_pending s'" "st_end s' = st_end s" "stream_ok s'" "length bs \<le> n"
    "mset (st_handles s) = mset fr + mset (st_handles s')"
proof -
  have "st_pending s = bs @ st_pending s' \<and> st_end s' = st_end s \<and> stream_ok s' \<and> length bs \<le> n \<and>
    mset (st_handles s) = mset fr + mset (st_handles s')"
  proof (cases "r_buf (st_body s) = []")
    case False
    with assms show ?thesis
      by (auto simp: Read_buffered st_pending_def st_end_def stream_ok_def st_handles_def
          split: if_splits)
  next
    case True
    show ?thesis
    proof (cases "st_qHead s = length (st_queue s)")
      case False
      from Read_chunk [OF assms(1) True False, of n] obtain c cs s1 where
        c: "drop (st_qHead s) (st_queue s) = c # cs" "chunk_ok c"
          "bodyReader_Read n s = (ROk (take n (Data c)), s1, if length (Data c) \<le> n then [the (Bp c)] else [])"
          "drop (st_qHead s1) (st_queue s1) = cs" "st_qHead s1 \<le> length (st_queue s1)"
          "st_body s1 = (if length (Data c) \<le> n then \<lparr>r_bp = None, r_buf = []\<rparr>
                   else \<lparr>r_bp = Bp c, r_buf = drop n (Data c)\<rparr>)"
          "st_dataDone s1 = st_dataDone s" "st_dataErr s1 = st_dataErr s" by metis
      have e: "s' = s1" "bs = take n (Data c)" "fr = (if length (Data c) \<le> n then [the (Bp c)] else [])"
        using assms(2) c(3) by auto
      have "r_bp (st_body s) = None" using assms(1) True by (simp add: stream_ok_def)
      with c True assms(1) show ?thesis unfolding e
        by (auto simp: st_pending_def st_end_def stream_ok_chunks st_handles_def chunk_ok_def)
    qed (use assms True in \<open>auto simp: Read_empty split: option.splits\<close>)
  qed
  then show "st_pending s = bs @ st_pending s'" "st_end s' = st_end s" "stream_ok s'" "length bs \<le> n"
    "mset (st_handles s) = mset fr + mset (st_handles s')" by auto
qed

lemma Read_not_ok:
  assumes "stream_ok s" "bodyReader_Read n s = (res, s', fr)" "\<forall>bs. res \<noteq> ROk bs"
  shows "st_pending s = []" "s' = s" "fr = []"
    "res = (case st_end s of None \<Rightarrow> RBlock | Some e \<Rightarrow> RErr e)"
proof -
  have b: "r_buf (st_body s) = []"
    using Read_buffered [of s n] assms by (cases "r_buf (st_body s) = []") auto
  have q: "st_qHead s = length (st_queue s)"
  proof (rule ccontr)
    assume "st_qHead s \<noteq> length (st_queue s)"
    from Read_chunk [OF assms(1) b this, of n] show False using assms by (metis fst_conv)
  qed
  from b q assms(2) show "st_pending s = []" "s' = s" "fr = []"
    "res = (case st_end s of None \<Rightarrow> RBlock | Some e \<Rightarrow> RErr e)"
    by (auto simp: Read_empty st_pending_def)
qed

lemma Read_progress:
  assumes "stream_ok s" "0 < n" "st_pending s \<noteq> []"
  shows "\<exists>bs s' fr. bodyReader_Read n s = (ROk bs, s', fr) \<and> bs \<noteq> []"
proof (cases "r_buf (st_body s) = []")
  case True
  have "st_qHead s \<noteq> length (st_queue s)" using assms True by (auto simp: st_pending_def)
  from Read_chunk [OF assms(1) True this, of n] obtain c s' fr where
    "chunk_ok c" "bodyReader_Read n s = (ROk (take n (Data c)), s', fr)" by metis
  then show ?thesis using assms(2) by (auto simp: chunk_ok_def)
qed (use assms in \<open>simp add: Read_buffered\<close>)

lemma pending_empty:
  assumes "stream_ok s" "st_pending s = []"
  shows "r_buf (st_body s) = []" "st_qHead s = length (st_queue s)"
proof -
  show "r_buf (st_body s) = []" using assms(2) by (simp add: st_pending_def)
  have "drop (st_qHead s) (st_queue s) = []"
    using assms by (cases "drop (st_qHead s) (st_queue s)") (auto simp: st_pending_def stream_ok_def)
  then show "st_qHead s = length (st_queue s)" using assms(1) by (simp add: stream_ok_def)
qed

interpretation body: byte_source st_pending st_end stream_read stream_ok
proof
  fix s n bs s' assume "stream_ok s" "stream_read n s = (ROk bs, s')"
  then show "st_pending s = bs @ st_pending s' \<and> st_end s' = st_end s \<and> stream_ok s' \<and> length bs \<le> n"
    using Read_ok [of s n bs s'] by (auto simp: stream_read_def split: prod.splits)
next
  fix s :: Stream and n :: nat assume "stream_ok s" "0 < n" "st_pending s \<noteq> []"
  from Read_progress [OF this] obtain bs s' fr where
    "bodyReader_Read n s = (ROk bs, s', fr)" "bs \<noteq> []" by blast
  then show "\<exists>bs s'. stream_read n s = (ROk bs, s') \<and> bs \<noteq> []" by (simp add: stream_read_def)
next
  fix s e n assume "stream_ok s" and p: "st_pending s = []" and "st_end s = Some e"
  moreover note pending_empty [OF this(1,2)]
  ultimately show "stream_read n s = (RErr e, s)" by (simp add: stream_read_def Read_empty)
next
  fix s n assume "stream_ok s" and p: "st_pending s = []" and "st_end s = None"
  moreover note pending_empty [OF this(1,2)]
  ultimately show "stream_read n s = (RBlock, s)" by (simp add: stream_read_def Read_empty)
qed

section \<open>Runs of operations\<close>

lemma drop_append_le: "k \<le> length xs \<Longrightarrow> drop k (xs @ ys) = drop k xs @ ys"
  by simp

lemma chunk_handles_append: "chunk_handles (xs @ ys) = chunk_handles xs @ chunk_handles ys"
  by (induction xs) (auto split: option.split)

lemma PushData_spec:
  assumes "stream_ok s" "chunk_ok c"
  shows "stream_ok (PushData c s)" "st_pending (PushData c s) = st_pending s @ Data c"
    "st_handles (PushData c s) = st_handles s @ [the (Bp c)]" "st_end (PushData c s) = st_end s"
  using assms
  by (auto simp: PushData_def stream_ok_def st_pending_def st_handles_def st_end_def chunk_ok_def
      chunk_handles_append)

lemma stream_step_spec:
  assumes "stream_ok s" "\<forall>c \<in> set (pushed [x]). chunk_ok c" "stream_step x s = (out, fr, s')"
  shows "stream_ok s'"
    "st_pending s @ concat (map Data (pushed [x])) = out @ st_pending s'"
    "mset (st_handles s) + mset (chunk_handles (pushed [x])) = mset fr + mset (st_handles s')"
proof -
  have "stream_ok s' \<and> st_pending s @ concat (map Data (pushed [x])) = out @ st_pending s' \<and>
    mset (st_handles s) + mset (chunk_handles (pushed [x])) = mset fr + mset (st_handles s')"
  proof (cases x)
    case (OpPush c)
    then show ?thesis using assms PushData_spec [of s c] by (auto simp: chunk_ok_def)
  next
    case (OpRead n)
    obtain res s1 f where r: "bodyReader_Read n s = (res, s1, f)" by (metis prod.exhaust)
    then have e: "s' = s1" "fr = f" "out = (case res of ROk bs \<Rightarrow> bs | _ \<Rightarrow> [])"
      using assms(3) OpRead by auto
    show ?thesis
    proof (cases res)
      case (ROk bs)
      then show ?thesis using Read_ok [OF assms(1)] r e OpRead by (simp add: union_commute)
    qed (use Read_not_ok [OF assms(1) r] e OpRead assms(1) in \<open>auto split: option.splits\<close>)
  qed (use assms in \<open>auto simp: CloseData_def FailBody_def stream_ok_def st_pending_def st_handles_def\<close>)
  then show "stream_ok s'"
    "st_pending s @ concat (map Data (pushed [x])) = out @ st_pending s'"
    "mset (st_handles s) + mset (chunk_handles (pushed [x])) = mset fr + mset (st_handles s')" by auto
qed

lemma pushed_Cons: "pushed (x # xs) = pushed [x] @ pushed xs"
  by (cases x) auto

lemma stream_run_spec:
  assumes "stream_ok s" "\<forall>c \<in> set (pushed xs). chunk_ok c" "stream_run xs s = (out, fr, s')"
  shows "stream_ok s' \<and> st_pending s @ concat (map Data (pushed xs)) = out @ st_pending s' \<and>
    mset (st_handles s) + mset (chunk_handles (pushed xs)) = mset fr + mset (st_handles s')"
  using assms
proof (induction xs arbitrary: s out fr)
  case (Cons x xs)
  obtain o1 f1 s1 where st: "stream_step x s = (o1, f1, s1)" by (metis prod.exhaust)
  obtain o2 f2 where r: "stream_run xs s1 = (o2, f2, s')" "out = o1 @ o2" "fr = f1 @ f2"
    using Cons.prems(3) st by (auto split: prod.splits)
  have ok: "\<forall>c \<in> set (pushed [x]). chunk_ok c" "\<forall>c \<in> set (pushed xs). chunk_ok c"
    using Cons.prems(2) by (auto simp: pushed_Cons [of x xs])
  note s = stream_step_spec [OF Cons.prems(1) ok(1) st]
  note IH = Cons.IH [OF s(1) ok(2) r(1)]
  have "st_pending s @ concat (map Data (pushed (x # xs)))
      = (o1 @ st_pending s1) @ concat (map Data (pushed xs))"
    by (simp add: pushed_Cons [of x xs] s(2) [symmetric])
  moreover have "mset (st_handles s) + mset (chunk_handles (pushed (x # xs)))
      = (mset f1 + mset (st_handles s1)) + mset (chunk_handles (pushed xs))"
    by (simp add: pushed_Cons [of x xs] chunk_handles_append s(3) [symmetric])
  ultimately show ?case using IH r(2,3) by (simp add: add.assoc)
qed simp

lemma Read_ring_bounded:
  assumes "stream_ok s" "ring_bounded s" "bodyReader_Read n s = (res, s', fr)"
  shows "ring_bounded s'"
proof (cases "r_buf (st_body s) = []")
  case True
  show ?thesis
  proof (cases "st_qHead s = length (st_queue s)")
    case False
    from Read_chunk [OF assms(1) True False, of n] show ?thesis using assms(3) by (metis Pair_inject)
  qed (use assms True in \<open>auto simp: Read_empty\<close>)
qed (use assms in \<open>auto simp: Read_buffered ring_bounded_def\<close>)

lemma stream_step_ring_bounded:
  assumes "stream_ok s" "ring_bounded s" "stream_step x s = (out, fr, s')"
  shows "ring_bounded s'"
proof (cases x)
  case (OpRead n)
  then show ?thesis using assms Read_ring_bounded [OF assms(1,2)] by (auto split: prod.splits)
qed (use assms in \<open>auto simp: ring_bounded_def PushData_def CloseData_def FailBody_def\<close>)

lemma stream_run_ring_bounded:
  assumes "stream_ok s" "ring_bounded s" "\<forall>c \<in> set (pushed xs). chunk_ok c"
    and "stream_run xs s = (out, fr, s')"
  shows "ring_bounded s'"
  using assms
proof (induction xs arbitrary: s out fr)
  case (Cons x xs)
  obtain o1 f1 s1 where st: "stream_step x s = (o1, f1, s1)" by (metis prod.exhaust)
  obtain o2 f2 where r: "stream_run xs s1 = (o2, f2, s')"
    using Cons.prems(4) st by (auto split: prod.splits)
  have ok: "\<forall>c \<in> set (pushed [x]). chunk_ok c" "\<forall>c \<in> set (pushed xs). chunk_ok c"
    using Cons.prems(3) by (auto simp: pushed_Cons [of x xs])
  show ?case
    by (rule Cons.IH [OF stream_step_spec(1) [OF Cons.prems(1) ok(1) st]
          stream_step_ring_bounded [OF Cons.prems(1,2) st] ok(2) r])
qed simp

lemma stream_ok_fresh [simp]: "stream_ok (fresh_stream sid conn w ctx)"
  "st_pending (fresh_stream sid conn w ctx) = []" "st_handles (fresh_stream sid conn w ctx) = []"
  by (simp_all add: stream_ok_def fresh_stream_def st_pending_def st_handles_def)

section \<open>Properties\<close>

text \<open>
  C2. A body is a FIFO byte queue: in any interleaving of inbound chunks, end of body, failure and
  reads of any sizes, the bytes read so far followed by the bytes still pending are exactly the bytes
  pushed, in order. The ring with its lazily compacted head loses, repeats and reorders nothing.
\<close>

theorem body_reads_in_order:
  assumes "stream_ok s" "\<forall>c \<in> set (pushed xs). chunk_ok c" "stream_run xs s = (out, fr, s')"
  shows "st_pending s @ concat (map Data (pushed xs)) = out @ st_pending s'"
  using stream_run_spec [OF assms] by blast

theorem body_reads_in_order_witness:
  "st_pending (fresh_stream 1 0 0 0) @
     concat (map Data (pushed [OpPush \<lparr>Bp = Some 4, Data = [1, 2, 3]\<rparr>, OpRead 2,
       OpPush \<lparr>Bp = Some 5, Data = [4]\<rparr>, OpCloseData, OpRead 9]))
   = [1, 2, 3] @ [4]"
proof -
  let ?xs = "[OpPush \<lparr>Bp = Some 4, Data = [1, 2, 3]\<rparr>, OpRead 2,
       OpPush \<lparr>Bp = Some 5, Data = [4]\<rparr>, OpCloseData, OpRead 9]"
  have "stream_run ?xs (fresh_stream 1 0 0 0) =
    ([1, 2, 3], [4], (fresh_stream 1 0 0 0)\<lparr>st_queue := [emptyChunk, \<lparr>Bp = Some 5, Data = [4]\<rparr>],
       st_qHead := 1, st_dataDone := True\<rparr>)"
    by (simp add: fresh_stream_def PushData_def CloseData_def bodyReader_Read_def returnBuf_def)
  from body_reads_in_order [OF stream_ok_fresh(1) _ this] show ?thesis
    by (simp add: chunk_ok_def st_pending_def fresh_stream_def)
qed



text \<open>
  Reading to the end terminates and is complete: once the body has ended, the read loop (with any
  non-empty buffer) returns all pending bytes and then the end marker, which is \<open>EOF\<close> or the error
  the body failed with, after at most one more read than there are pending bytes.
\<close>

lemma body_read_to_end:
  assumes "stream_ok s" "0 < n" "st_end s = Some e"
  shows "\<exists>s'. read_all stream_read (Suc (length (st_pending s))) n s = Some (st_pending s, e, s')
           \<and> st_pending s' = []"
  using body.read_all_complete [OF assms, of "Suc (length (st_pending s))"] by auto

text \<open>
  The ring does not grow without bound while it is being drained: in every run the consumed prefix
  is at most eight slots or less than half of the ring.
\<close>

lemma ring_stays_compact:
  assumes "stream_ok s" "ring_bounded s" "\<forall>c \<in> set (pushed xs). chunk_ok c"
    and "stream_run xs s = (out, fr, s')"
  shows "st_qHead s' \<le> 8 \<or> st_qHead s' * 2 < length (st_queue s')"
  using stream_run_ring_bounded [OF assms] by (simp add: ring_bounded_def)

text \<open>
  A recycled stream carries nothing over: whichever object the pool hands out, \<open>Acquire\<close> gives one
  that nobody is using, in the same initial state as a newly allocated one, with a new context, and
  leaves every stream in use alone.
\<close>

lemma Acquire_fresh:
  assumes "pool_ok live (m_streamPool m)" "Acquire k sid conn w m = (p, m')"
  shows "p \<notin> live \<and> pool_ok (insert p live) (m_streamPool m')
       \<and> m_stream m' p = fresh_stream sid conn w (m_nextCtx m)
       \<and> (\<forall>q \<in> live. m_stream m' q = m_stream m q)"
proof -
  obtain sp where g: "pool_get k (m_streamPool m) = (p, sp)" and "m_streamPool m' = sp"
    using assms(2) by (auto simp: Acquire_def Let_def split: prod.splits)
  with pool_get_fresh [OF assms(1) g] assms(2) show ?thesis
    by (auto simp: Acquire_def Let_def fresh_stream_def)
qed

text \<open>
  \<open>Close\<close> returns every buffer the stream holds but leaves the unread tail of the current chunk in
  the reader: a later \<open>Read\<close> still delivers bytes from a buffer that is already back in the pool.
\<close>

lemma Read_after_Close_uses_returned_buffer:
  assumes "r_buf (st_body s) \<noteq> []" "r_bp (st_body s) = Some bp"
  shows "case bodyReader_Close s of (s', freed) \<Rightarrow>
           bp \<in> set freed \<and> st_handles s' = [] \<and>
           fst (bodyReader_Read n s') = ROk (take n (r_buf (st_body s)))"
  using assms by (auto simp: bodyReader_Close_def returnBuf_def Read_buffered st_handles_def)

end
