(* ===== verification/H2_Types.thy ===== *)
theory H2_Types
  imports H2_Flow H2_Stream
begin

text \<open>
  The state of an HTTP/2 connection (\<open>Conn\<close> in \<open>internal/h2/conn.go\<close>, \<open>writeIntent\<close> in
  \<open>internal/h2/writer.go\<close>) and the frames that go in and out.

  Two packages the program uses are not part of it: \<open>golang.org/x/net/http2\<close> (the framer) and its
  \<open>hpack\<close>. They are the parameter \<open>H2Lib\<close> of the definitions that call them. An HPACK codec is a
  deterministic state machine, so its state is the history of what it was fed: the decoder is a
  function of the blocks decoded before and the encoder of the fields and table sizes before. A
  framer write is a function of the frames written before; \<open>Some e\<close> means the write failed.
\<close>

section \<open>Frames\<close>

type_synonym hfield = "string \<times> string"

datatype SettingID =
    SettingHeaderTableSize
  | SettingEnablePush
  | SettingMaxConcurrentStreams
  | SettingInitialWindowSize
  | SettingMaxFrameSize
  | SettingMaxHeaderListSize
  | SettingUnknown uint32

type_synonym setting = "SettingID \<times> uint32"

text \<open>Frames as \<open>Framer.ReadFrame\<close> returns them. \<open>FData\<close> carries the usable bytes and the length
  field of the frame header, which counts padding.\<close>

datatype frame =
    FSettings bool "setting list"
  | FWindowUpdate uint32 uint32
  | FHeaders uint32 "byte list" bool bool      \<comment> \<open>stream, fragment, END_HEADERS, END_STREAM\<close>
  | FContinuation uint32 "byte list" bool
  | FData uint32 "byte list" uint32 bool
  | FPing bool "byte list"
  | FGoAway uint32 ErrCode
  | FRSTStream uint32 ErrCode
  | FOther uint32

text \<open>Frames as the framer writes them.\<close>

datatype oframe =
    OSettings "setting list"
  | OSettingsAck
  | OWindowUpdate uint32 uint32
  | OPing bool "byte list"
  | ORSTStream uint32 ErrCode
  | OData uint32 bool "byte list"
  | OHeaders uint32 "byte list" bool bool      \<comment> \<open>stream, fragment, END_STREAM, END_HEADERS\<close>
  | OGoAway uint32 ErrCode

datatype enc_op = EncField hfield | EncMaxTable uint32

record H2Lib =
  hpWrite :: "byte list list \<Rightarrow> byte list \<Rightarrow> hfield list \<times> bool"
  hpClose :: "byte list list \<Rightarrow> bool"
  hpEnc :: "enc_op list \<Rightarrow> hfield \<Rightarrow> byte list"
  frWrite :: "oframe list \<Rightarrow> oframe \<Rightarrow> gerr option"

section \<open>Write intents\<close>

datatype writeKind =
    wkSettingsAck
  | wkWindowUpdate
  | wkPing
  | wkRSTStream
  | wkRespHeaders
  | wkReqHeaders
  | wkData
  | wkSetMaxDynTab
  | wkGoAway

record writeIntent =
  wi_header :: header
  wi_method :: string
  wi_path :: string
  wi_authority :: string
  wi_scheme :: string
  wi_data :: "byte list"
  wi_status :: int
  wi_streamID :: uint32
  wi_increment :: uint32
  wi_val :: uint32
  wi_code :: ErrCode
  wi_pingData :: "byte list"
  wi_kind :: writeKind
  wi_isAck :: bool
  wi_endStream :: bool

text \<open>The zero value: what \<open>releaseIntent\<close> stores before an intent goes back to the pool, and hence
  what \<open>acquireIntent\<close> returns.\<close>

definition zeroIntent :: writeIntent where
  "zeroIntent = \<lparr>wi_header = [], wi_method = [], wi_path = [], wi_authority = [], wi_scheme = [],
     wi_data = [], wi_status = 0, wi_streamID = 0, wi_increment = 0, wi_val = 0,
     wi_code = ErrCodeNo, wi_pingData = replicate 8 0, wi_kind = wkSettingsAck, wi_isAck = False,
     wi_endStream = False\<rparr>"

definition releaseIntent :: "writeIntent \<Rightarrow> writeIntent" where
  "releaseIntent i = zeroIntent"

section \<open>The connection\<close>

text \<open>
  \<open>c_self\<close> is the connection's own address (streams point back to it). \<open>c_writeErr\<close> is \<open>Some e\<close> once
  the writer goroutine has exited, that is, once \<open>writeDeadCh\<close> is closed. \<open>c_wire\<close> records the
  frames written, \<open>c_deadline\<close> the transport's read deadline. The two drain channels are represented
  by whether they are closed; closing is guarded by \<open>sync.Once\<close>.
\<close>

record Conn =
  c_self :: ptr
  c_streams :: "(uint32 \<times> ptr) list"
  c_canonNames :: "(string \<times> string) list"
  c_lowerNames :: "(string \<times> string) list"
  c_dec :: "byte list list"
  c_enc :: "enc_op list"
  c_encBuf :: "byte list"
  c_scratchHeader :: header
  c_scratchMethod :: string
  c_scratchPath :: string
  c_scratchAuthority :: string
  c_scratchStatus :: string
  c_contBlock :: "byte list"
  c_contStreamID :: uint32
  c_contStreamEnded :: bool
  c_Send :: SendCredit
  c_writeQ :: "writeIntent list"
  c_writeErr :: "gerr option"
  c_wire :: "oframe list"
  c_drainStarted :: bool
  c_drainDone :: bool
  c_draining :: bool
  c_deadline :: "nat option"
  c_closed :: bool
  c_pingCounter :: uint64
  c_pingData :: "byte list"
  c_pingPending :: bool
  c_pingDeadline :: nat
  c_maxFrameSize :: uint32
  c_peerMaxStreams :: uint32
  c_LastStreamID :: uint32
  c_nextStreamID :: uint32

text \<open>The header block a HEADERS (and CONTINUATION) sequence decodes to.\<close>

record DecodedHeaders =
  dh_Header :: header
  dh_Method :: string
  dh_Path :: string
  dh_Authority :: string
  dh_Status :: string
  dh_StreamID :: uint32
  dh_EndStream :: bool

text \<open>The connection as \<open>New\<close> builds it before the writer goroutine starts; the initial SETTINGS
  frame has been written directly.\<close>

definition init_Conn :: "ptr \<Rightarrow> oframe list \<Rightarrow> Conn" where
  "init_Conn self wire =
     \<lparr>c_self = self, c_streams = [], c_canonNames = CommonCanonNames, c_lowerNames = CommonLowerNames,
      c_dec = [], c_enc = [], c_encBuf = [], c_scratchHeader = [], c_scratchMethod = [],
      c_scratchPath = [], c_scratchAuthority = [], c_scratchStatus = [], c_contBlock = [],
      c_contStreamID = 0, c_contStreamEnded = False, c_Send = fresh_credit, c_writeQ = [],
      c_writeErr = None, c_wire = wire, c_drainStarted = False, c_drainDone = False,
      c_draining = False, c_deadline = None, c_closed = False, c_pingCounter = 0,
      c_pingData = replicate 8 0, c_pingPending = False, c_pingDeadline = 0,
      c_maxFrameSize = 16384, c_peerMaxStreams = NoStreamLimit, c_LastStreamID = 0,
      c_nextStreamID = 0\<rparr>"

text \<open>
  A concrete library for the witnesses: a framer that never fails and a codec without a dynamic table
  that writes every string as its characters, each preceded by a 1, and a final 0.
\<close>

fun lit_string :: "string \<Rightarrow> byte list" where
  "lit_string [] = [0]"
| "lit_string (c # cs) = 1 # of_nat (of_char c) # lit_string cs"

fun lit_parse_string :: "byte list \<Rightarrow> (string \<times> byte list) option" where
  "lit_parse_string (b # bs) =
     (if b = 0 then Some ([], bs)
      else case bs of [] \<Rightarrow> None
        | c # cs \<Rightarrow> (case lit_parse_string cs of
            None \<Rightarrow> None | Some (s, r) \<Rightarrow> Some (char_of (unat c) # s, r)))"
| "lit_parse_string [] = None"

definition lit_field :: "hfield \<Rightarrow> byte list" where
  "lit_field f = lit_string (fst f) @ lit_string (snd f)"

fun lit_parse :: "nat \<Rightarrow> byte list \<Rightarrow> hfield list \<times> bool" where
  "lit_parse 0 bs = ([], bs = [])"
| "lit_parse (Suc fuel) bs =
     (if bs = [] then ([], True)
      else case lit_parse_string bs of
        None \<Rightarrow> ([], False)
      | Some (n, r) \<Rightarrow> (case lit_parse_string r of
          None \<Rightarrow> ([], False)
        | Some (v, r') \<Rightarrow> let (fs, ok) = lit_parse fuel r' in ((n, v) # fs, ok)))"

definition literal_lib :: H2Lib where
  "literal_lib = \<lparr>hpWrite = \<lambda>_ block. lit_parse (length block) block, hpClose = \<lambda>_. True,
     hpEnc = \<lambda>_ f. lit_field f, frWrite = \<lambda>_ _. None\<rparr>"

lemma lit_parse_string_string [simp]: "lit_parse_string (lit_string s @ r) = Some (s, r)"
proof (induction s)
  case (Cons c s)
  have "unat (of_nat (of_char c) :: byte) = of_char c"
    by (simp add: unat_of_nat)
  then show ?case using Cons.IH by simp
qed simp

lemma length_lit_string: "length (lit_string s) = 2 * length s + 1"
  by (induction s) simp_all

lemma lit_parse_fields:
  "length fs \<le> fuel \<Longrightarrow> lit_parse fuel (concat (map lit_field fs)) = (fs, True)"
proof (induction fs arbitrary: fuel)
  case Nil
  then show ?case by (cases fuel) simp_all
next
  case (Cons f fs)
  then obtain k where k: "fuel = Suc k" "length fs \<le> k" by (cases fuel) auto
  have "lit_string s @ r \<noteq> []" for s r by (cases s) simp_all
  then show ?case using Cons.IH [OF k(2)] by (simp add: k(1) lit_field_def)
qed

lemma length_lit_fields: "length fs \<le> length (concat (map lit_field fs))"
  by (induction fs) (simp_all add: lit_field_def length_lit_string)

end
