(* ===== verification/H2_Writer.thy ===== *)
theory H2_Writer
  imports H2_Types
begin

text \<open>
  The write side of a connection (\<open>internal/h2/writer.go\<close>). All frames go through a queue of intents
  that one goroutine drains; it alone owns the framer, the HPACK encoder and the name cache.

  This theory gives the writer as the functions it is made of and as the run in which it has caught
  up with the queue whenever a synchronous submit returns. The bound of the queue (\<open>writeQSize\<close>) only
  makes submitters wait; it matters in \<open>H2_Writer_Steps\<close>, where the goroutines take their actions one at a time.
\<close>

section \<open>Definitions\<close>

definition writeQSize :: nat where
  "writeQSize = 256"

definition forbiddenForwardHeader :: "string \<Rightarrow> bool" where
  "forbiddenForwardHeader lk \<longleftrightarrow>
     lk \<in> set [''connection'', ''proxy-connection'', ''keep-alive'', ''upgrade'', ''transfer-encoding'']"

definition WriteField :: "H2Lib \<Rightarrow> hfield \<Rightarrow> Conn \<Rightarrow> Conn" where
  "WriteField L hf c =
     c\<lparr>c_encBuf := c_encBuf c @ hpEnc L (c_enc c) hf, c_enc := c_enc c @ [EncField hf]\<rparr>"

definition framer_write :: "H2Lib \<Rightarrow> oframe \<Rightarrow> Conn \<Rightarrow> gerr option \<times> Conn" where
  "framer_write L f c =
     (case frWrite L (c_wire c) f of
        Some e \<Rightarrow> (Some e, c)
      | None \<Rightarrow> (None, c\<lparr>c_wire := c_wire c @ [f]\<rparr>))"

fun encodeRegularHeaders :: "H2Lib \<Rightarrow> header \<Rightarrow> Conn \<Rightarrow> Conn" where
  "encodeRegularHeaders L [] c = c"
| "encodeRegularHeaders L ((k, vv) # hs) c =
     (let (lk, c1) = (case map_of (c_lowerNames c) k of
                        Some lk \<Rightarrow> (lk, c)
                      | None \<Rightarrow> let lk = ToLower k in
                          (lk, c\<lparr>c_lowerNames := AList.update k lk (c_lowerNames c)\<rparr>));
          c2 = (if forbiddenForwardHeader lk then c1
                else fold (\<lambda>v. WriteField L (lk, v)) vv c1)
      in encodeRegularHeaders L hs c2)"

definition encodeAndWriteResponseHeaders ::
  "H2Lib \<Rightarrow> uint32 \<Rightarrow> int \<Rightarrow> header \<Rightarrow> bool \<Rightarrow> Conn \<Rightarrow> gerr option \<times> Conn" where
  "encodeAndWriteResponseHeaders L streamID status header endStream c =
     (let c1 = c\<lparr>c_encBuf := []\<rparr>;
          c2 = WriteField L ('':status'', StatusString status) c1;
          c3 = encodeRegularHeaders L header c2
      in framer_write L (OHeaders streamID (c_encBuf c3) endStream True) c3)"

definition encodeAndWriteRequestHeaders ::
  "H2Lib \<Rightarrow> uint32 \<Rightarrow> string \<Rightarrow> string \<Rightarrow> string \<Rightarrow> string \<Rightarrow> header \<Rightarrow> bool \<Rightarrow> Conn
     \<Rightarrow> gerr option \<times> Conn" where
  "encodeAndWriteRequestHeaders L streamID method scheme authority path header endStream c =
     (let c1 = c\<lparr>c_encBuf := []\<rparr>;
          c2 = WriteField L ('':method'', method) c1;
          scheme' = (if scheme = [] then ''https'' else scheme);
          c3 = WriteField L ('':scheme'', scheme') c2;
          c4 = (if authority \<noteq> [] then WriteField L ('':authority'', authority) c3 else c3);
          c5 = WriteField L ('':path'', path) c4;
          c6 = encodeRegularHeaders L header c5
      in framer_write L (OHeaders streamID (c_encBuf c6) endStream True) c6)"

definition processIntent :: "H2Lib \<Rightarrow> writeIntent \<Rightarrow> Conn \<Rightarrow> gerr option \<times> Conn" where
  "processIntent L i c =
     (case wi_kind i of
        wkSettingsAck \<Rightarrow> framer_write L OSettingsAck c
      | wkWindowUpdate \<Rightarrow> framer_write L (OWindowUpdate (wi_streamID i) (wi_increment i)) c
      | wkPing \<Rightarrow> framer_write L (OPing (wi_isAck i) (wi_pingData i)) c
      | wkRSTStream \<Rightarrow> framer_write L (ORSTStream (wi_streamID i) (wi_code i)) c
      | wkData \<Rightarrow> framer_write L (OData (wi_streamID i) (wi_endStream i) (wi_data i)) c
      | wkRespHeaders \<Rightarrow>
          encodeAndWriteResponseHeaders L (wi_streamID i) (wi_status i) (wi_header i) (wi_endStream i) c
      | wkReqHeaders \<Rightarrow>
          encodeAndWriteRequestHeaders L (wi_streamID i) (wi_method i) (wi_scheme i)
            (wi_authority i) (wi_path i) (wi_header i) (wi_endStream i) c
      | wkSetMaxDynTab \<Rightarrow> (None, c\<lparr>c_enc := c_enc c @ [EncMaxTable (wi_val i)]\<rparr>)
      | wkGoAway \<Rightarrow> framer_write L (OGoAway (wi_streamID i) (wi_code i)) c)"

text \<open>The loop of \<open>runWriter\<close> over the intents at hand: it stops at the first error.\<close>

fun writer_loop :: "H2Lib \<Rightarrow> writeIntent list \<Rightarrow> Conn \<Rightarrow> gerr option \<times> Conn" where
  "writer_loop L [] c = (None, c)"
| "writer_loop L (i # is) c =
     (case processIntent L i c of
        (None, c') \<Rightarrow> writer_loop L is c'
      | (Some e, c') \<Rightarrow> (Some e, c'))"

text \<open>The writer catching up with its queue. When a write fails the deferred function records the
  error, closes \<open>writeDeadCh\<close> and throws away what is still queued.\<close>

definition runWriter :: "H2Lib \<Rightarrow> Conn \<Rightarrow> Conn" where
  "runWriter L c =
     (case c_writeErr c of
        Some _ \<Rightarrow> c
      | None \<Rightarrow>
          (case writer_loop L (c_writeQ c) c of
             (None, c') \<Rightarrow> c'\<lparr>c_writeQ := []\<rparr>
           | (Some e, c') \<Rightarrow> c'\<lparr>c_writeQ := [], c_writeErr := Some e\<rparr>))"

definition submit :: "H2Lib \<Rightarrow> writeIntent \<Rightarrow> Conn \<Rightarrow> gerr option \<times> Conn" where
  "submit L i c =
     (case c_writeErr c of
        Some e \<Rightarrow> (Some e, c)
      | None \<Rightarrow> let c' = runWriter L (c\<lparr>c_writeQ := c_writeQ c @ [i]\<rparr>) in (c_writeErr c', c'))"

definition submitAsync :: "writeIntent \<Rightarrow> Conn \<Rightarrow> Conn" where
  "submitAsync i c =
     (if c_writeErr c = None then c\<lparr>c_writeQ := c_writeQ c @ [i]\<rparr> else c)"

definition SendSettingsAck :: "Conn \<Rightarrow> Conn" where
  "SendSettingsAck c = submitAsync (zeroIntent\<lparr>wi_kind := wkSettingsAck\<rparr>) c"

definition SendWindowUpdate :: "uint32 \<Rightarrow> uint32 \<Rightarrow> Conn \<Rightarrow> Conn" where
  "SendWindowUpdate streamID inc c =
     submitAsync (zeroIntent\<lparr>wi_kind := wkWindowUpdate, wi_streamID := streamID,
       wi_increment := inc\<rparr>) c"

definition SendPing :: "bool \<Rightarrow> byte list \<Rightarrow> Conn \<Rightarrow> Conn" where
  "SendPing ack data c =
     submitAsync (zeroIntent\<lparr>wi_kind := wkPing, wi_isAck := ack, wi_pingData := data\<rparr>) c"

definition SendRSTStream :: "uint32 \<Rightarrow> ErrCode \<Rightarrow> Conn \<Rightarrow> Conn" where
  "SendRSTStream streamID code c =
     submitAsync (zeroIntent\<lparr>wi_kind := wkRSTStream, wi_streamID := streamID, wi_code := code\<rparr>) c"

definition SendSetMaxDynamicTableSize :: "uint32 \<Rightarrow> Conn \<Rightarrow> Conn" where
  "SendSetMaxDynamicTableSize v c =
     submitAsync (zeroIntent\<lparr>wi_kind := wkSetMaxDynTab, wi_val := v\<rparr>) c"

definition SendData :: "H2Lib \<Rightarrow> uint32 \<Rightarrow> byte list \<Rightarrow> bool \<Rightarrow> Conn \<Rightarrow> gerr option \<times> Conn" where
  "SendData L streamID data endStream c =
     submit L (zeroIntent\<lparr>wi_kind := wkData, wi_streamID := streamID, wi_data := data,
       wi_endStream := endStream\<rparr>) c"

definition SendResponseHeaders ::
  "H2Lib \<Rightarrow> uint32 \<Rightarrow> int \<Rightarrow> header \<Rightarrow> bool \<Rightarrow> Conn \<Rightarrow> gerr option \<times> Conn" where
  "SendResponseHeaders L streamID status header endStream c =
     submit L (zeroIntent\<lparr>wi_kind := wkRespHeaders, wi_streamID := streamID, wi_status := status,
       wi_header := header, wi_endStream := endStream\<rparr>) c"

definition SendRequestHeaders ::
  "H2Lib \<Rightarrow> uint32 \<Rightarrow> string \<Rightarrow> string \<Rightarrow> string \<Rightarrow> string \<Rightarrow> header \<Rightarrow> bool \<Rightarrow> Conn
     \<Rightarrow> gerr option \<times> Conn" where
  "SendRequestHeaders L streamID method scheme authority path header endStream c =
     submit L (zeroIntent\<lparr>wi_kind := wkReqHeaders, wi_streamID := streamID, wi_method := method,
       wi_scheme := scheme, wi_authority := authority, wi_path := path, wi_header := header,
       wi_endStream := endStream\<rparr>) c"

definition SendGoAway :: "H2Lib \<Rightarrow> uint32 \<Rightarrow> ErrCode \<Rightarrow> Conn \<Rightarrow> gerr option \<times> Conn" where
  "SendGoAway L lastStreamID code c =
     submit L (zeroIntent\<lparr>wi_kind := wkGoAway, wi_streamID := lastStreamID, wi_code := code\<rparr>) c"

text \<open>\<open>select\<close> picks at random between the queue and the shutdown channel: \<open>n\<close> is how many queued
  intents the writer still takes before it sees the shutdown.\<close>

definition ShutdownWriter :: "H2Lib \<Rightarrow> nat \<Rightarrow> Conn \<Rightarrow> Conn" where
  "ShutdownWriter L n c =
     (case c_writeErr c of
        Some _ \<Rightarrow> c
      | None \<Rightarrow>
          (case writer_loop L (take n (c_writeQ c)) c of
             (None, c') \<Rightarrow> c'\<lparr>c_writeQ := [], c_writeErr := Some ErrConnClosed\<rparr>
           | (Some e, c') \<Rightarrow> c'\<lparr>c_writeQ := [], c_writeErr := Some e\<rparr>))"

definition WriteErr :: "Conn \<Rightarrow> gerr option" where
  "WriteErr c = c_writeErr c"

section \<open>Specification\<close>

text \<open>The fields a header map stands for on the wire, without caches: lower-case names, and nothing
  that RFC 9113 8.2.2 forbids.\<close>

fun regular_fields :: "header \<Rightarrow> hfield list" where
  "regular_fields [] = []"
| "regular_fields ((k, vv) # hs) =
     (if forbiddenForwardHeader (ToLower k) then [] else map (Pair (ToLower k)) vv) @ regular_fields hs"

text \<open>The bytes an encoder in a given state produces for a list of fields.\<close>

fun enc_fields :: "H2Lib \<Rightarrow> enc_op list \<Rightarrow> hfield list \<Rightarrow> byte list" where
  "enc_fields L hist [] = []"
| "enc_fields L hist (f # fs) = hpEnc L hist f @ enc_fields L (hist @ [EncField f]) fs"

definition response_fields :: "int \<Rightarrow> header \<Rightarrow> hfield list" where
  "response_fields status header = ('':status'', Itoa status) # regular_fields header"

definition request_fields :: "string \<Rightarrow> string \<Rightarrow> string \<Rightarrow> string \<Rightarrow> header \<Rightarrow> hfield list" where
  "request_fields method scheme authority path header =
     [('':method'', method), ('':scheme'', if scheme = [] then ''https'' else scheme)]
     @ (if authority \<noteq> [] then [('':authority'', authority)] else [])
     @ [('':path'', path)] @ regular_fields header"

text \<open>The header fields of an intent, and the frame it stands for given the encoder state.\<close>

definition intent_fields :: "writeIntent \<Rightarrow> hfield list" where
  "intent_fields i =
     (case wi_kind i of
        wkRespHeaders \<Rightarrow> response_fields (wi_status i) (wi_header i)
      | wkReqHeaders \<Rightarrow> request_fields (wi_method i) (wi_scheme i) (wi_authority i) (wi_path i) (wi_header i)
      | _ \<Rightarrow> [])"

definition intent_frames :: "H2Lib \<Rightarrow> enc_op list \<Rightarrow> writeIntent \<Rightarrow> oframe list" where
  "intent_frames L hist i =
     (case wi_kind i of
        wkSettingsAck \<Rightarrow> [OSettingsAck]
      | wkWindowUpdate \<Rightarrow> [OWindowUpdate (wi_streamID i) (wi_increment i)]
      | wkPing \<Rightarrow> [OPing (wi_isAck i) (wi_pingData i)]
      | wkRSTStream \<Rightarrow> [ORSTStream (wi_streamID i) (wi_code i)]
      | wkData \<Rightarrow> [OData (wi_streamID i) (wi_endStream i) (wi_data i)]
      | wkSetMaxDynTab \<Rightarrow> []
      | wkGoAway \<Rightarrow> [OGoAway (wi_streamID i) (wi_code i)]
      | _ \<Rightarrow> [OHeaders (wi_streamID i) (enc_fields L hist (intent_fields i)) (wi_endStream i) True])"

definition intent_ops :: "writeIntent \<Rightarrow> enc_op list" where
  "intent_ops i = map EncField (intent_fields i)
     @ (if wi_kind i = wkSetMaxDynTab then [EncMaxTable (wi_val i)] else [])"

text \<open>The frames of a sequence of intents, each encoded in the state its predecessors left.\<close>

fun frames_of :: "H2Lib \<Rightarrow> enc_op list \<Rightarrow> writeIntent list \<Rightarrow> oframe list" where
  "frames_of L hist [] = []"
| "frames_of L hist (i # is) = intent_frames L hist i @ frames_of L (hist @ intent_ops i) is"

text \<open>What a connection has written or is committed to write, and the encoder state after it.\<close>

definition enc_after :: "Conn \<Rightarrow> enc_op list" where
  "enc_after c = c_enc c @ concat (map intent_ops (c_writeQ c))"

definition outgoing :: "H2Lib \<Rightarrow> Conn \<Rightarrow> oframe list" where
  "outgoing L c = c_wire c @ frames_of L (c_enc c) (c_writeQ c)"

text \<open>The part of a connection the writer does not own.\<close>

definition unowned :: "Conn \<Rightarrow> Conn" where
  "unowned c = c\<lparr>c_wire := [], c_enc := [], c_encBuf := [], c_lowerNames := [], c_writeQ := [],
     c_writeErr := None\<rparr>"

section \<open>Encoding\<close>

lemma fold_WriteField:
  "fold (WriteField L) fs c =
     c\<lparr>c_encBuf := c_encBuf c @ enc_fields L (c_enc c) fs, c_enc := c_enc c @ map EncField fs\<rparr>"
  by (induction fs arbitrary: c) (simp_all add: WriteField_def)

lemma fold_WriteField_name:
  "fold (\<lambda>v. WriteField L (lk, v)) vv c = fold (WriteField L) (map (Pair lk) vv) c"
  by (simp add: fold_map comp_def)

lemma fold_WriteField_cache:
  "fold (WriteField L) fs (c\<lparr>c_lowerNames := N\<rparr>) = (fold (WriteField L) fs c)\<lparr>c_lowerNames := N\<rparr>"
  by (simp add: fold_WriteField)

lemma framer_write_cases:
  obtains (ok) "framer_write L f c = (None, c\<lparr>c_wire := c_wire c @ [f]\<rparr>)"
  | (err) e where "framer_write L f c = (Some e, c)"
proof (cases "frWrite L (c_wire c) f")
  case None
  then show thesis by (intro ok) (simp add: framer_write_def)
next
  case (Some e)
  then show thesis by (intro err [of e]) (simp add: framer_write_def)
qed

lemma enc_fields_append:
  "enc_fields L hist (fs @ gs) = enc_fields L hist fs @ enc_fields L (hist @ map EncField fs) gs"
  by (induction fs arbitrary: hist) simp_all

lemma encodeRegularHeaders_spec:
  assumes "cache_ok ToLower (c_lowerNames c)"
  shows "\<exists>names. cache_ok ToLower names \<and>
           encodeRegularHeaders L h c = (fold (WriteField L) (regular_fields h) c)\<lparr>c_lowerNames := names\<rparr>"
  using assms
proof (induction h arbitrary: c)
  case Nil
  then show ?case by (intro exI [of _ "c_lowerNames c"]) simp
next
  case (Cons kv hs)
  obtain k vv where kv: "kv = (k, vv)" by (cases kv)
  let ?names = "case map_of (c_lowerNames c) k of Some _ \<Rightarrow> c_lowerNames c
                | None \<Rightarrow> AList.update k (ToLower k) (c_lowerNames c)"
  let ?f = "if forbiddenForwardHeader (ToLower k) then [] else map (Pair (ToLower k)) vv"
  let ?c = "(fold (WriteField L) ?f c)\<lparr>c_lowerNames := ?names\<rparr>"
  have ok: "cache_ok ToLower ?names"
    using Cons.prems by (simp add: cache_ok_update split: option.split)
  have lk: "map_of (c_lowerNames c) k = Some lk \<Longrightarrow> lk = ToLower k" for lk
    using Cons.prems by (simp add: cache_ok_def)
  have "encodeRegularHeaders L (kv # hs) c = encodeRegularHeaders L hs ?c"
  proof (cases "map_of (c_lowerNames c) k")
    case None
    then show ?thesis by (simp add: kv fold_WriteField_name fold_WriteField_cache Let_def)
  next
    case (Some a)
    moreover have "(fold (WriteField L) fs c)\<lparr>c_lowerNames := c_lowerNames c\<rparr> = fold (WriteField L) fs c"
      for fs by (simp add: fold_WriteField)
    ultimately show ?thesis using lk [OF Some] by (simp add: kv fold_WriteField_name Let_def)
  qed
  moreover have "cache_ok ToLower (c_lowerNames ?c)" using ok by simp
  ultimately obtain names where "cache_ok ToLower names"
    "encodeRegularHeaders L (kv # hs) c = (fold (WriteField L) (regular_fields hs) ?c)\<lparr>c_lowerNames := names\<rparr>"
    using Cons.IH by metis
  then show ?case
    by (intro exI [of _ names]) (simp add: kv fold_WriteField enc_fields_append)
qed

lemma encode_headers_frame:
  assumes "cache_ok ToLower (c_lowerNames c)"
  shows "\<exists>names. cache_ok ToLower names \<and>
    encodeRegularHeaders L h (fold (WriteField L) fs (c\<lparr>c_encBuf := []\<rparr>)) =
      c\<lparr>c_encBuf := enc_fields L (c_enc c) (fs @ regular_fields h),
        c_enc := c_enc c @ map EncField (fs @ regular_fields h), c_lowerNames := names\<rparr>"
proof -
  let ?c = "fold (WriteField L) fs (c\<lparr>c_encBuf := []\<rparr>)"
  have "cache_ok ToLower (c_lowerNames ?c)" using assms by (simp add: fold_WriteField)
  from encodeRegularHeaders_spec [OF this, of L h] show ?thesis
    by (auto simp: fold_WriteField enc_fields_append)
qed

text \<open>One intent: on success its frame is written and the encoder has moved on by its fields; on
  failure nothing is written. Either way nothing but the writer's own state changes.\<close>

lemma processIntent_spec:
  assumes "cache_ok ToLower (c_lowerNames c)" "processIntent L i c = (r, c')"
  shows "cache_ok ToLower (c_lowerNames c')" "unowned c' = unowned c"
    "c_writeQ c' = c_writeQ c" "c_writeErr c' = c_writeErr c"
    "r = None \<Longrightarrow> c_wire c' = c_wire c @ intent_frames L (c_enc c) i"
    "r = None \<Longrightarrow> c_enc c' = c_enc c @ intent_ops i"
    "r \<noteq> None \<Longrightarrow> c_wire c' = c_wire c"
proof -
  have "cache_ok ToLower (c_lowerNames c') \<and> unowned c' = unowned c \<and>
    c_writeQ c' = c_writeQ c \<and> c_writeErr c' = c_writeErr c \<and>
    (if r = None then c_wire c' = c_wire c @ intent_frames L (c_enc c) i \<and>
        c_enc c' = c_enc c @ intent_ops i else c_wire c' = c_wire c)"
  proof (cases "wi_kind i = wkRespHeaders \<or> wi_kind i = wkReqHeaders")
    case True
    define fs where "fs = (if wi_kind i = wkRespHeaders then [('':status'', Itoa (wi_status i))]
      else [('':method'', wi_method i), ('':scheme'', if wi_scheme i = [] then ''https'' else wi_scheme i)]
        @ (if wi_authority i \<noteq> [] then [('':authority'', wi_authority i)] else [])
        @ [('':path'', wi_path i)])"
    have f: "intent_fields i = fs @ regular_fields (wi_header i)"
      using True by (auto simp: intent_fields_def fs_def response_fields_def request_fields_def)
    let ?c1 = "encodeRegularHeaders L (wi_header i) (fold (WriteField L) fs (c\<lparr>c_encBuf := []\<rparr>))"
    have p: "processIntent L i c =
        framer_write L (OHeaders (wi_streamID i) (c_encBuf ?c1) (wi_endStream i) True) ?c1"
      using True
      by (auto simp: processIntent_def encodeAndWriteResponseHeaders_def
          encodeAndWriteRequestHeaders_def fs_def StatusString_Itoa Let_def)
    obtain names where "cache_ok ToLower names"
      "?c1 = c\<lparr>c_encBuf := enc_fields L (c_enc c) (intent_fields i),
         c_enc := c_enc c @ map EncField (intent_fields i), c_lowerNames := names\<rparr>"
      using encode_headers_frame [OF assms(1), of L "wi_header i" fs] unfolding f by blast
    then show ?thesis using p assms(2) True
      by (cases rule: framer_write_cases [of L "OHeaders (wi_streamID i) (c_encBuf ?c1) (wi_endStream i) True" ?c1])
        (auto simp: intent_frames_def intent_ops_def unowned_def)
  next
    case False
    show ?thesis
    proof (cases "wi_kind i = wkSetMaxDynTab")
      case True
      then show ?thesis using assms
        by (auto simp: processIntent_def intent_frames_def intent_ops_def intent_fields_def unowned_def)
    next
      case False
      with \<open>\<not> (wi_kind i = wkRespHeaders \<or> wi_kind i = wkReqHeaders)\<close> obtain f where
        f: "processIntent L i c = framer_write L f c" "intent_frames L (c_enc c) i = [f]" "intent_ops i = []"
        by (cases "wi_kind i")
          (auto simp: processIntent_def intent_frames_def intent_ops_def intent_fields_def)
      then show ?thesis using assms
        by (cases rule: framer_write_cases [of L f c]) (auto simp: unowned_def)
    qed
  qed
  then show "cache_ok ToLower (c_lowerNames c')" "unowned c' = unowned c"
    "c_writeQ c' = c_writeQ c" "c_writeErr c' = c_writeErr c"
    "r = None \<Longrightarrow> c_wire c' = c_wire c @ intent_frames L (c_enc c) i"
    "r = None \<Longrightarrow> c_enc c' = c_enc c @ intent_ops i"
    "r \<noteq> None \<Longrightarrow> c_wire c' = c_wire c" by (auto split: if_splits)
qed

lemma writer_loop_spec:
  assumes "cache_ok ToLower (c_lowerNames c)" "writer_loop L is c = (r, c')"
  shows "cache_ok ToLower (c_lowerNames c') \<and> unowned c' = unowned c \<and>
    c_writeQ c' = c_writeQ c \<and> c_writeErr c' = c_writeErr c \<and>
    (\<exists>k \<le> length is. c_wire c' = c_wire c @ frames_of L (c_enc c) (take k is) \<and>
       (r = None \<longleftrightarrow> k = length is) \<and>
       (r = None \<longrightarrow> c_enc c' = c_enc c @ concat (map intent_ops is)))"
  using assms
proof (induction "is" arbitrary: c)
  case (Cons i "is")
  obtain r1 c1 where p: "processIntent L i c = (r1, c1)" by (metis prod.exhaust)
  note sp = processIntent_spec [OF Cons.prems(1) p]
  show ?case
  proof (cases r1)
    case (Some e)
    then show ?thesis using sp p Cons.prems(2) by (auto intro!: exI [of _ 0])
  next
    case None
    then have "writer_loop L is c1 = (r, c')" using p Cons.prems(2) by simp
    from Cons.IH [OF sp(1) this] obtain k where IH:
      "cache_ok ToLower (c_lowerNames c')" "unowned c' = unowned c1"
      "c_writeQ c' = c_writeQ c1" "c_writeErr c' = c_writeErr c1" "k \<le> length is"
      "c_wire c' = c_wire c1 @ frames_of L (c_enc c1) (take k is)"
      "r = None \<longleftrightarrow> k = length is"
      "r = None \<longrightarrow> c_enc c' = c_enc c1 @ concat (map intent_ops is)" by blast
    then show ?thesis using sp None by (auto intro!: exI [of _ "Suc k"])
  qed
qed simp

section \<open>Submitting\<close>

lemma submit_cases:
  assumes "cache_ok ToLower (c_lowerNames c)" "submit L i c = (r, c')"
  obtains (dead) e where "c_writeErr c = Some e" "r = Some e" "c' = c"
  | (run) k where "c_writeErr c = None" "c_writeErr c' = r" "c_writeQ c' = []"
      "unowned c' = unowned c" "cache_ok ToLower (c_lowerNames c')"
      "k \<le> Suc (length (c_writeQ c))"
      "c_wire c' = c_wire c @ frames_of L (c_enc c) (take k (c_writeQ c @ [i]))"
      "r = None \<longleftrightarrow> k = Suc (length (c_writeQ c))"
      "r = None \<Longrightarrow> c_enc c' = c_enc c @ concat (map intent_ops (c_writeQ c @ [i]))"
proof (cases "c_writeErr c")
  case (Some e)
  then show thesis using assms by (intro dead [of e]) (simp_all add: submit_def)
next
  case None
  let ?c = "c\<lparr>c_writeQ := c_writeQ c @ [i]\<rparr>"
  obtain r1 c1 where w: "writer_loop L (c_writeQ ?c) ?c = (r1, c1)" by (metis prod.exhaust)
  have "cache_ok ToLower (c_lowerNames ?c)" using assms(1) by simp
  from writer_loop_spec [OF this w] None obtain k where k:
    "cache_ok ToLower (c_lowerNames c1)" "unowned c1 = unowned ?c"
    "c_writeErr c1 = None" "k \<le> Suc (length (c_writeQ c))"
    "c_wire c1 = c_wire c @ frames_of L (c_enc c) (take k (c_writeQ c @ [i]))"
    "r1 = None \<longleftrightarrow> k = Suc (length (c_writeQ c))"
    "r1 = None \<longrightarrow> c_enc c1 = c_enc c @ concat (map intent_ops (c_writeQ c @ [i]))"
    by (simp del: take_append map_append) blast
  have c': "c' = c1\<lparr>c_writeQ := [], c_writeErr := r1\<rparr>" "r = r1"
    using assms(2) None w k(3) by (auto simp: submit_def runWriter_def Let_def split: option.splits)
  show thesis
    by (rule run [of k]) (use None k c' in \<open>auto simp: unowned_def\<close>)
qed

lemma unowned_fields:
  assumes "unowned c' = unowned c"
  shows "c_self c' = c_self c" "c_streams c' = c_streams c" "c_canonNames c' = c_canonNames c"
    "c_dec c' = c_dec c" "c_contBlock c' = c_contBlock c" "c_contStreamID c' = c_contStreamID c"
    "c_contStreamEnded c' = c_contStreamEnded c" "c_Send c' = c_Send c"
    "c_drainStarted c' = c_drainStarted c" "c_drainDone c' = c_drainDone c"
    "c_draining c' = c_draining c" "c_deadline c' = c_deadline c" "c_closed c' = c_closed c"
    "c_pingCounter c' = c_pingCounter c" "c_pingData c' = c_pingData c"
    "c_pingPending c' = c_pingPending c" "c_pingDeadline c' = c_pingDeadline c"
    "c_maxFrameSize c' = c_maxFrameSize c" "c_peerMaxStreams c' = c_peerMaxStreams c"
    "c_LastStreamID c' = c_LastStreamID c" "c_nextStreamID c' = c_nextStreamID c"
proof -
  note eq = assms [unfolded unowned_def]
  show "c_self c' = c_self c" using arg_cong [OF eq, of c_self] by simp
  show "c_streams c' = c_streams c" using arg_cong [OF eq, of c_streams] by simp
  show "c_canonNames c' = c_canonNames c" using arg_cong [OF eq, of c_canonNames] by simp
  show "c_dec c' = c_dec c" using arg_cong [OF eq, of c_dec] by simp
  show "c_contBlock c' = c_contBlock c" using arg_cong [OF eq, of c_contBlock] by simp
  show "c_contStreamID c' = c_contStreamID c" using arg_cong [OF eq, of c_contStreamID] by simp
  show "c_contStreamEnded c' = c_contStreamEnded c"
    using arg_cong [OF eq, of c_contStreamEnded] by simp
  show "c_Send c' = c_Send c" using arg_cong [OF eq, of c_Send] by simp
  show "c_drainStarted c' = c_drainStarted c" using arg_cong [OF eq, of c_drainStarted] by simp
  show "c_drainDone c' = c_drainDone c" using arg_cong [OF eq, of c_drainDone] by simp
  show "c_draining c' = c_draining c" using arg_cong [OF eq, of c_draining] by simp
  show "c_deadline c' = c_deadline c" using arg_cong [OF eq, of c_deadline] by simp
  show "c_closed c' = c_closed c" using arg_cong [OF eq, of c_closed] by simp
  show "c_pingCounter c' = c_pingCounter c" using arg_cong [OF eq, of c_pingCounter] by simp
  show "c_pingData c' = c_pingData c" using arg_cong [OF eq, of c_pingData] by simp
  show "c_pingPending c' = c_pingPending c" using arg_cong [OF eq, of c_pingPending] by simp
  show "c_pingDeadline c' = c_pingDeadline c" using arg_cong [OF eq, of c_pingDeadline] by simp
  show "c_maxFrameSize c' = c_maxFrameSize c" using arg_cong [OF eq, of c_maxFrameSize] by simp
  show "c_peerMaxStreams c' = c_peerMaxStreams c" using arg_cong [OF eq, of c_peerMaxStreams] by simp
  show "c_LastStreamID c' = c_LastStreamID c" using arg_cong [OF eq, of c_LastStreamID] by simp
  show "c_nextStreamID c' = c_nextStreamID c" using arg_cong [OF eq, of c_nextStreamID] by simp
qed

lemma frames_of_append:
  "frames_of L h (xs @ ys) = frames_of L h xs @ frames_of L (h @ concat (map intent_ops xs)) ys"
  by (induction xs arbitrary: h) simp_all

text \<open>In terms of the committed frames, synchronous and asynchronous submits are the same.\<close>

lemma submit_outgoing:
  assumes "cache_ok ToLower (c_lowerNames c)" "submit L i c = (None, c')"
  shows "outgoing L c' = outgoing L c @ intent_frames L (enc_after c) i"
    "enc_after c' = enc_after c @ intent_ops i" "cache_ok ToLower (c_lowerNames c')"
    "c_writeErr c' = None" "unowned c' = unowned c"
  using assms by (cases rule: submit_cases; simp add: outgoing_def enc_after_def frames_of_append)+

lemma submitAsync_outgoing:
  assumes "c_writeErr c = None"
  shows "outgoing L (submitAsync i c) = outgoing L c @ intent_frames L (enc_after c) i"
    "enc_after (submitAsync i c) = enc_after c @ intent_ops i"
  using assms by (simp_all add: submitAsync_def outgoing_def enc_after_def frames_of_append)

lemma submitAsync_frame [conn_frame]:
  "c_writeErr (submitAsync i c) = c_writeErr c" "c_lowerNames (submitAsync i c) = c_lowerNames c"
  "c_Send (submitAsync i c) = c_Send c" "c_streams (submitAsync i c) = c_streams c"
  "c_dec (submitAsync i c) = c_dec c" "c_canonNames (submitAsync i c) = c_canonNames c"
  "c_contBlock (submitAsync i c) = c_contBlock c" "c_maxFrameSize (submitAsync i c) = c_maxFrameSize c"
  "c_draining (submitAsync i c) = c_draining c" "c_drainDone (submitAsync i c) = c_drainDone c"
  "c_drainStarted (submitAsync i c) = c_drainStarted c" "c_contStreamID (submitAsync i c) = c_contStreamID c"
  "c_LastStreamID (submitAsync i c) = c_LastStreamID c" "c_nextStreamID (submitAsync i c) = c_nextStreamID c"
  "c_peerMaxStreams (submitAsync i c) = c_peerMaxStreams c" "c_closed (submitAsync i c) = c_closed c"
  "c_self (submitAsync i c) = c_self c" "c_wire (submitAsync i c) = c_wire c"
  by (simp_all add: submitAsync_def)

lemma regular_fields_clean:
  "(n, v) \<in> set (regular_fields h) \<Longrightarrow> n = ToLower n \<and> \<not> forbiddenForwardHeader n"
  by (induction h rule: regular_fields.induct) (auto simp: ToLower_map split: if_splits)

lemma regular_fields_complete:
  "(k, vv) \<in> set h \<Longrightarrow> v \<in> set vv \<Longrightarrow> \<not> forbiddenForwardHeader (ToLower k) \<Longrightarrow>
     (ToLower k, v) \<in> set (regular_fields h)"
  by (induction h rule: regular_fields.induct) auto

lemma cache_ok_init [simp]:
  "cache_ok ToLower (c_lowerNames (init_Conn p w))"
  "cache_ok CanonicalMIMEHeaderKey (c_canonNames (init_Conn p w))"
  by (simp_all add: init_Conn_def CommonNames_ok)

text \<open>A framer that never fails makes every submit succeed.\<close>

lemma processIntent_ok: "(\<And>w f. frWrite L w f = None) \<Longrightarrow> fst (processIntent L i c) = None"
  by (cases "wi_kind i")
    (simp_all add: processIntent_def framer_write_def encodeAndWriteResponseHeaders_def
      encodeAndWriteRequestHeaders_def Let_def)

lemma writer_loop_ok: "(\<And>w f. frWrite L w f = None) \<Longrightarrow> fst (writer_loop L is c) = None"
proof (induction "is" arbitrary: c)
  case (Cons i "is")
  then show ?case using processIntent_ok [of L i c] by (cases "processIntent L i c") simp
qed simp

lemma submit_ok:
  assumes "\<And>w f. frWrite L w f = None" "c_writeErr c = None"
    "cache_ok ToLower (c_lowerNames c)"
  shows "submit L i c = (None, snd (submit L i c))"
proof -
  let ?c = "c\<lparr>c_writeQ := c_writeQ c @ [i]\<rparr>"
  obtain c1 where w: "writer_loop L (c_writeQ ?c) ?c = (None, c1)"
    using writer_loop_ok [OF assms(1), of "c_writeQ ?c" ?c] by (metis prod.collapse)
  moreover have "c_writeErr c1 = None"
    using writer_loop_spec [OF _ w] assms(2,3) by simp
  ultimately show ?thesis using assms(2) by (simp add: submit_def runWriter_def)
qed

lemma frWrite_literal [simp]: "frWrite literal_lib w f = None"
  by (simp add: literal_lib_def)

section \<open>Properties\<close>

text \<open>
  C11. The writer is a FIFO: when a synchronous submit succeeds, the wire has received exactly the
  frames of everything queued before it, in queue order, followed by its own frame; every HEADERS
  block is encoded in the encoder state the earlier ones left; and nothing is left in the queue.
\<close>

theorem submit_writes_in_order:
  assumes "cache_ok ToLower (c_lowerNames c)" "submit L i c = (None, c')"
  shows "c_wire c' = c_wire c @ frames_of L (c_enc c) (c_writeQ c @ [i]) \<and> c_writeQ c' = []
       \<and> c_enc c' = c_enc c @ concat (map intent_ops (c_writeQ c @ [i]))"
  using assms by (cases rule: submit_cases) auto

theorem submit_writes_in_order_witness:
  "c_wire (snd (SendData literal_lib 5 [7] True (SendRSTStream 3 ErrCodeCancel (init_Conn 0 []))))
     = [ORSTStream 3 ErrCodeCancel, OData 5 True [7]]"
proof -
  let ?c = "SendRSTStream 3 ErrCodeCancel (init_Conn 0 [])"
  let ?i = "zeroIntent\<lparr>wi_kind := wkData, wi_streamID := 5, wi_data := [7], wi_endStream := True\<rparr>"
  have c: "cache_ok ToLower (c_lowerNames ?c)"
    by (simp add: SendRSTStream_def submitAsync_def)
  have "submit literal_lib ?i ?c = (None, snd (submit literal_lib ?i ?c))"
    by (simp add: submit_def runWriter_def processIntent_def framer_write_def literal_lib_def
        SendRSTStream_def submitAsync_def init_Conn_def Let_def)
  from submit_writes_in_order [OF c this] show ?thesis
    by (simp add: SendData_def SendRSTStream_def submitAsync_def init_Conn_def intent_frames_def
        zeroIntent_def)
qed

text \<open>
  Header encoding with the per-connection name cache equals encoding without it, and keeps the
  cache right: the encoder is given, in order, every value of every header that HTTP/2 allows, under
  its lower-case name, and no connection-specific header ever reaches the wire.
\<close>

lemma encodeRegularHeaders_filters:
  assumes "cache_ok ToLower (c_lowerNames c)"
  shows "let c' = encodeRegularHeaders L h c in
           c_enc c' = c_enc c @ map EncField (regular_fields h)
         \<and> c_encBuf c' = c_encBuf c @ enc_fields L (c_enc c) (regular_fields h)
         \<and> cache_ok ToLower (c_lowerNames c')
         \<and> (\<forall>n v. (n, v) \<in> set (regular_fields h) \<longrightarrow> n = ToLower n \<and> \<not> forbiddenForwardHeader n)
         \<and> (\<forall>k vv v. (k, vv) \<in> set h \<longrightarrow> v \<in> set vv \<longrightarrow> \<not> forbiddenForwardHeader (ToLower k) \<longrightarrow>
              (ToLower k, v) \<in> set (regular_fields h))"
proof -
  obtain names where "cache_ok ToLower names"
    "encodeRegularHeaders L h c = (fold (WriteField L) (regular_fields h) c)\<lparr>c_lowerNames := names\<rparr>"
    using encodeRegularHeaders_spec [OF assms] by blast
  moreover have "\<forall>n v. (n, v) \<in> set (regular_fields h) \<longrightarrow> n = ToLower n \<and> \<not> forbiddenForwardHeader n"
    using regular_fields_clean by blast
  moreover have "\<forall>k vv v. (k, vv) \<in> set h \<longrightarrow> v \<in> set vv \<longrightarrow> \<not> forbiddenForwardHeader (ToLower k) \<longrightarrow>
      (ToLower k, v) \<in> set (regular_fields h)"
    using regular_fields_complete by blast
  ultimately show ?thesis by (simp add: fold_WriteField)
qed

text \<open>
  A failed write ends the connection's output for good: when a submit fails, the wire holds the
  frames of a proper prefix of the queue, and every later submit, synchronous or not, leaves the wire
  unchanged and (when synchronous) reports that same error.
\<close>

lemma write_error_is_final:
  assumes "cache_ok ToLower (c_lowerNames c)" "submit L i c = (Some e, c')"
  shows "(\<exists>k \<le> length (c_writeQ c). c_wire c' = c_wire c @ frames_of L (c_enc c) (take k (c_writeQ c)))
       \<and> WriteErr c' = Some e \<and> submit L j c' = (Some e, c') \<and> submitAsync j c' = c'"
  using assms
proof (cases rule: submit_cases)
  case (dead e')
  then show ?thesis by (auto simp: submit_def submitAsync_def WriteErr_def intro!: exI [of _ 0])
next
  case (run k)
  then have "k \<le> length (c_writeQ c)" by auto
  then show ?thesis using run by (auto simp: submit_def submitAsync_def WriteErr_def)
qed

end
