(* ===== verification/H2_Writer_Steps.thy ===== *)
theory H2_Writer_Steps
  imports H2_Writer Rhttp_Steps "HOL-Library.Sublist"
begin

text \<open>
  The goroutines around the write queue (\<open>internal/h2/writer.go\<close>: \<open>submit\<close>, \<open>submitAsync\<close>, \<open>runWriter\<close>, \<open>ShutdownWriter\<close>), one action at a
  time: the buffered channel \<open>writeQ\<close>, the closed channels \<open>writeShutdown\<close> and \<open>writeDeadCh\<close>, and the result channels \<open>done\<close>, of capacity
  one, which every submit takes from the pool that all connections of the process share and gives back when it returns. In
  \<open>H2_Writer\<close> a submit is one step; here is why that is justified, and where it is not.

  A call of \<open>submit\<close> or \<open>submitAsync\<close> is a number, and so is a connection. A step is given by an event, which says who acts and which
  ready case of a \<open>select\<close> is taken; a step that would block is \<open>None\<close>. What \<open>processIntent\<close> returns is part of the event. \<open>wc_written\<close> records
  the intents that were written without an error, \<open>wc_accepted\<close> the intents that entered the queue, in order.
\<close>

section \<open>Definitions\<close>

text \<open>Where a call is: not begun, at the first \<open>select\<close> of \<open>submit\<close>, at the second, in the deferred function before its \<open>select\<close> and
  before \<open>Put\<close>, returned; at the \<open>select\<close> of \<open>submitAsync\<close>, returned from it.\<close>

datatype qphase =
    QNew
  | QSend ptr
  | QWait ptr
  | QLeave ptr "gerr option"
  | QPut ptr "gerr option"
  | QReturned "gerr option"
  | QAsync
  | QAsyncDone

text \<open>Where the writer is: at the \<open>select\<close> of its loop, about to report the result of an intent, in the deferred function before
  \<open>writeDeadCh\<close> is closed, at the \<open>select\<close> of the draining loop, about to report in that loop, returned.\<close>

datatype wphase =
    WSelect
  | WReply nat "ptr option" "gerr option"
  | WExit gerr
  | WDrain gerr
  | WDrainReply gerr nat "ptr option"
  | WStopped

record wconn =
  wc_Q :: "(nat \<times> ptr option) list"
  wc_writer :: wphase
  wc_err :: "gerr option"
  wc_dead :: bool
  wc_shut :: bool
  wc_written :: "nat list"
  wc_accepted :: "nat list"

record wsys =
  ws_conn :: "nat \<Rightarrow> wconn"
  ws_call :: "nat \<Rightarrow> nat \<times> qphase"
  ws_ch :: "ptr \<Rightarrow> gerr option list"
  ws_pool :: spool

definition startWriter :: wconn where
  "startWriter = \<lparr>wc_Q = [], wc_writer = WSelect, wc_err = None, wc_dead = False, wc_shut = False, wc_written = [], wc_accepted = []\<rparr>"

definition init_wsys :: wsys where
  "init_wsys = \<lparr>ws_conn = (\<lambda>_. startWriter), ws_call = (\<lambda>_. (0, QNew)), ws_ch = (\<lambda>_. []), ws_pool = \<lparr>pfree = [], pfresh = 0\<rparr>\<rparr>"

definition set_call :: "nat \<Rightarrow> qphase \<Rightarrow> wsys \<Rightarrow> wsys" where
  "set_call t ph s = s\<lparr>ws_call := (ws_call s)(t := (fst (ws_call s t), ph))\<rparr>"

definition upd_wconn :: "nat \<Rightarrow> (wconn \<Rightarrow> wconn) \<Rightarrow> wsys \<Rightarrow> wsys" where
  "upd_wconn c f s = s\<lparr>ws_conn := (ws_conn s)(c := f (ws_conn s c))\<rparr>"

definition set_ch :: "ptr \<Rightarrow> gerr option list \<Rightarrow> wsys \<Rightarrow> wsys" where
  "set_ch d rs s = s\<lparr>ws_ch := (ws_ch s)(d := rs)\<rparr>"

definition enqueue :: "nat \<Rightarrow> ptr option \<Rightarrow> wconn \<Rightarrow> wconn" where
  "enqueue t d w = w\<lparr>wc_Q := wc_Q w @ [(t, d)], wc_accepted := wc_accepted w @ [t]\<rparr>"

text \<open>The steps of a call.\<close>

datatype call_event = CSubmit nat nat | CAsync nat | CSend | CDead | CRecv | CDrain | CPut

fun call_step :: "nat \<Rightarrow> call_event \<Rightarrow> wsys \<Rightarrow> wsys option" where
  "call_step t ev s =
     (let c = fst (ws_call s t); w = ws_conn s c in
      case (snd (ws_call s t), ev) of
        (QNew, CSubmit c' k) \<Rightarrow>
          let (d, sp) = pool_get k (ws_pool s)
          in Some (s\<lparr>ws_pool := sp, ws_call := (ws_call s)(t := (c', QSend d))\<rparr>)
      | (QNew, CAsync c') \<Rightarrow> Some (s\<lparr>ws_call := (ws_call s)(t := (c', QAsync))\<rparr>)
      | (QSend d, CSend) \<Rightarrow>
          if length (wc_Q w) < writeQSize then Some (set_call t (QWait d) (upd_wconn c (enqueue t (Some d)) s)) else None
      | (QSend d, CDead) \<Rightarrow> if wc_dead w then Some (set_call t (QLeave d (wc_err w)) s) else None
      | (QWait d, CRecv) \<Rightarrow>
          (case ws_ch s d of
             [] \<Rightarrow> None
           | r # rs \<Rightarrow> Some (set_call t (QLeave d r) (set_ch d rs s)))
      | (QWait d, CDead) \<Rightarrow>
          if wc_dead w then
            (case ws_ch s d of
               [] \<Rightarrow> Some (set_call t (QLeave d (wc_err w)) s)
             | r # rs \<Rightarrow> Some (set_call t (QLeave d r) (set_ch d rs s)))
          else None
      | (QLeave d r, CDrain) \<Rightarrow> Some (set_call t (QPut d r) (set_ch d (drop 1 (ws_ch s d)) s))
      | (QPut d r, CPut) \<Rightarrow> Some (set_call t (QReturned r) (s\<lparr>ws_pool := pool_put d (ws_pool s)\<rparr>))
      | (QAsync, CSend) \<Rightarrow>
          if length (wc_Q w) < writeQSize then Some (set_call t QAsyncDone (upd_wconn c (enqueue t None) s)) else None
      | (QAsync, CDead) \<Rightarrow> if wc_dead w then Some (set_call t QAsyncDone s) else None
      | _ \<Rightarrow> None)"

text \<open>A send on a result channel, which has room for one result; \<open>None\<close> if it has to wait. An intent may have no channel.\<close>

fun send_done :: "ptr option \<Rightarrow> gerr option \<Rightarrow> wsys \<Rightarrow> wsys option" where
  "send_done None r s = Some s"
| "send_done (Some d) r s = (if ws_ch s d = [] then Some (set_ch d [r] s) else None)"

text \<open>The steps of the writer of a connection, and the closing of \<open>writeShutdown\<close> by \<open>ShutdownWriter\<close>.\<close>

datatype writer_event = VTake "gerr option" | VShut | VStep | VClose

definition set_writer :: "nat \<Rightarrow> wphase \<Rightarrow> wsys \<Rightarrow> wsys" where
  "set_writer c ph = upd_wconn c (\<lambda>w. w\<lparr>wc_writer := ph\<rparr>)"

fun writer_step :: "nat \<Rightarrow> writer_event \<Rightarrow> wsys \<Rightarrow> wsys option" where
  "writer_step c VClose s =
     (if wc_shut (ws_conn s c) then None else Some (upd_wconn c (\<lambda>w. w\<lparr>wc_shut := True\<rparr>) s))"
| "writer_step c ev s =
     (case (wc_writer (ws_conn s c), ev, wc_Q (ws_conn s c)) of
        (WSelect, VTake r, (t, d) # q) \<Rightarrow>
          Some (upd_wconn c (\<lambda>w. w\<lparr>wc_Q := q, wc_writer := WReply t d r,
            wc_written := (if r = None then wc_written w @ [t] else wc_written w)\<rparr>) s)
      | (WSelect, VShut, _) \<Rightarrow> if wc_shut (ws_conn s c) then Some (set_writer c (WExit ErrConnClosed) s) else None
      | (WReply t d r, VStep, _) \<Rightarrow>
          map_option (set_writer c (case r of None \<Rightarrow> WSelect | Some e \<Rightarrow> WExit e)) (send_done d r s)
      | (WExit e, VStep, _) \<Rightarrow>
          Some (upd_wconn c (\<lambda>w. w\<lparr>wc_err := Some e, wc_dead := True, wc_writer := WDrain e\<rparr>) s)
      | (WDrain e, VStep, (t, d) # q) \<Rightarrow> Some (upd_wconn c (\<lambda>w. w\<lparr>wc_Q := q, wc_writer := WDrainReply e t d\<rparr>) s)
      | (WDrain e, VStep, []) \<Rightarrow> Some (set_writer c WStopped s)
      | (WDrainReply e t d, VStep, _) \<Rightarrow> map_option (set_writer c (WDrain e)) (send_done d (Some e) s)
      | _ \<Rightarrow> None)"

text \<open>One step of a process whose calls are on the connections \<open>C\<close>.\<close>

inductive queue_trans :: "nat set \<Rightarrow> wsys \<Rightarrow> wsys \<Rightarrow> bool" for C where
  begin_sync: "c \<in> C \<Longrightarrow> call_step t (CSubmit c k) s = Some s' \<Longrightarrow> queue_trans C s s'"
| begin_async: "c \<in> C \<Longrightarrow> call_step t (CAsync c) s = Some s' \<Longrightarrow> queue_trans C s s'"
| call: "ev \<in> {CSend, CDead, CRecv, CDrain, CPut} \<Longrightarrow> call_step t ev s = Some s' \<Longrightarrow> queue_trans C s s'"
| writer: "c \<in> C \<Longrightarrow> writer_step c ev s = Some s' \<Longrightarrow> queue_trans C s s'"

text \<open>The steps that need no new call and no shutdown: the calls under way and the writer go on.\<close>

inductive queue_work :: "nat \<Rightarrow> wsys \<Rightarrow> wsys \<Rightarrow> bool" for c where
  call_work: "ev \<in> {CSend, CDead, CRecv, CDrain, CPut} \<Longrightarrow> call_step t ev s = Some s' \<Longrightarrow> queue_work c s s'"
| writer_work: "ev \<noteq> VClose \<Longrightarrow> writer_step c ev s = Some s' \<Longrightarrow> queue_work c s s'"

text \<open>A run from a schedule.\<close>

datatype sched = Call nat call_event | Writer nat writer_event

fun run_sched :: "sched list \<Rightarrow> wsys \<Rightarrow> wsys option" where
  "run_sched [] s = Some s"
| "run_sched (Call t ev # es) s = (case call_step t ev s of None \<Rightarrow> None | Some s' \<Rightarrow> run_sched es s')"
| "run_sched (Writer c ev # es) s = (case writer_step c ev s of None \<Rightarrow> None | Some s' \<Rightarrow> run_sched es s')"

fun sched_on :: "nat set \<Rightarrow> sched \<Rightarrow> bool" where
  "sched_on C (Call t (CSubmit c k)) \<longleftrightarrow> c \<in> C"
| "sched_on C (Call t (CAsync c)) \<longleftrightarrow> c \<in> C"
| "sched_on C (Call t ev) \<longleftrightarrow> True"
| "sched_on C (Writer c ev) \<longleftrightarrow> c \<in> C"

text \<open>A call that is not under way; a call whose intent went into the queue, if it has one.\<close>

fun finished :: "qphase \<Rightarrow> bool" where
  "finished QNew \<longleftrightarrow> True"
| "finished (QReturned r) \<longleftrightarrow> True"
| "finished QAsyncDone \<longleftrightarrow> True"
| "finished ph \<longleftrightarrow> False"

fun before_queue :: "qphase \<Rightarrow> bool" where
  "before_queue QNew \<longleftrightarrow> True"
| "before_queue (QSend d) \<longleftrightarrow> True"
| "before_queue QAsync \<longleftrightarrow> True"
| "before_queue ph \<longleftrightarrow> False"

section \<open>The invariant of one connection\<close>

text \<open>The channel a call has, the result it has been given, the intents the writer still has to answer, and whether it is on its way
  out.\<close>

fun holds :: "qphase \<Rightarrow> ptr \<Rightarrow> bool" where
  "holds (QSend d) e \<longleftrightarrow> d = e"
| "holds (QWait d) e \<longleftrightarrow> d = e"
| "holds (QLeave d r) e \<longleftrightarrow> d = e"
| "holds (QPut d r) e \<longleftrightarrow> d = e"
| "holds ph e \<longleftrightarrow> False"

fun verdict :: "qphase \<Rightarrow> gerr option option" where
  "verdict (QLeave d r) = Some r"
| "verdict (QPut d r) = Some r"
| "verdict (QReturned r) = Some r"
| "verdict ph = None"

fun inflight :: "wphase \<Rightarrow> (nat \<times> ptr option) list" where
  "inflight (WReply t d r) = [(t, d)]"
| "inflight (WDrainReply e t d) = [(t, d)]"
| "inflight ph = []"

definition unanswered :: "wconn \<Rightarrow> (nat \<times> ptr option) list" where
  "unanswered w = inflight (wc_writer w) @ wc_Q w"

fun failing :: "wphase \<Rightarrow> bool" where
  "failing WSelect \<longleftrightarrow> False"
| "failing (WReply t d r) \<longleftrightarrow> r \<noteq> None"
| "failing ph \<longleftrightarrow> True"

fun dying :: "wphase \<Rightarrow> bool" where
  "dying (WDrain e) \<longleftrightarrow> True"
| "dying (WDrainReply e t d) \<longleftrightarrow> True"
| "dying WStopped \<longleftrightarrow> True"
| "dying ph \<longleftrightarrow> False"

text \<open>Result channels have one holder at a time.\<close>

definition channels_ok :: "(nat \<Rightarrow> qphase) \<Rightarrow> spool \<Rightarrow> bool" where
  "channels_ok ph sp \<longleftrightarrow>
     pool_ok {d. \<exists>t. holds (ph t) d} sp \<and> (\<forall>t u d. holds (ph t) d \<longrightarrow> holds (ph u) d \<longrightarrow> t = u)"

text \<open>The writer writes what was accepted, in order, and is dead when it says so.\<close>

definition fifo_ok :: "wconn \<Rightarrow> bool" where
  "fifo_ok w \<longleftrightarrow>
     prefix (wc_written w) (wc_accepted w) \<and>
     (\<not> failing (wc_writer w) \<longrightarrow> wc_accepted w = wc_written w @ map fst (wc_Q w)) \<and>
     (wc_dead w \<longleftrightarrow> dying (wc_writer w)) \<and> (wc_dead w \<longrightarrow> wc_err w \<noteq> None) \<and>
     (\<forall>t d. wc_writer w = WReply t d None \<longrightarrow> t \<in> set (wc_written w)) \<and> length (wc_Q w) \<le> writeQSize"

text \<open>As long as the writer lives, a call waits exactly while its intent is unanswered or its answer is in its channel.\<close>

definition waiting_ok :: "(nat \<Rightarrow> qphase) \<Rightarrow> wconn \<Rightarrow> (ptr \<Rightarrow> gerr option list) \<Rightarrow> bool" where
  "waiting_ok ph w ch \<longleftrightarrow>
     distinct (map fst (unanswered w)) \<and>
     (\<forall>t x. (t, x) \<in> set (unanswered w) \<longrightarrow> ph t = (case x of Some d \<Rightarrow> QWait d | None \<Rightarrow> QAsyncDone)) \<and>
     (\<forall>t d. ph t = QWait d \<longrightarrow> (ch d = [] \<longleftrightarrow> t \<in> fst ` set (unanswered w))) \<and>
     (\<forall>d. ch d \<noteq> [] \<longrightarrow> (\<exists>t. ph t = QWait d))"

text \<open>Results are true.\<close>

definition results_ok :: "(nat \<Rightarrow> qphase) \<Rightarrow> wconn \<Rightarrow> (ptr \<Rightarrow> gerr option list) \<Rightarrow> bool" where
  "results_ok ph w ch \<longleftrightarrow>
     (\<forall>d. length (ch d) \<le> 1) \<and>
     (\<forall>d. ch d = [None] \<longrightarrow> (\<exists>t. ph t = QWait d \<and> t \<in> set (wc_written w)) \<and> Some d \<notin> snd ` set (unanswered w)) \<and>
     (\<forall>d e. ch d = [Some e] \<longrightarrow> failing (wc_writer w)) \<and>
     (\<forall>t. verdict (ph t) = Some None \<longrightarrow> t \<in> set (wc_written w)) \<and>
     (\<forall>t e. verdict (ph t) = Some (Some e) \<longrightarrow> failing (wc_writer w))"

definition queue_inv :: "(nat \<Rightarrow> qphase) \<Rightarrow> wconn \<Rightarrow> (ptr \<Rightarrow> gerr option list) \<Rightarrow> spool \<Rightarrow> bool" where
  "queue_inv ph w ch sp \<longleftrightarrow>
     channels_ok ph sp \<and> fifo_ok w \<and> (\<not> wc_dead w \<longrightarrow> waiting_ok ph w ch) \<and> results_ok ph w ch \<and> finite {t. ph t \<noteq> QNew}"

abbreviation phase_of :: "wsys \<Rightarrow> nat \<Rightarrow> qphase" where
  "phase_of s t \<equiv> snd (ws_call s t)"

definition one_writer :: "nat \<Rightarrow> wsys \<Rightarrow> bool" where
  "one_writer c s \<longleftrightarrow>
     queue_inv (phase_of s) (ws_conn s c) (ws_ch s) (ws_pool s) \<and> (\<forall>t. phase_of s t \<noteq> QNew \<longrightarrow> fst (ws_call s t) = c)"

text \<open>Every intent is accepted once.\<close>

definition accepted_once :: "nat \<Rightarrow> wsys \<Rightarrow> bool" where
  "accepted_once c s \<longleftrightarrow> distinct (wc_accepted (ws_conn s c)) \<and> (\<forall>t \<in> set (wc_accepted (ws_conn s c)). \<not> before_queue (phase_of s t))"

text \<open>What is left to do: a cost of each call under way, of each intent in the queue and of the writer, which each of their steps lowers.\<close>

fun call_cost :: "qphase \<Rightarrow> nat" where
  "call_cost (QSend d) = 10"
| "call_cost (QWait d) = 4"
| "call_cost (QLeave d r) = 3"
| "call_cost (QPut d r) = 2"
| "call_cost QAsync = 5"
| "call_cost ph = 0"

fun writer_cost :: "wphase \<Rightarrow> nat" where
  "writer_cost WSelect = 3"
| "writer_cost (WReply t d r) = 5"
| "writer_cost (WExit e) = 2"
| "writer_cost (WDrain e) = 1"
| "writer_cost (WDrainReply e t d) = 3"
| "writer_cost WStopped = 0"

definition begun :: "wsys \<Rightarrow> nat set" where
  "begun s = {t. phase_of s t \<noteq> QNew}"

definition conn_cost :: "wconn \<Rightarrow> nat" where
  "conn_cost w = 3 * length (wc_Q w) + writer_cost (wc_writer w)"

definition queue_left :: "nat \<Rightarrow> wsys \<Rightarrow> nat" where
  "queue_left c s = (\<Sum>t \<in> begun s. call_cost (phase_of s t)) + conn_cost (ws_conn s c)"

fun work_on :: "nat \<Rightarrow> sched \<Rightarrow> bool" where
  "work_on c (Call t ev) \<longleftrightarrow> ev \<in> {CSend, CDead, CRecv, CDrain, CPut}"
| "work_on c (Writer d ev) \<longleftrightarrow> d = c \<and> ev \<noteq> VClose"

lemma one_writer_init: "one_writer c init_wsys"
  by (auto simp: one_writer_def queue_inv_def channels_ok_def fifo_ok_def waiting_ok_def results_ok_def init_wsys_def startWriter_def
      unanswered_def pool_ok_def)

section \<open>Every step keeps it\<close>

subsection \<open>Channels\<close>

lemma channels_same:
  assumes "channels_ok ph sp" "holds x = holds (ph t)"
  shows "channels_ok (ph(t := x)) sp"
proof -
  have "holds ((ph(t := x)) u) = holds (ph u)" for u using assms(2) by simp
  then show ?thesis using assms(1) by (simp add: channels_ok_def)
qed

lemma channels_get:
  assumes "channels_ok ph sp" "pool_get k sp = (d, sp')" "ph t = QNew"
  shows "channels_ok (ph(t := QSend d)) sp'"
proof -
  have p: "d \<notin> {d. \<exists>t. holds (ph t) d}" "pool_ok (insert d {d. \<exists>t. holds (ph t) d}) sp'"
    using pool_get_fresh [OF _ assms(2)] assms(1) by (auto simp: channels_ok_def)
  moreover have "{e. \<exists>u. holds ((ph(t := QSend d)) u) e} = insert d {d. \<exists>t. holds (ph t) d}"
    using assms(3) by (auto split: if_splits) (metis holds.simps(5))
  ultimately show ?thesis using assms(1) by (auto simp: channels_ok_def)
qed

lemma channels_put:
  assumes "channels_ok ph sp" "ph t = QPut d r"
  shows "channels_ok (ph(t := QReturned r)) (pool_put d sp)"
proof -
  have u: "holds (ph u) d \<longleftrightarrow> u = t" for u using assms by (auto simp: channels_ok_def)
  then have "{e. \<exists>u. holds ((ph(t := QReturned r)) u) e} = {d. \<exists>t. holds (ph t) d} - {d}"
    using assms(2) by (auto split: if_splits) (metis holds.simps(4))+
  moreover have "d \<in> {d. \<exists>t. holds (ph t) d}" using u by auto
  ultimately show ?thesis using pool_put_ok [of _ sp d] assms(1) by (auto simp: channels_ok_def)
qed

lemma holder_unique: "channels_ok ph sp \<Longrightarrow> holds (ph t) d \<Longrightarrow> holds (ph u) d \<Longrightarrow> u = t"
  by (auto simp: channels_ok_def)

text \<open>A channel whose holder does not wait for it is empty while the writer lives, and never has a success in it.\<close>

lemma idle_channel:
  assumes "channels_ok ph sp" "holds (ph t) d" "\<And>e. ph t \<noteq> QWait e"
  shows "waiting_ok ph w ch \<Longrightarrow> ch d = []" "results_ok ph w ch \<Longrightarrow> ch d \<noteq> [None]" "ph u \<noteq> QWait d"
proof -
  show u: "ph u \<noteq> QWait d" for u using holder_unique [OF assms(1,2), of u] assms(3) by auto
  show "waiting_ok ph w ch \<Longrightarrow> ch d = []" using u by (auto simp: waiting_ok_def)
  show "results_ok ph w ch \<Longrightarrow> ch d \<noteq> [None]" using u by (auto simp: results_ok_def)
qed

subsection \<open>Calls\<close>

lemma waitingD:
  assumes "waiting_ok ph w ch"
  shows "distinct (map fst (unanswered w))" "(t, Some d) \<in> set (unanswered w) \<Longrightarrow> ph t = QWait d"
    "(t, None) \<in> set (unanswered w) \<Longrightarrow> ph t = QAsyncDone" "ph t = QWait d \<Longrightarrow> ch d = [] \<longleftrightarrow> t \<in> fst ` set (unanswered w)"
    "ch d \<noteq> [] \<Longrightarrow> \<exists>t. ph t = QWait d"
    "(t, x) \<in> set (unanswered w) \<Longrightarrow> ph t = (case x of Some d \<Rightarrow> QWait d | None \<Rightarrow> QAsyncDone)"
  using assms by (force simp: waiting_ok_def)+

lemma waitingI:
  assumes "distinct (map fst (unanswered w))"
    "\<And>t x. (t, x) \<in> set (unanswered w) \<Longrightarrow> ph t = (case x of Some d \<Rightarrow> QWait d | None \<Rightarrow> QAsyncDone)"
    "\<And>t d. ph t = QWait d \<Longrightarrow> ch d = [] \<longleftrightarrow> t \<in> fst ` set (unanswered w)" "\<And>d. ch d \<noteq> [] \<Longrightarrow> \<exists>t. ph t = QWait d"
  shows "waiting_ok ph w ch"
  using assms unfolding waiting_ok_def by blast

lemma resultsD:
  assumes "results_ok ph w ch"
  shows "length (ch d) \<le> 1" "ch d = [None] \<Longrightarrow> \<exists>t. ph t = QWait d \<and> t \<in> set (wc_written w)"
    "ch d = [None] \<Longrightarrow> Some d \<notin> snd ` set (unanswered w)" "ch d = [Some e] \<Longrightarrow> failing (wc_writer w)"
    "verdict (ph t) = Some None \<Longrightarrow> t \<in> set (wc_written w)" "verdict (ph t) = Some (Some e) \<Longrightarrow> failing (wc_writer w)"
  using assms unfolding results_ok_def by blast+

lemma resultsI:
  assumes "\<And>d. length (ch d) \<le> 1" "\<And>d. ch d = [None] \<Longrightarrow> \<exists>t. ph t = QWait d \<and> t \<in> set (wc_written w)"
    "\<And>d. ch d = [None] \<Longrightarrow> Some d \<notin> snd ` set (unanswered w)" "\<And>d e. ch d = [Some e] \<Longrightarrow> failing (wc_writer w)"
    "\<And>t. verdict (ph t) = Some None \<Longrightarrow> t \<in> set (wc_written w)" "\<And>t e. verdict (ph t) = Some (Some e) \<Longrightarrow> failing (wc_writer w)"
  shows "results_ok ph w ch"
  using assms unfolding results_ok_def by blast

lemma waiting_other:
  assumes "waiting_ok ph w ch" "\<And>d. ph t \<noteq> QWait d" "ph t \<noteq> QAsyncDone"
  shows "t \<notin> fst ` set (unanswered w)"
proof
  assume "t \<in> fst ` set (unanswered w)"
  then obtain x where "(t, x) \<in> set (unanswered w)" by auto
  then show False using waitingD(2,3) [OF assms(1)] assms(2,3) by (cases x) auto
qed

text \<open>A call that neither waits before nor after its step, and whose result is right.\<close>

lemma step_elsewhere:
  assumes "queue_inv ph w ch sp" "channels_ok (ph(t := x)) sp'" "\<And>d. ph t \<noteq> QWait d" "\<And>d. x \<noteq> QWait d"
    "ph t \<noteq> QAsyncDone" "verdict x = verdict (ph t) \<or> verdict x = None \<or> wc_dead w \<and> (\<exists>e. verdict x = Some (Some e))"
  shows "queue_inv (ph(t := x)) w ch sp'"
proof -
  have i: "fifo_ok w" "\<not> wc_dead w \<Longrightarrow> waiting_ok ph w ch" "results_ok ph w ch" "finite {t. ph t \<noteq> QNew}"
    using assms(1) by (simp_all add: queue_inv_def)
  have "finite {u. (ph(t := x)) u \<noteq> QNew}" by (rule finite_subset [of _ "insert t {t. ph t \<noteq> QNew}"]) (use i(4) in auto)
  moreover have "\<not> wc_dead w \<Longrightarrow> waiting_ok (ph(t := x)) w ch"
  proof -
    assume "\<not> wc_dead w"
    then have w: "waiting_ok ph w ch" by (rule i(2))
    have n: "t \<notin> fst ` set (unanswered w)" by (rule waiting_other [OF w assms(3,5)])
    then have o: "(u, y) \<in> set (unanswered w) \<Longrightarrow> u \<noteq> t" for u y by force
    have "\<exists>u. (ph(t := x)) u = QWait d" if c: "ch d \<noteq> []" for d
    proof -
      obtain u where "ph u = QWait d" using waitingD(5) [OF w c] by blast
      then show ?thesis using assms(3) by (intro exI [of _ u]) auto
    qed
    then show "waiting_ok (ph(t := x)) w ch" using w o assms(4) unfolding waiting_ok_def by simp
  qed
  moreover have f: "wc_dead w \<Longrightarrow> failing (wc_writer w)" using i(1) by (cases "wc_writer w") (auto simp: fifo_ok_def)
  have "results_ok (ph(t := x)) w ch"
  proof (rule resultsI)
    fix d assume "ch d = [None]"
    then obtain u where "ph u = QWait d" "u \<in> set (wc_written w)" using resultsD(2) [OF i(3)] by blast
    then show "\<exists>u. (ph(t := x)) u = QWait d \<and> u \<in> set (wc_written w)" using assms(3) by (intro exI [of _ u]) auto
  next
    fix u assume "verdict ((ph(t := x)) u) = Some None"
    then have "verdict (ph u) = Some None" using assms(6) by (auto split: if_splits)
    then show "u \<in> set (wc_written w)" by (rule resultsD(5) [OF i(3)])
  next
    fix u e assume "verdict ((ph(t := x)) u) = Some (Some e)"
    then have "verdict (ph u) = Some (Some e) \<or> wc_dead w" using assms(6) by (auto split: if_splits)
    then show "failing (wc_writer w)" using resultsD(6) [OF i(3)] f by blast
  qed (use resultsD(1,3,4) [OF i(3)] in auto)
  ultimately show ?thesis using i(1) assms(2) by (simp add: queue_inv_def)
qed

text \<open>The holder of a channel that does not wait may empty it.\<close>

lemma clear_channel:
  assumes "queue_inv ph w ch sp" "holds (ph t) d" "\<And>e. ph t \<noteq> QWait e"
  shows "queue_inv ph w (ch(d := [])) sp"
proof -
  have i: "channels_ok ph sp" "\<not> wc_dead w \<Longrightarrow> waiting_ok ph w ch" "results_ok ph w ch"
    using assms(1) by (simp_all add: queue_inv_def)
  have "results_ok ph w (ch(d := []))" using i(3) unfolding results_ok_def by auto
  moreover have "\<not> wc_dead w \<Longrightarrow> ch(d := []) = ch" using idle_channel(1) [OF i(1) assms(2,3)] i(2) by (metis fun_upd_triv)
  ultimately show ?thesis using assms(1) by (auto simp: queue_inv_def)
qed

text \<open>A call that waits takes a result, or finds the writer dead and none.\<close>

lemma step_leave:
  assumes "queue_inv ph w ch sp" "ph t = QWait d" "ch d = [] \<Longrightarrow> wc_dead w" "r = None \<Longrightarrow> t \<in> set (wc_written w)"
    "r \<noteq> None \<Longrightarrow> failing (wc_writer w)"
  shows "queue_inv (ph(t := QLeave d r)) w (ch(d := [])) sp"
proof -
  have i: "channels_ok ph sp" "fifo_ok w" "\<not> wc_dead w \<Longrightarrow> waiting_ok ph w ch" "results_ok ph w ch" "finite {t. ph t \<noteq> QNew}"
    using assms(1) by (simp_all add: queue_inv_def)
  have h: "ph u = QWait d \<Longrightarrow> u = t" for u using holder_unique [OF i(1), of t d u] assms(2) by simp
  have fin: "finite {u. (ph(t := QLeave d r)) u \<noteq> QNew}" by (rule finite_subset [of _ "{t. ph t \<noteq> QNew}"]) (use i(5) assms(2) in auto)
  have "waiting_ok (ph(t := QLeave d r)) w (ch(d := []))" if "\<not> wc_dead w"
  proof -
    have w: "waiting_ok ph w ch" by (rule i(3) [OF that])
    have n: "t \<notin> fst ` set (unanswered w)" using waitingD(4) [OF w assms(2)] assms(3) that by blast
    then have o: "(u, y) \<in> set (unanswered w) \<Longrightarrow> u \<noteq> t" for u y by force
    have ex: "\<exists>u. (ph(t := QLeave d r)) u = QWait e" if c: "(ch(d := [])) e \<noteq> []" for e
    proof -
      have e: "e \<noteq> d" using c by auto
      then obtain u where "ph u = QWait e" using waitingD(5) [OF w, of e] c by auto
      then show ?thesis using e assms(2) by (intro exI [of _ u]) auto
    qed
    have k: "(ph(t := QLeave d r)) u = QWait e \<Longrightarrow> ph u = QWait e \<and> e \<noteq> d" for u e using h by (auto split: if_splits)
    show ?thesis
    proof (rule waitingI)
      fix u e assume "(ph(t := QLeave d r)) u = QWait e"
      from k [OF this] show "(ch(d := [])) e = [] \<longleftrightarrow> u \<in> fst ` set (unanswered w)" using waitingD(4) [OF w, of u e] by simp
    qed (use waitingD(1,6) [OF w] o ex in auto)
  qed
  moreover have "results_ok (ph(t := QLeave d r)) w (ch(d := []))"
  proof (rule resultsI)
    fix e assume c: "(ch(d := [])) e = [None]"
    then have e: "e \<noteq> d" "ch e = [None]" by (auto split: if_splits)
    then obtain u where "ph u = QWait e" "u \<in> set (wc_written w)" using resultsD(2) [OF i(4)] by blast
    then show "\<exists>u. (ph(t := QLeave d r)) u = QWait e \<and> u \<in> set (wc_written w)" using e assms(2) by (intro exI [of _ u]) auto
  next
    fix u assume "verdict ((ph(t := QLeave d r)) u) = Some None"
    then show "u \<in> set (wc_written w)" using resultsD(5) [OF i(4)] assms(4) by (auto split: if_splits)
  next
    fix u e assume "verdict ((ph(t := QLeave d r)) u) = Some (Some e)"
    then show "failing (wc_writer w)" using resultsD(6) [OF i(4), of u e] assms(5) by (auto split: if_splits)
  next
    fix e er assume "(ch(d := [])) e = [Some er]"
    then show "failing (wc_writer w)" using resultsD(4) [OF i(4), of e er] by (auto split: if_splits)
  qed (use resultsD(1,3) [OF i(4)] in \<open>auto split: if_splits\<close>)
  ultimately show ?thesis using i(2) fin channels_same [OF i(1), of "QLeave d r" t] assms(2)
    by (auto simp: queue_inv_def fun_eq_iff)
qed

text \<open>An intent enters the queue.\<close>

lemma enqueue_unanswered: "unanswered (enqueue t x w) = unanswered w @ [(t, x)]" "wc_writer (enqueue t x w) = wc_writer w"
  "wc_written (enqueue t x w) = wc_written w" "wc_dead (enqueue t x w) = wc_dead w"
  by (simp_all add: unanswered_def enqueue_def)

lemma enqueue_fifo: "fifo_ok w \<Longrightarrow> length (wc_Q w) < writeQSize \<Longrightarrow> fifo_ok (enqueue t x w)"
  by (auto simp: fifo_ok_def enqueue_def prefix_def)

lemma step_send:
  assumes "queue_inv ph w ch sp" "ph t = QSend d \<and> x = Some d \<and> y = QWait d \<or> ph t = QAsync \<and> x = None \<and> y = QAsyncDone"
    "length (wc_Q w) < writeQSize"
  shows "queue_inv (ph(t := y)) (enqueue t x w) ch sp"
proof -
  have i: "channels_ok ph sp" "fifo_ok w" "\<not> wc_dead w \<Longrightarrow> waiting_ok ph w ch" "results_ok ph w ch" "finite {t. ph t \<noteq> QNew}"
    using assms(1) by (simp_all add: queue_inv_def)
  have nw: "\<And>e. ph t \<noteq> QWait e" "ph t \<noteq> QAsyncDone" "verdict (ph t) = None" "verdict y = None" using assms(2) by auto
  have idle: "ch d \<noteq> [None]" "\<not> wc_dead w \<Longrightarrow> ch d = []" "ph u \<noteq> QWait d" if "x = Some d" for u
  proof -
    have h: "holds (ph t) d" using assms(2) that by auto
    show "ch d \<noteq> [None]" "\<not> wc_dead w \<Longrightarrow> ch d = []" "ph u \<noteq> QWait d"
      using idle_channel [OF i(1) h nw(1)] i(3,4) by blast+
  qed
  have fin: "finite {u. (ph(t := y)) u \<noteq> QNew}" by (rule finite_subset [of _ "insert t {t. ph t \<noteq> QNew}"]) (use i(5) in auto)
  have ex: "\<exists>u. (ph(t := y)) u = QWait e \<and> P u" if "\<exists>u. ph u = QWait e \<and> P u" for e P
    using that nw(1) by (metis fun_upd_other)
  have "waiting_ok (ph(t := y)) (enqueue t x w) ch" if "\<not> wc_dead w"
  proof -
    have w: "waiting_ok ph w ch" by (rule i(3) [OF that])
    have n: "t \<notin> fst ` set (unanswered w)" by (rule waiting_other [OF w nw(1,2)])
    then have o: "(u, z) \<in> set (unanswered w) \<Longrightarrow> u \<noteq> t" for u z by force
    have y: "y = (case x of Some d \<Rightarrow> QWait d | None \<Rightarrow> QAsyncDone)" using assms(2) by auto
    have "ch e \<noteq> [] \<Longrightarrow> \<exists>u. (ph(t := y)) u = QWait e" for e using waitingD(5) [OF w, of e] ex [of e "\<lambda>_. True"] by simp
    moreover have "y = QWait e \<Longrightarrow> ch e = []" for e using idle(2) that assms(2) by auto
    ultimately show ?thesis using w n o unfolding waiting_ok_def enqueue_unanswered by (auto simp: y)
  qed
  moreover have "results_ok (ph(t := y)) (enqueue t x w) ch"
  proof (rule resultsI, unfold enqueue_unanswered)
    fix e assume "ch e = [None]"
    then show "\<exists>u. (ph(t := y)) u = QWait e \<and> u \<in> set (wc_written w)" "Some e \<notin> snd ` set (unanswered w @ [(t, x)])"
      using resultsD(2,3) [OF i(4)] ex idle(1) assms(2) by auto
  qed (use resultsD [OF i(4)] nw(4) in \<open>auto split: if_splits\<close>)
  moreover have "channels_ok (ph(t := y)) sp" using assms(2) by (intro channels_same [OF i(1)]) (auto simp: fun_eq_iff)
  ultimately show ?thesis using enqueue_fifo [OF i(2) assms(3)] fin by (simp add: queue_inv_def enqueue_unanswered)
qed

subsection \<open>The writer\<close>

lemma queue_invD:
  assumes "queue_inv ph w ch sp"
  shows "channels_ok ph sp" "fifo_ok w" "\<not> wc_dead w \<Longrightarrow> waiting_ok ph w ch" "results_ok ph w ch" "finite {t. ph t \<noteq> QNew}"
  using assms by (simp_all add: queue_inv_def)

lemma queue_invI:
  assumes "queue_inv ph w ch sp" "fifo_ok w'" "\<not> wc_dead w' \<Longrightarrow> waiting_ok ph w' ch'" "results_ok ph w' ch'"
  shows "queue_inv ph w' ch' sp"
  using assms by (simp add: queue_inv_def)

lemma fifoD:
  assumes "fifo_ok w"
  shows "prefix (wc_written w) (wc_accepted w)" "\<not> failing (wc_writer w) \<Longrightarrow> wc_accepted w = wc_written w @ map fst (wc_Q w)"
    "wc_dead w \<longleftrightarrow> dying (wc_writer w)" "wc_dead w \<Longrightarrow> wc_err w \<noteq> None" "wc_writer w = WReply t x None \<Longrightarrow> t \<in> set (wc_written w)"
    "length (wc_Q w) \<le> writeQSize"
  using assms unfolding fifo_ok_def by blast+

lemma step_close: "queue_inv ph w ch sp \<Longrightarrow> queue_inv ph (w\<lparr>wc_shut := True\<rparr>) ch sp"
  by (simp add: queue_inv_def fifo_ok_def waiting_ok_def results_ok_def unanswered_def)

lemma step_take:
  assumes "queue_inv ph w ch sp" "wc_writer w = WSelect" "wc_Q w = (t, x) # q"
  shows "queue_inv ph (w\<lparr>wc_Q := q, wc_writer := WReply t x r, wc_written := (if r = None then wc_written w @ [t] else wc_written w)\<rparr>) ch sp"
    (is "queue_inv ph ?w ch sp")
proof (rule queue_invI [OF assms(1)])
  note i = queue_invD [OF assms(1)]
  have u: "unanswered ?w = unanswered w" using assms(2,3) by (simp add: unanswered_def)
  have a: "wc_accepted w = wc_written w @ t # map fst q" using fifoD(2) [OF i(2)] assms(2,3) by simp
  show "fifo_ok ?w" using fifoD(3,6) [OF i(2)] a assms(2,3) by (simp add: fifo_ok_def)
  show "\<not> wc_dead ?w \<Longrightarrow> waiting_ok ph ?w ch" using i(3) u by (simp add: waiting_ok_def)
  have m: "v \<in> set (wc_written w) \<Longrightarrow> v \<in> set (wc_written ?w)" for v by simp
  have e: "ch d \<noteq> [Some er]" "verdict (ph v) \<noteq> Some (Some er)" for d v er using resultsD(4,6) [OF i(4)] assms(2) by auto
  show "results_ok ph ?w ch"
  proof (rule resultsI, unfold u)
    fix d assume "ch d = [None]"
    from resultsD(2) [OF i(4) this] show "\<exists>v. ph v = QWait d \<and> v \<in> set (wc_written ?w)" using m by blast
  next
    fix v assume "verdict (ph v) = Some None"
    from m [OF resultsD(5) [OF i(4) this]] show "v \<in> set (wc_written ?w)" .
  qed (use resultsD(1,3) [OF i(4)] e in auto)
qed

lemma step_shut:
  assumes "queue_inv ph w ch sp" "wc_writer w = WSelect"
  shows "queue_inv ph (w\<lparr>wc_writer := WExit e\<rparr>) ch sp" (is "queue_inv ph ?w ch sp")
proof (rule queue_invI [OF assms(1)])
  note i = queue_invD [OF assms(1)]
  have u: "unanswered ?w = unanswered w" using assms(2) by (simp add: unanswered_def)
  show "fifo_ok ?w" using i(2) assms(2) by (simp add: fifo_ok_def)
  show "\<not> wc_dead ?w \<Longrightarrow> waiting_ok ph ?w ch" using i(3) u by (simp add: waiting_ok_def)
  show "results_ok ph ?w ch" using i(4) u by (simp add: results_ok_def)
qed

text \<open>The writer reports a result: the intent has no channel, or the channel of the call that waits for it.\<close>

lemma reply_facts:
  assumes "queue_inv ph w ch sp" "wc_writer w = WReply t x r" "w' = w\<lparr>wc_writer := (case r of None \<Rightarrow> WSelect | Some e \<Rightarrow> WExit e)\<rparr>"
  shows "\<not> wc_dead w" "waiting_ok ph w ch" "fifo_ok w'" "unanswered w = (t, x) # unanswered w'" "failing (wc_writer w') = failing (wc_writer w)"
    "wc_written w' = wc_written w" "r = None \<Longrightarrow> t \<in> set (wc_written w)"
proof -
  note i = queue_invD [OF assms(1)]
  show d: "\<not> wc_dead w" using fifoD(3) [OF i(2)] assms(2) by simp
  show "waiting_ok ph w ch" by (rule i(3) [OF d])
  show "fifo_ok w'" "failing (wc_writer w') = failing (wc_writer w)" using i(2) assms(2,3) by (auto simp: fifo_ok_def split: option.splits)
  show "unanswered w = (t, x) # unanswered w'" using assms(2,3) by (simp add: unanswered_def split: option.splits)
  show "wc_written w' = wc_written w" using assms(3) by simp
  show "r = None \<Longrightarrow> t \<in> set (wc_written w)" using fifoD(5) [OF i(2)] assms(2) by simp
qed

lemma step_reply_async:
  assumes "queue_inv ph w ch sp" "wc_writer w = WReply t None r" "w' = w\<lparr>wc_writer := (case r of None \<Rightarrow> WSelect | Some e \<Rightarrow> WExit e)\<rparr>"
  shows "queue_inv ph w' ch sp"
proof (rule queue_invI [OF assms(1)])
  note i = queue_invD [OF assms(1)] and f = reply_facts [OF assms]
  show "fifo_ok w'" by (rule f(3))
  have t: "ph t = QAsyncDone" using waitingD(3) [OF f(2), of t] f(4) by simp
  show "waiting_ok ph w' ch"
  proof (rule waitingI)
    fix u d assume p: "ph u = QWait d"
    then have "u \<noteq> t" using t by auto
    then show "ch d = [] \<longleftrightarrow> u \<in> fst ` set (unanswered w')" using waitingD(4) [OF f(2) p] f(4) by simp
  qed (use waitingD(1,5,6) [OF f(2)] f(4) in auto)
  show "results_ok ph w' ch" by (rule resultsI) (use resultsD [OF i(4)] f(4-6) in auto)
qed

lemma step_reply:
  assumes "queue_inv ph w ch sp" "wc_writer w = WReply t (Some d) r" "w' = w\<lparr>wc_writer := (case r of None \<Rightarrow> WSelect | Some e \<Rightarrow> WExit e)\<rparr>"
  shows "queue_inv ph w' (ch(d := [r])) sp" "ch d = []"
proof -
  note i = queue_invD [OF assms(1)] and f = reply_facts [OF assms]
  have t: "ph t = QWait d" using waitingD(2) [OF f(2), of t] f(4) by simp
  show c: "ch d = []" using waitingD(4) [OF f(2) t] f(4) by simp
  have n: "t \<notin> fst ` set (unanswered w')" using waitingD(1) [OF f(2)] f(4) by auto
  have h: "u = t" if "ph u = QWait d" for u using holder_unique [OF i(1), of t d u] t that by simp
  have wait: "waiting_ok ph w' (ch(d := [r]))"
  proof (rule waitingI)
    fix u e assume p: "ph u = QWait e"
    show "(ch(d := [r])) e = [] \<longleftrightarrow> u \<in> fst ` set (unanswered w')"
    proof (cases "e = d")
      case True
      then show ?thesis using h p n by simp
    next
      case False
      then have "u \<noteq> t" using p t by auto
      then show ?thesis using waitingD(4) [OF f(2) p] f(4) False by simp
    qed
  next
    fix e assume "(ch(d := [r])) e \<noteq> []"
    then show "\<exists>u. ph u = QWait e" using t waitingD(5) [OF f(2), of e] by (cases "e = d") auto
  qed (use waitingD(1,6) [OF f(2)] f(4) in auto)
  have own: "Some d \<notin> snd ` set (unanswered w')"
  proof
    assume "Some d \<in> snd ` set (unanswered w')"
    then obtain u where m: "(u, Some d) \<in> set (unanswered w')" by auto
    then have "u = t" using waitingD(2) [OF f(2), of u d] f(4) h by simp
    then show False using n m by force
  qed
  have "results_ok ph w' (ch(d := [r]))"
  proof (rule resultsI)
    fix e assume e: "(ch(d := [r])) e = [None]"
    show "\<exists>u. ph u = QWait e \<and> u \<in> set (wc_written w')" "Some e \<notin> snd ` set (unanswered w')"
      using e t f(4,6,7) own resultsD(2,3) [OF i(4), of e] by (auto split: if_splits)
  next
    fix e er assume "(ch(d := [r])) e = [Some er]"
    then show "failing (wc_writer w')" using f(5) assms(2) resultsD(4) [OF i(4), of e er] by (auto split: if_splits)
  qed (use resultsD(1,5,6) [OF i(4)] f(5,6) in auto)
  then show "queue_inv ph w' (ch(d := [r])) sp" using queue_invI [OF assms(1) f(3)] wait by blast
qed

text \<open>From here on the writer is dead, and only the results matter.\<close>

lemma step_dead:
  assumes "queue_inv ph w ch sp" "failing (wc_writer w)" "wc_dead w'" "dying (wc_writer w')" "wc_err w' \<noteq> None" "wc_written w' = wc_written w"
    "wc_accepted w' = wc_accepted w" "set (unanswered w') \<subseteq> set (unanswered w)" "length (wc_Q w') \<le> length (wc_Q w)"
    "ch' = ch \<or> (\<exists>d e. ch' = ch(d := [Some e]))"
  shows "queue_inv ph w' ch' sp"
proof (rule queue_invI [OF assms(1)])
  note i = queue_invD [OF assms(1)]
  have f: "failing (wc_writer w')" using assms(4) by (cases "wc_writer w'") auto
  show "fifo_ok w'" using fifoD(1,6) [OF i(2)] assms(3-7,9) f by (auto simp: fifo_ok_def)
  show "\<not> wc_dead w' \<Longrightarrow> waiting_ok ph w' ch'" using assms(3) by simp
  have n: "ch' d = [None] \<Longrightarrow> ch d = [None]" "length (ch' d) \<le> 1" for d
    using assms(10) resultsD(1) [OF i(4)] by (auto split: if_splits)
  have o: "Some d \<notin> snd ` set (unanswered w')" if "ch' d = [None]" for d
    using resultsD(3) [OF i(4) n(1) [OF that]] image_mono [OF assms(8), of snd] by blast
  show "results_ok ph w' ch'" by (rule resultsI) (use resultsD(2,5) [OF i(4)] n f o assms(6) in auto)
qed

subsection \<open>All steps together\<close>

lemma one_writer_call:
  assumes "one_writer c s" "ws_call s' = (ws_call s)(t := (c, x))" "queue_inv ((phase_of s)(t := x)) (ws_conn s' c) (ws_ch s') (ws_pool s')"
  shows "one_writer c s'"
proof -
  have "phase_of s' = (phase_of s)(t := x)" using assms(2) by (auto simp: fun_eq_iff)
  then show ?thesis using assms unfolding one_writer_def by auto
qed

lemma one_writer_conn:
  assumes "one_writer c s" "ws_call s' = ws_call s" "queue_inv (phase_of s) (ws_conn s' c) (ws_ch s') (ws_pool s')"
  shows "one_writer c s'"
  using assms unfolding one_writer_def by simp

lemma one_writerD:
  assumes "one_writer c s"
  shows "queue_inv (phase_of s) (ws_conn s c) (ws_ch s) (ws_pool s)" "phase_of s t \<noteq> QNew \<Longrightarrow> fst (ws_call s t) = c"
  using assms by (auto simp: one_writer_def)

lemma begin_keeps:
  assumes "one_writer c s" "call_step t ev s = Some s'" "ev = CSubmit c k \<or> ev = CAsync c"
  shows "one_writer c s'"
proof -
  note i = one_writerD(1) [OF assms(1)]
  have n: "phase_of s t = QNew" using assms(2,3) by (cases "phase_of s t") auto
  from assms(3) show ?thesis
  proof
    assume ev: "ev = CSubmit c k"
    obtain d sp where g: "pool_get k (ws_pool s) = (d, sp)" by fastforce
    have s': "s' = s\<lparr>ws_pool := sp, ws_call := (ws_call s)(t := (c, QSend d))\<rparr>" using assms(2) ev n g by simp
    have "channels_ok ((phase_of s)(t := QSend d)) sp" by (rule channels_get [OF queue_invD(1) [OF i] g n])
    from step_elsewhere [OF i this] show ?thesis by (intro one_writer_call [OF assms(1)]) (use n in \<open>auto simp: s'\<close>)
  next
    assume ev: "ev = CAsync c"
    have s': "s' = s\<lparr>ws_call := (ws_call s)(t := (c, QAsync))\<rparr>" using assms(2) ev n by simp
    have "channels_ok ((phase_of s)(t := QAsync)) (ws_pool s)"
      by (rule channels_same [OF queue_invD(1) [OF i]]) (use n in \<open>auto simp: fun_eq_iff\<close>)
    from step_elsewhere [OF i this] show ?thesis by (intro one_writer_call [OF assms(1)]) (use n in \<open>auto simp: s'\<close>)
  qed
qed

lemmas state_defs = set_call_def upd_wconn_def set_ch_def set_writer_def

lemma send_keeps:
  assumes "one_writer c s" "call_step t CSend s = Some s'"
  shows "one_writer c s'"
proof -
  note i = one_writerD(1) [OF assms(1)]
  have c: "fst (ws_call s t) = c" by (rule one_writerD(2) [OF assms(1)]) (use assms(2) in auto)
  have "\<exists>x y. (\<exists>d. phase_of s t = QSend d \<and> x = Some d \<and> y = QWait d \<or> phase_of s t = QAsync \<and> x = None \<and> y = QAsyncDone) \<and>
      length (wc_Q (ws_conn s c)) < writeQSize \<and> s' = set_call t y (upd_wconn c (enqueue t x) s)"
    using assms(2) c by (cases "phase_of s t") (auto split: if_splits)
  then obtain x y d where p: "phase_of s t = QSend d \<and> x = Some d \<and> y = QWait d \<or> phase_of s t = QAsync \<and> x = None \<and> y = QAsyncDone"
    and l: "length (wc_Q (ws_conn s c)) < writeQSize" and s': "s' = set_call t y (upd_wconn c (enqueue t x) s)" by blast
  show ?thesis by (rule one_writer_call [OF assms(1)]) (use step_send [OF i p l] c in \<open>auto simp: s' state_defs\<close>)
qed

lemma dead_failing: "fifo_ok w \<Longrightarrow> wc_dead w \<Longrightarrow> failing (wc_writer w)"
  using fifoD(3) [of w] by (cases "wc_writer w") auto

lemma recv_keeps:
  assumes "one_writer c s" "phase_of s t = QWait d" "ws_ch s d = r # rs"
  shows "one_writer c (set_call t (QLeave d r) (set_ch d rs s))"
proof -
  note i = one_writerD(1) [OF assms(1)]
  note j = queue_invD [OF i]
  have c: "fst (ws_call s t) = c" by (rule one_writerD(2) [OF assms(1)]) (use assms(2) in auto)
  have rs: "rs = []" using resultsD(1) [OF j(4), of d] assms(3) by simp
  have n: "t \<in> set (wc_written (ws_conn s c))" if r: "r = None"
  proof -
    obtain u where u: "phase_of s u = QWait d" "u \<in> set (wc_written (ws_conn s c))" using resultsD(2) [OF j(4), of d] assms(3) r rs by auto
    then show ?thesis using holder_unique [OF j(1), of t d u] assms(2) by simp
  qed
  have "r \<noteq> None \<Longrightarrow> failing (wc_writer (ws_conn s c))" using resultsD(4) [OF j(4), of d] assms(3) rs by auto
  from step_leave [OF i assms(2) _ n this] show ?thesis
    by (intro one_writer_call [OF assms(1)]) (use c rs assms(3) in \<open>auto simp: state_defs\<close>)
qed

lemma dead_keeps:
  assumes "one_writer c s" "call_step t CDead s = Some s'"
  shows "one_writer c s'"
proof -
  note i = one_writerD(1) [OF assms(1)]
  note j = queue_invD [OF i]
  have c: "fst (ws_call s t) = c" by (rule one_writerD(2) [OF assms(1)]) (use assms(2) in auto)
  have d: "wc_dead (ws_conn s c)" using assms(2) c by (cases "phase_of s t") (auto simp: Let_def split: if_splits)
  obtain e where e: "wc_err (ws_conn s c) = Some e" using fifoD(4) [OF j(2) d] by blast
  note f = dead_failing [OF j(2) d]
  have go: "one_writer c (set_call t x s)" if "holds x = holds (phase_of s t)" "\<And>d. phase_of s t \<noteq> QWait d" "\<And>d. x \<noteq> QWait d"
    "phase_of s t \<noteq> QAsyncDone" "verdict x = None \<or> verdict x = Some (Some e)" for x
    using step_elsewhere [OF i channels_same [OF j(1) that(1)] that(2-4)] that(5) d c
    by (intro one_writer_call [OF assms(1)]) (auto simp: state_defs)
  show ?thesis
  proof (cases "phase_of s t")
    case (QSend x)
    then show ?thesis using assms(2) c d e go [of "QLeave x (Some e)"] by (auto simp: fun_eq_iff)
  next
    case (QWait x)
    show ?thesis
    proof (cases "ws_ch s x")
      case Nil
      then have s': "s' = set_call t (QLeave x (Some e)) s" using assms(2) c d e QWait by simp
      have ch: "(ws_ch s)(x := []) = ws_ch s" using Nil by (simp add: fun_upd_idem)
      show ?thesis by (rule one_writer_call [OF assms(1)])
        (use step_leave [OF i QWait, of "Some e"] d f c in \<open>auto simp: s' state_defs ch\<close>)
    next
      case (Cons r rs)
      then show ?thesis using assms(2) c d QWait recv_keeps [OF assms(1) QWait Cons] by simp
    qed
  next
    case QAsync
    then show ?thesis using assms(2) c d go [of QAsyncDone] by (auto simp: fun_eq_iff)
  qed (use assms(2) in auto)
qed

lemma end_keeps:
  assumes "one_writer c s" "call_step t ev s = Some s'" "ev = CDrain \<or> ev = CPut"
  shows "one_writer c s'"
proof -
  note i = one_writerD(1) [OF assms(1)]
  note j = queue_invD [OF i]
  have c: "fst (ws_call s t) = c" by (rule one_writerD(2) [OF assms(1)]) (use assms(2,3) in auto)
  from assms(2,3) consider (drain) d r where "phase_of s t = QLeave d r" "s' = set_call t (QPut d r) (set_ch d (drop 1 (ws_ch s d)) s)"
    | (put) d r where "phase_of s t = QPut d r" "s' = set_call t (QReturned r) (s\<lparr>ws_pool := pool_put d (ws_pool s)\<rparr>)"
    by (cases "phase_of s t") (auto simp: Let_def)
  then show ?thesis
  proof cases
    case drain
    have e: "drop 1 (ws_ch s d) = []" using resultsD(1) [OF j(4), of d] by simp
    have q: "queue_inv (phase_of s) (ws_conn s c) ((ws_ch s)(d := [])) (ws_pool s)" by (rule clear_channel [OF i, of t]) (use drain(1) in auto)
    have "channels_ok ((phase_of s)(t := QPut d r)) (ws_pool s)" by (rule channels_same [OF j(1)]) (use drain(1) in \<open>auto simp: fun_eq_iff\<close>)
    from step_elsewhere [OF q this] drain c e show ?thesis by (intro one_writer_call [OF assms(1)]) (auto simp: state_defs)
  next
    case put
    from step_elsewhere [OF i channels_put [OF j(1) put(1)]] put c show ?thesis
      by (intro one_writer_call [OF assms(1)]) (auto simp: state_defs)
  qed
qed

lemma call_keeps:
  assumes "one_writer c s" "ev \<in> {CSend, CDead, CRecv, CDrain, CPut}" "call_step t ev s = Some s'"
  shows "one_writer c s'"
proof (cases "ev = CRecv")
  case True
  then obtain d r rs where "phase_of s t = QWait d" "ws_ch s d = r # rs" "s' = set_call t (QLeave d r) (set_ch d rs s)"
    using assms(3) by (cases "phase_of s t") (auto simp: Let_def split: list.splits)
  then show ?thesis using recv_keeps [OF assms(1)] by blast
qed (use assms send_keeps dead_keeps end_keeps in blast)

lemma drain_keeps:
  assumes "one_writer c s" "writer_step c VStep s = Some s'" "failing (wc_writer (ws_conn s c))" "\<And>t x r. wc_writer (ws_conn s c) \<noteq> WReply t x r"
  shows "one_writer c s'"
proof -
  note i = one_writerD(1) [OF assms(1)]
  note f = fifoD(3,4) [OF queue_invD(2) [OF i]]
  have k: "one_writer c s'" if "wc_dead (ws_conn s' c)" "dying (wc_writer (ws_conn s' c))" "wc_err (ws_conn s' c) \<noteq> None"
    "wc_written (ws_conn s' c) = wc_written (ws_conn s c)" "wc_accepted (ws_conn s' c) = wc_accepted (ws_conn s c)"
    "set (unanswered (ws_conn s' c)) \<subseteq> set (unanswered (ws_conn s c))" "length (wc_Q (ws_conn s' c)) \<le> length (wc_Q (ws_conn s c))"
    "ws_ch s' = ws_ch s \<or> (\<exists>d e. ws_ch s' = (ws_ch s)(d := [Some e]))" "ws_call s' = ws_call s" "ws_pool s' = ws_pool s"
    using one_writer_conn [OF assms(1) that(9)] step_dead [OF i assms(3) that(1-8)] that(10) by simp
  show ?thesis
  proof (cases "wc_writer (ws_conn s c)")
    case (WExit e)
    then have "s' = upd_wconn c (\<lambda>w. w\<lparr>wc_err := Some e, wc_dead := True, wc_writer := WDrain e\<rparr>) s" using assms(2) by simp
    then show ?thesis by (intro k) (auto simp: state_defs unanswered_def)
  next
    case (WDrain e)
    then show ?thesis using assms(2) f
      by (intro k) (auto simp: state_defs unanswered_def split: list.splits)
  next
    case (WDrainReply e t x)
    then have "s' = set_writer c (WDrain e) s \<or> (\<exists>d. s' = set_writer c (WDrain e) (set_ch d [Some e] s))"
      using assms(2) by (cases x) (auto split: if_splits)
    then show ?thesis using f WDrainReply by (intro k) (fastforce simp: state_defs unanswered_def)+
  qed (use assms in auto)
qed

lemma reply_keeps:
  assumes "one_writer c s" "writer_step c VStep s = Some s'" "wc_writer (ws_conn s c) = WReply t x r"
  shows "one_writer c s'"
proof (cases x)
  case None
  note q = step_reply_async [OF one_writerD(1) [OF assms(1)] assms(3) [unfolded None] refl]
  show ?thesis by (rule one_writer_conn [OF assms(1)]) (use assms(2,3) None q in \<open>auto simp: state_defs\<close>)
next
  case (Some d)
  note q = step_reply [OF one_writerD(1) [OF assms(1)] assms(3) [unfolded Some] refl]
  show ?thesis by (rule one_writer_conn [OF assms(1)]) (use assms(2,3) Some q in \<open>auto simp: state_defs\<close>)
qed

lemma writer_keeps:
  assumes "one_writer c s" "writer_step c ev s = Some s'"
  shows "one_writer c s'"
proof (cases ev)
  case (VTake r)
  note i = one_writerD(1) [OF assms(1)]
  from VTake assms(2) obtain t d q where w: "wc_writer (ws_conn s c) = WSelect" "wc_Q (ws_conn s c) = (t, d) # q"
    by (cases "wc_writer (ws_conn s c)") (auto split: list.splits)
  show ?thesis by (rule one_writer_conn [OF assms(1)]) (use step_take [OF i w, of r] VTake w assms(2) in \<open>auto simp: state_defs\<close>)
next
  case VShut
  note i = one_writerD(1) [OF assms(1)]
  have w: "wc_writer (ws_conn s c) = WSelect" using VShut assms(2) by (cases "wc_writer (ws_conn s c)") auto
  show ?thesis by (rule one_writer_conn [OF assms(1)])
    (use step_shut [OF i w, of ErrConnClosed] VShut w assms(2) in \<open>auto simp: state_defs split: if_splits\<close>)
next
  case VStep
  then show ?thesis using drain_keeps [OF assms(1)] reply_keeps [OF assms(1)] assms(2) by (cases "wc_writer (ws_conn s c)") auto
next
  case VClose
  then show ?thesis using assms(2) step_close [OF one_writerD(1) [OF assms(1)]]
    by (intro one_writer_conn [OF assms(1)]) (auto simp: state_defs split: if_splits)
qed

lemma trans_keeps: "one_writer c s \<Longrightarrow> queue_trans {c} s s' \<Longrightarrow> one_writer c s'"
  by (erule queue_trans.cases) (blast intro: begin_keeps call_keeps writer_keeps)+

interpretation wq: step_system "queue_trans {c}" "one_writer c" for c
  by unfold_locales (rule trans_keeps)

lemma run_sched_reach:
  "list_all (sched_on C) es \<Longrightarrow> run_sched es s = Some s' \<Longrightarrow> (queue_trans C)\<^sup>*\<^sup>* s s'"
proof (induction es s rule: run_sched.induct)
  case (2 t ev es s)
  then obtain s1 where s1: "call_step t ev s = Some s1" "run_sched es s1 = Some s'" by (auto simp del: call_step.simps split: option.splits)
  have "queue_trans C s s1"
    using s1(1) 2(2) by (cases ev) (auto simp del: call_step.simps intro: queue_trans.intros)
  moreover have "(queue_trans C)\<^sup>*\<^sup>* s1 s'" using 2(1) [OF s1(1)] 2(2) s1(2) by simp
  ultimately show ?case by (rule converse_rtranclp_into_rtranclp)
next
  case (3 c ev es s)
  then obtain s1 where s1: "writer_step c ev s = Some s1" "run_sched es s1 = Some s'" by (auto split: option.splits)
  have "queue_trans C s s1" using s1(1) 3(2) by (auto intro: queue_trans.writer)
  moreover have "(queue_trans C)\<^sup>*\<^sup>* s1 s'" using 3(1) [OF s1(1)] 3(2) s1(2) by simp
  ultimately show ?case by (rule converse_rtranclp_into_rtranclp)
qed simp

lemma run_sched_work:
  "list_all (work_on c) es \<Longrightarrow> run_sched es s = Some s' \<Longrightarrow> (queue_work c ^^ length es) s s'"
proof (induction es s rule: run_sched.induct)
  case (2 t ev es s)
  then obtain s1 where s1: "call_step t ev s = Some s1" "run_sched es s1 = Some s'" by (auto simp del: call_step.simps split: option.splits)
  have "queue_work c s s1" using s1(1) 2(2) by (auto simp del: call_step.simps intro: call_work)
  moreover have "(queue_work c ^^ length es) s1 s'" using 2(1) [OF s1(1)] 2(2) s1(2) by simp
  ultimately show ?case unfolding list.size by (simp only: add_0_right add_Suc_right relpowp_Suc_I2)
next
  case (3 d ev es s)
  then obtain s1 where s1: "writer_step d ev s = Some s1" "run_sched es s1 = Some s'" by (auto split: option.splits)
  have "queue_work c s s1" using s1(1) 3(2) by (auto intro: writer_work)
  moreover have "(queue_work c ^^ length es) s1 s'" using 3(1) [OF s1(1)] 3(2) s1(2) by simp
  ultimately show ?case unfolding list.size by (simp only: add_0_right add_Suc_right relpowp_Suc_I2)
qed simp

lemmas sched_defs = init_wsys_def startWriter_def state_defs enqueue_def writeQSize_def pool_get_def pool_put_def

subsection \<open>An intent is accepted once\<close>

lemma accepted_call:
  assumes "call_step t ev s = Some s'"
  shows "(wc_accepted (ws_conn s' c) = wc_accepted (ws_conn s c) \<or>
      wc_accepted (ws_conn s' c) = wc_accepted (ws_conn s c) @ [t] \<and> before_queue (phase_of s t) \<and> \<not> before_queue (phase_of s' t)) \<and>
    (before_queue (phase_of s' t) \<longrightarrow> before_queue (phase_of s t)) \<and> (\<forall>u. u \<noteq> t \<longrightarrow> ws_call s' u = ws_call s u)"
  using assms by (cases "phase_of s t"; cases ev)
    (auto simp: Let_def state_defs enqueue_def split: if_splits list.splits prod.splits)

lemma accepted_writer:
  assumes "writer_step c ev s = Some s'"
  shows "wc_accepted (ws_conn s' d) = wc_accepted (ws_conn s d) \<and> ws_call s' = ws_call s"
proof -
  have r: "send_done x r s = Some a \<Longrightarrow> ws_conn a = ws_conn s \<and> ws_call a = ws_call s" for x r a
    by (cases x) (auto simp: state_defs split: if_splits)
  show ?thesis using assms by (cases "wc_writer (ws_conn s c)"; cases ev) (auto simp: state_defs r split: if_splits list.splits dest!: r)
qed

lemma accepted_once_call:
  assumes "accepted_once c s" "call_step t ev s = Some s'"
  shows "accepted_once c s'"
proof -
  note a = accepted_call [OF assms(2), of c] and o = assms(1) [unfolded accepted_once_def]
  have p: "\<not> before_queue (phase_of s' u)" if "u \<in> set (wc_accepted (ws_conn s c))" for u
    using a o that by (cases "u = t") auto
  show ?thesis
  proof (cases "wc_accepted (ws_conn s' c) = wc_accepted (ws_conn s c)")
    case True
    then show ?thesis using o p by (simp add: accepted_once_def)
  next
    case False
    then have b: "wc_accepted (ws_conn s' c) = wc_accepted (ws_conn s c) @ [t]" "before_queue (phase_of s t)" "\<not> before_queue (phase_of s' t)"
      using a by auto
    then have "t \<notin> set (wc_accepted (ws_conn s c))" using o by auto
    then show ?thesis using o p b by (auto simp: accepted_once_def)
  qed
qed

lemma accepted_once_writer: "accepted_once c s \<Longrightarrow> writer_step d ev s = Some s' \<Longrightarrow> accepted_once c s'"
  using accepted_writer [of d ev s s' c] unfolding accepted_once_def by metis

lemma accepted_once_step: "accepted_once c s \<Longrightarrow> queue_trans C s s' \<Longrightarrow> accepted_once c s'"
  by (erule queue_trans.cases) (blast intro: accepted_once_call accepted_once_writer)+

subsection \<open>Every step that needs nothing new uses something up\<close>

lemma call_work_less:
  assumes "one_writer c s" "ev \<in> {CSend, CDead, CRecv, CDrain, CPut}" "call_step t ev s = Some s'"
  shows "t \<in> begun s" "begun s' = begun s" "\<forall>u. u \<noteq> t \<longrightarrow> ws_call s' u = ws_call s u"
    "call_cost (phase_of s' t) + conn_cost (ws_conn s' c) < call_cost (phase_of s t) + conn_cost (ws_conn s c)"
proof -
  have n: "phase_of s t \<noteq> QNew" using assms(2,3) by (cases ev) auto
  then have c: "fst (ws_call s t) = c" by (rule one_writerD(2) [OF assms(1)])
  show "t \<in> begun s" using n by (simp add: begun_def)
  show o: "\<forall>u. u \<noteq> t \<longrightarrow> ws_call s' u = ws_call s u" using accepted_call [OF assms(3)] by blast
  have f: "phase_of s' t \<noteq> QNew \<and>
      call_cost (phase_of s' t) + conn_cost (ws_conn s' c) < call_cost (phase_of s t) + conn_cost (ws_conn s c)"
    using assms(2,3) c by (cases "phase_of s t"; cases ev)
      (auto simp: Let_def state_defs enqueue_def conn_cost_def split: if_splits list.splits)
  then show "call_cost (phase_of s' t) + conn_cost (ws_conn s' c) < call_cost (phase_of s t) + conn_cost (ws_conn s c)" ..
  have "phase_of s' u \<noteq> QNew \<longleftrightarrow> phase_of s u \<noteq> QNew" for u using o f n by (cases "u = t") auto
  then show "begun s' = begun s" by (simp add: begun_def)
qed

lemma writer_work_less:
  assumes "ev \<noteq> VClose" "writer_step c ev s = Some s'"
  shows "conn_cost (ws_conn s' c) < conn_cost (ws_conn s c)"
proof -
  have r: "send_done x r s = Some a \<Longrightarrow> ws_conn a = ws_conn s" for x r a by (cases x) (auto simp: state_defs split: if_splits)
  show ?thesis using assms by (cases "wc_writer (ws_conn s c)"; cases ev)
    (auto simp: state_defs conn_cost_def dest!: r split: if_splits list.splits option.splits)
qed

lemma left_less:
  assumes "one_writer c s" "queue_work c s s'"
  shows "queue_left c s' < queue_left c s" "begun s' = begun s"
proof -
  have fin: "finite (begun s)" using queue_invD(5) [OF one_writerD(1) [OF assms(1)]] by (simp add: begun_def)
  have "queue_left c s' < queue_left c s \<and> begun s' = begun s" using assms(2)
  proof cases
    case (call_work ev t)
    note l = call_work_less [OF assms(1) call_work]
    have "(\<Sum>u \<in> begun s - {t}. call_cost (phase_of s' u)) = (\<Sum>u \<in> begun s - {t}. call_cost (phase_of s u))"
      by (rule sum.cong) (use l(3) in auto)
    then show ?thesis using l(2,4) sum.remove [OF fin l(1), of "\<lambda>u. call_cost (phase_of s u)"]
        sum.remove [OF fin l(1), of "\<lambda>u. call_cost (phase_of s' u)"] by (simp add: queue_left_def)
  next
    case (writer_work ev)
    have "ws_call s' = ws_call s" using accepted_writer [OF writer_work(2)] by blast
    then show ?thesis using writer_work_less [OF writer_work] by (simp add: queue_left_def begun_def)
  qed
  then show "queue_left c s' < queue_left c s" "begun s' = begun s" by blast+
qed

lemma left_bound:
  assumes "one_writer c s"
  shows "queue_left c s \<le> 10 * card (begun s) + 3 * writeQSize + 5"
proof -
  have "call_cost ph \<le> 10" for ph by (cases ph) auto
  then have "(\<Sum>t \<in> begun s. call_cost (phase_of s t)) \<le> 10 * card (begun s)"
    using sum_bounded_above [of "begun s" "\<lambda>t. call_cost (phase_of s t)" 10] by simp
  moreover have "writer_cost ph \<le> 5" for ph by (cases ph) auto
  moreover have "length (wc_Q (ws_conn s c)) \<le> writeQSize" by (rule fifoD(6) [OF queue_invD(2) [OF one_writerD(1) [OF assms]]])
  ultimately show ?thesis unfolding queue_left_def conn_cost_def by (metis add.assoc add_mono mult_le_mono2)
qed

lemma writer_busy:
  assumes "one_writer c s" "\<not> wc_dead (ws_conn s c)" "\<nexists>s'. queue_work c s s'"
  shows "wc_writer (ws_conn s c) = WSelect \<and> wc_Q (ws_conn s c) = []"
proof -
  note i = one_writerD(1) [OF assms(1)]
  have n: "writer_step c ev s = None" if "ev \<noteq> VClose" for ev using assms(3) writer_work [OF that, of c s] by (cases "writer_step c ev s") auto
  have "\<not> dying (wc_writer (ws_conn s c))" using fifoD(3) [OF queue_invD(2) [OF i]] assms(2) by blast
  moreover have False if w: "wc_writer (ws_conn s c) = WReply t x r" for t x r
    using n [of VStep] step_reply(2) [OF i, of t _ r] w by (cases x) auto
  moreover have False if "wc_writer (ws_conn s c) = WExit e" for e using n [of VStep] that by simp
  ultimately have w: "wc_writer (ws_conn s c) = WSelect" by (cases "wc_writer (ws_conn s c)") auto
  moreover have "wc_Q (ws_conn s c) = []" using n [of "VTake None"] w by (cases "wc_Q (ws_conn s c)") auto
  ultimately show ?thesis ..
qed

lemma stuck_finished:
  assumes "one_writer c s" "\<nexists>s'. queue_work c s s'"
  shows "finished (phase_of s t)"
proof (rule ccontr)
  assume f: "\<not> finished (phase_of s t)"
  have c: "fst (ws_call s t) = c" by (rule one_writerD(2) [OF assms(1)]) (use f in auto)
  have n: "call_step t ev s = None" if "ev \<in> {CSend, CDead, CRecv, CDrain, CPut}" for ev
    using assms(2) call_work [OF that, of t s] by (cases "call_step t ev s") (auto simp del: call_step.simps)
  have alive: "\<not> wc_dead (ws_conn s c)"
  proof
    assume "wc_dead (ws_conn s c)"
    then show False using n [of CDead] n [of CDrain] n [of CPut] f c by (cases "phase_of s t") (auto split: list.splits)
  qed
  note w = writer_busy [OF assms(1) alive assms(2)]
  have "ws_ch s d \<noteq> []" if "phase_of s t = QWait d" for d
    using waitingD(4) [OF queue_invD(3) [OF one_writerD(1) [OF assms(1)] alive] that] w by (simp add: unanswered_def)
  then show False using n [of CSend] n [of CRecv] n [of CDrain] n [of CPut] f c w
    by (cases "phase_of s t") (auto simp: writeQSize_def split: list.splits)
qed

lemma finished_rests: "finished (phase_of s t) \<Longrightarrow> ev \<in> {CSend, CDead, CRecv, CDrain, CPut} \<Longrightarrow> call_step t ev s = None"
  by (cases "phase_of s t"; cases ev) (auto simp: Let_def)

lemma work_trans: "queue_work c s s' \<Longrightarrow> queue_trans {c} s s'"
  by (erule queue_work.cases) (blast intro: queue_trans.intros)+

lemma work_run:
  assumes "one_writer c s" "(queue_work c ^^ n) s s'"
  shows "one_writer c s' \<and> queue_left c s' + n \<le> queue_left c s"
  using assms(2)
proof (induction n arbitrary: s')
  case (Suc n)
  then obtain s1 where s1: "(queue_work c ^^ n) s s1" "queue_work c s1 s'" by auto
  from Suc.IH [OF s1(1)] have i: "one_writer c s1" "queue_left c s1 + n \<le> queue_left c s" by blast+
  show ?case using trans_keeps [OF i(1) work_trans [OF s1(2)]] left_less(1) [OF i(1) s1(2)] i(2) by simp
qed (use assms(1) in simp)

section \<open>What a caller of submit knows\<close>

text \<open>C12. On one connection, whatever the order in which the calls and the writer act, however result channels come out of the pool, and
  whatever the writes return: a submit that returned nil has had its frame written, and a submit that returned an error is on a
  connection whose writer has failed or was shut down; every intent is accepted once, frames are written in the order in which
  their intents entered the queue, and while the writer is well every accepted intent is written or still in the queue.\<close>

theorem submit_answer_sound:
  assumes "(queue_trans {c})\<^sup>*\<^sup>* init_wsys s"
  shows "(phase_of s t = QReturned None \<longrightarrow> t \<in> set (wc_written (ws_conn s c))) \<and>
    (phase_of s t = QReturned (Some e) \<longrightarrow> failing (wc_writer (ws_conn s c))) \<and>
    distinct (wc_accepted (ws_conn s c)) \<and> prefix (wc_written (ws_conn s c)) (wc_accepted (ws_conn s c)) \<and>
    (\<not> failing (wc_writer (ws_conn s c)) \<longrightarrow> wc_accepted (ws_conn s c) = wc_written (ws_conn s c) @ map fst (wc_Q (ws_conn s c)))"
proof -
  note i = one_writerD(1) [OF wq.reach_good [OF assms one_writer_init]]
  have "accepted_once c init_wsys" by (simp add: accepted_once_def init_wsys_def startWriter_def)
  then have "accepted_once c s" by (rule wq.reach_stable [OF assms one_writer_init]) (rule accepted_once_step)
  then have "distinct (wc_accepted (ws_conn s c))" by (simp add: accepted_once_def)
  then show ?thesis using resultsD(5,6) [OF queue_invD(4) [OF i], of t] fifoD(1,2) [OF queue_invD(2) [OF i]] by simp
qed

theorem submit_answer_sound_witness:
  "\<exists>s. (queue_trans {0})\<^sup>*\<^sup>* init_wsys s \<and> phase_of s 1 = QReturned None \<and> 1 \<in> set (wc_written (ws_conn s 0))"
proof -
  define es where "es = [Call 1 (CSubmit 0 0), Call 1 CSend, Writer 0 (VTake None), Writer 0 VStep, Call 1 CRecv, Call 1 CDrain, Call 1 CPut]"
  have "\<exists>s. run_sched es init_wsys = Some s \<and> phase_of s 1 = QReturned None" by (simp add: es_def sched_defs)
  then obtain s where s: "run_sched es init_wsys = Some s" "phase_of s 1 = QReturned None" by blast
  have "(queue_trans {0})\<^sup>*\<^sup>* init_wsys s" by (rule run_sched_reach [OF _ s(1)]) (simp add: es_def)
  then show ?thesis using submit_answer_sound [of 0 s 1] s(2) by blast
qed

text \<open>C13. No submit hangs: on one connection, if no new call begins, the calls under way and the writer can take only so many steps,
  ten for each call begun and a constant; and when none of them can take another, every call has returned.\<close>

theorem submit_never_hangs:
  assumes "(queue_trans {c})\<^sup>*\<^sup>* init_wsys s" "(queue_work c ^^ n) s s'"
  shows "n \<le> 10 * card (begun s) + 3 * writeQSize + 5 \<and> ((\<nexists>s''. queue_work c s' s'') \<longrightarrow> (\<forall>t. finished (phase_of s' t)))"
proof -
  have i: "one_writer c s" by (rule wq.reach_good [OF assms(1) one_writer_init])
  note r = work_run [OF i assms(2)]
  then have "n \<le> queue_left c s" by simp
  then show ?thesis using left_bound [OF i] stuck_finished [OF r [THEN conjunct1]] by auto
qed

theorem submit_never_hangs_witness:
  "\<exists>s s'. (queue_trans {0})\<^sup>*\<^sup>* init_wsys s \<and> \<not> finished (phase_of s 1) \<and> (queue_work 0 ^^ 6) s s' \<and> finished (phase_of s' 1)"
proof -
  define es where "es = [Call 1 CSend, Writer 0 (VTake None), Writer 0 VStep, Call 1 CRecv, Call 1 CDrain, Call 1 CPut]"
  have "\<exists>s. run_sched [Call 1 (CSubmit 0 0)] init_wsys = Some s \<and> \<not> finished (phase_of s 1) \<and>
      (\<exists>s'. run_sched es s = Some s' \<and> (\<forall>t. finished (phase_of s' t)) \<and> wc_writer (ws_conn s' 0) = WSelect \<and> wc_Q (ws_conn s' 0) = [] \<and>
        \<not> wc_shut (ws_conn s' 0))" by (simp add: es_def sched_defs)
  then obtain s s' where s: "run_sched [Call 1 (CSubmit 0 0)] init_wsys = Some s" "\<not> finished (phase_of s 1)" "run_sched es s = Some s'"
    and f: "\<And>t. finished (phase_of s' t)" "wc_writer (ws_conn s' 0) = WSelect" "wc_Q (ws_conn s' 0) = []" "\<not> wc_shut (ws_conn s' 0)" by blast
  have r: "(queue_trans {0})\<^sup>*\<^sup>* init_wsys s" by (rule run_sched_reach [OF _ s(1)]) simp
  have "list_all (work_on 0) es" "length es = 6" by (simp_all add: es_def)
  then have w: "(queue_work 0 ^^ 6) s s'" using run_sched_work [OF _ s(3), of 0] by metis
  have "\<not> queue_work 0 s' s''" for s''
  proof
    assume "queue_work 0 s' s''"
    then show False
    proof cases
      case (call_work ev t)
      then show False using finished_rests [OF f(1) [of t] call_work(1)] by simp
    next
      case (writer_work ev)
      then show False using f(2-4) by (cases ev) auto
    qed
  qed
  then show ?thesis using submit_never_hangs [OF r w] r w s(2) by blast
qed

text \<open>C39. The answers are not sound across connections, because a submit that leaves by \<open>writeDeadCh\<close> gives its result channel back to the
  shared pool while its intent, with that channel in it, is still in the dead writer's queue. There is a run with two connections
  in which the draining writer of the first, dead, connection then puts \<open>ErrConnClosed\<close> into a channel that a call on the second, healthy,
  connection holds: call 2 is told that the connection is closed although its frame is written, and the answer to call 2 reaches
  call 3, which is told that its frame was written while it is still in the queue.\<close>

theorem done_channel_race:
  "\<exists>s. (queue_trans {0, 1})\<^sup>*\<^sup>* init_wsys s \<and> \<not> failing (wc_writer (ws_conn s 1)) \<and> ws_call s 2 = (1, QReturned (Some ErrConnClosed)) \<and>
     ws_call s 3 = (1, QReturned None) \<and> wc_written (ws_conn s 1) = [2] \<and> map fst (wc_Q (ws_conn s 1)) = [3]"
proof -
  define es where "es =
    [Call 1 (CSubmit 0 0), Call 1 CSend, Writer 0 VClose, Writer 0 VShut, Writer 0 VStep, Call 1 CDead, Call 1 CDrain, Call 1 CPut,
     Call 2 (CSubmit 1 0), Call 2 CSend, Writer 0 VStep, Writer 0 VStep, Call 2 CRecv, Call 2 CDrain, Call 2 CPut,
     Call 3 (CSubmit 1 0), Call 3 CSend, Writer 1 (VTake None), Writer 1 VStep, Call 3 CRecv, Call 3 CDrain, Call 3 CPut]"
  have "map_option (\<lambda>s. (failing (wc_writer (ws_conn s 1)), ws_call s 2, ws_call s 3, wc_written (ws_conn s 1), map fst (wc_Q (ws_conn s 1))))
      (run_sched es init_wsys) = Some (False, (1, QReturned (Some ErrConnClosed)), (1, QReturned None), [2], [3])"
    unfolding es_def by code_simp
  moreover have "list_all (sched_on {0, 1}) es" by (simp add: es_def)
  ultimately show ?thesis using run_sched_reach [of "{0, 1}" es init_wsys] by auto
qed

text \<open>For the same reason the send of the draining loop, which the buffer of one is meant to keep from blocking, can block for good: two
  calls in turn leave the same channel in the queue of a dead writer, and nobody receives from it any more.\<close>

lemma drain_can_block:
  "\<exists>s e t d. (queue_trans {0})\<^sup>*\<^sup>* init_wsys s \<and> wc_writer (ws_conn s 0) = WDrainReply e t (Some d) \<and> ws_ch s d \<noteq> [] \<and>
     (\<forall>t. finished (phase_of s t)) \<and> (\<nexists>s'. queue_work 0 s s')"
proof -
  define es where "es =
    [Call 1 (CSubmit 0 0), Call 1 CSend, Writer 0 VClose, Writer 0 VShut, Writer 0 VStep, Call 1 CDead, Call 1 CDrain, Call 1 CPut,
     Call 2 (CSubmit 0 0), Call 2 CSend, Call 2 CDead, Call 2 CDrain, Call 2 CPut, Writer 0 VStep, Writer 0 VStep, Writer 0 VStep]"
  have "\<exists>s. run_sched es init_wsys = Some s \<and> wc_writer (ws_conn s 0) = WDrainReply ErrConnClosed 2 (Some 0) \<and> ws_ch s 0 \<noteq> [] \<and>
     (\<forall>t. finished (phase_of s t))" by (simp add: es_def sched_defs)
  then obtain s where s: "run_sched es init_wsys = Some s" "wc_writer (ws_conn s 0) = WDrainReply ErrConnClosed 2 (Some 0)" "ws_ch s 0 \<noteq> []"
    "\<And>t. finished (phase_of s t)" by blast
  have "(queue_trans {0})\<^sup>*\<^sup>* init_wsys s" by (rule run_sched_reach [OF _ s(1)]) (simp add: es_def)
  moreover have "\<not> queue_work 0 s s'" for s'
  proof
    assume "queue_work 0 s s'"
    then show False
    proof cases
      case (call_work ev t)
      then show False using finished_rests [OF s(4) [of t] call_work(1)] by simp
    next
      case (writer_work ev)
      then show False using s(2,3) by (cases ev) auto
    qed
  qed
  ultimately show ?thesis using s(2-4) by blast
qed

end
