(* ===== verification/H2_Conn.thy ===== *)
theory H2_Conn
  imports H2_Writer
begin

text \<open>
  The connection proper (\<open>internal/h2/conn.go\<close>, up to SETTINGS): construction, stream identifiers,
  the stream registry, graceful drain, PING liveness and the peer's SETTINGS. Header decoding is in
  \<open>H2_Headers\<close>, inbound DATA, WINDOW_UPDATE and RST_STREAM in \<open>H2_Inbound\<close>.

  The registry maps stream identifiers to stream addresses; the stream objects live in \<open>mem\<close>. Times
  are nanoseconds, given to the operations that read the clock.
\<close>

section \<open>Definitions\<close>

definition PingInterval :: nat where
  "PingInterval = 30 * 10 ^ 9"

definition PingTimeout :: nat where
  "PingTimeout = 15 * 10 ^ 9"

definition New :: "H2Lib \<Rightarrow> ptr \<Rightarrow> uint32 \<Rightarrow> gerr + Conn" where
  "New L self maxConcurrentStreams =
     (let mcs = (if maxConcurrentStreams = 0 then DefaultMaxConcurrentStreams else maxConcurrentStreams);
          f = OSettings [(SettingMaxConcurrentStreams, mcs), (SettingMaxHeaderListSize, MaxHeaderListSize)]
      in case frWrite L [] f of
           Some e \<Rightarrow> Inl e
         | None \<Rightarrow> Inr (init_Conn self [f]))"

definition Conn_Close :: "Conn \<Rightarrow> Conn" where
  "Conn_Close c = c\<lparr>c_closed := True\<rparr>"

definition SetReadDeadline :: "nat \<Rightarrow> Conn \<Rightarrow> Conn" where
  "SetReadDeadline t c = c\<lparr>c_deadline := Some t\<rparr>"

definition MaxFrameSize :: "Conn \<Rightarrow> uint32" where
  "MaxFrameSize c = (let v = c_maxFrameSize c in if v = 0 then 16384 else v)"

definition NextStreamID :: "Conn \<Rightarrow> uint32 \<times> Conn" where
  "NextStreamID c =
     (let n = (if c_nextStreamID c = 0 then 1 else c_nextStreamID c + 2)
      in (n, c\<lparr>c_nextStreamID := n\<rparr>))"

subsection \<open>Stream registry\<close>

definition Conn_AddStream :: "ptr \<Rightarrow> mem \<Rightarrow> Conn \<Rightarrow> Conn" where
  "Conn_AddStream p m c = c\<lparr>c_streams := AList.update (st_ID (m_stream m p)) p (c_streams c)\<rparr>"

definition GetStream :: "uint32 \<Rightarrow> Conn \<Rightarrow> ptr option" where
  "GetStream sid c = map_of (c_streams c) sid"

definition finishDrain :: "nat \<Rightarrow> Conn \<Rightarrow> Conn" where
  "finishDrain now c = (if c_drainDone c then c else c\<lparr>c_drainDone := True, c_deadline := Some now\<rparr>)"

definition RemoveStream :: "nat \<Rightarrow> uint32 \<Rightarrow> Conn \<Rightarrow> Conn" where
  "RemoveStream now sid c =
     (let c1 = c\<lparr>c_streams := AList.delete sid (c_streams c)\<rparr>;
          n = length (c_streams c1)
      in if n = 0 \<and> c_draining c1 then finishDrain now c1 else c1)"

definition ActiveStreams :: "Conn \<Rightarrow> nat" where
  "ActiveStreams c = length (c_streams c)"

definition FailAllStreams :: "gerr \<Rightarrow> Conn \<Rightarrow> mem \<Rightarrow> mem" where
  "FailAllStreams err c m = fold (\<lambda>(sid, p). mem_FailBody err p) (c_streams c) m"

definition activeStreamWindows :: "Conn \<Rightarrow> ptr list" where
  "activeStreamWindows c = map snd (c_streams c)"

subsection \<open>Graceful drain\<close>

definition BeginDrain :: "nat \<Rightarrow> Conn \<Rightarrow> Conn" where
  "BeginDrain now c =
     (let c1 = c\<lparr>c_draining := True, c_drainStarted := True\<rparr>
      in if length (c_streams c1) = 0 then finishDrain now c1 else c1)"

definition Draining :: "Conn \<Rightarrow> bool" where
  "Draining c = c_draining c"

definition DrainStarted :: "Conn \<Rightarrow> bool" where
  "DrainStarted c = c_drainStarted c"

definition DrainComplete :: "Conn \<Rightarrow> bool" where
  "DrainComplete c = c_drainDone c"

subsection \<open>PING liveness\<close>

definition PutUint64 :: "uint64 \<Rightarrow> byte list" where
  "PutUint64 v = map (\<lambda>i. ucast (drop_bit (8 * (7 - i)) v)) [0..<8]"

definition SendOrCheckPing :: "nat \<Rightarrow> Conn \<Rightarrow> gerr option \<times> Conn" where
  "SendOrCheckPing now c =
     (if c_pingPending c then
        (if c_pingDeadline c < now then (Some ErrPingTimeout, c) else (None, c))
      else
        let ctr = c_pingCounter c + 1; data = PutUint64 ctr;
            c1 = c\<lparr>c_pingCounter := ctr, c_pingPending := True, c_pingData := data,
                   c_pingDeadline := now + PingTimeout\<rparr>
        in (None, SendPing False data c1))"

definition HandlePingAck :: "byte list \<Rightarrow> Conn \<Rightarrow> Conn" where
  "HandlePingAck data c =
     (if c_pingPending c \<and> c_pingData c = data then c\<lparr>c_pingPending := False\<rparr> else c)"

subsection \<open>SETTINGS\<close>

definition windows :: "mem \<Rightarrow> ptr \<Rightarrow> int32" where
  "windows m p = st_SendWindow (m_stream m p)"

definition set_windows :: "(ptr \<Rightarrow> int32) \<Rightarrow> mem \<Rightarrow> mem" where
  "set_windows W m = m\<lparr>m_stream := \<lambda>p. (m_stream m p)\<lparr>st_SendWindow := W p\<rparr>\<rparr>"

text \<open>The callback \<open>ForeachSetting\<close> runs on each setting.\<close>

definition apply_setting :: "setting \<Rightarrow> Conn \<times> mem \<Rightarrow> gerr option \<times> Conn \<times> mem" where
  "apply_setting s = (\<lambda>(c, m).
     case fst s of
       SettingMaxFrameSize \<Rightarrow>
         if snd s < 16384 \<or> snd s > 16777215 then (Some ErrBadSettings, c, m)
         else (None, c\<lparr>c_maxFrameSize := snd s\<rparr>, m)
     | SettingInitialWindowSize \<Rightarrow>
         if snd s > 2 ^ 31 - 1 then (Some ErrBadSettings, c, m)
         else (let (_, sc, W) = ApplyInitialWindowDelta (c_Send c) (windows m) (snd s)
                     (activeStreamWindows c)
               in (None, c\<lparr>c_Send := sc\<rparr>, set_windows W m))
     | SettingHeaderTableSize \<Rightarrow> (None, SendSetMaxDynamicTableSize (snd s) c, m)
     | SettingMaxConcurrentStreams \<Rightarrow> (None, c\<lparr>c_peerMaxStreams := snd s\<rparr>, m)
     | SettingEnablePush \<Rightarrow>
         if snd s > 1 then (Some ErrBadSettings, c, m) else (None, c, m)
     | _ \<Rightarrow> (None, c, m))"

fun ApplyPeerSettings :: "setting list \<Rightarrow> Conn \<times> mem \<Rightarrow> gerr option \<times> Conn \<times> mem" where
  "ApplyPeerSettings [] s = (None, s)"
| "ApplyPeerSettings (x # xs) s =
     (case apply_setting x s of
        (None, s') \<Rightarrow> ApplyPeerSettings xs s'
      | (Some e, s') \<Rightarrow> (Some e, s'))"

definition PeerMaxStreams :: "Conn \<Rightarrow> uint32" where
  "PeerMaxStreams c = c_peerMaxStreams c"

definition SetIdleDeadline :: "nat \<Rightarrow> Conn \<Rightarrow> Conn" where
  "SetIdleDeadline now c = SetReadDeadline (now + PingInterval) c"

definition IsNetTimeout :: "gerr option \<Rightarrow> bool" where
  "IsNetTimeout err = (err = Some ErrNetTimeout)"

section \<open>Specification\<close>

text \<open>
  The invariant of a connection and the streams it references: the registry is a map without
  duplicate keys or addresses, every registered stream knows its identifier; the peer's frame size is
  in the legal range; the name caches are right; and the drain flags agree with the registry.
\<close>

definition registry_ok :: "Conn \<Rightarrow> mem \<Rightarrow> bool" where
  "registry_ok c m \<longleftrightarrow>
     keys_distinct (c_streams c) \<and> distinct (map snd (c_streams c)) \<and>
     (\<forall>sid p. (sid, p) \<in> set (c_streams c) \<longrightarrow> st_ID (m_stream m p) = sid)"

definition drain_ok :: "Conn \<Rightarrow> bool" where
  "drain_ok c \<longleftrightarrow>
     c_drainStarted c = c_draining c \<and> (c_drainDone c \<longrightarrow> c_draining c) \<and>
     (c_draining c \<and> c_streams c = [] \<longrightarrow> c_drainDone c)"

definition conn_ok :: "Conn \<Rightarrow> bool" where
  "conn_ok c \<longleftrightarrow>
     16384 \<le> unat (c_maxFrameSize c) \<and> unat (c_maxFrameSize c) \<le> 16777215 \<and>
     cache_ok ToLower (c_lowerNames c) \<and>
     cache_ok CanonicalMIMEHeaderKey (c_canonNames c) \<and>
     0 \<le> sint (PeerInitWindow (c_Send c))"

text \<open>The registry operations of a connection, as events.\<close>

datatype reg_event = RegAdd mem ptr | RegRemove nat uint32 | RegDrain nat

fun reg_step :: "reg_event \<Rightarrow> Conn \<Rightarrow> Conn" where
  "reg_step (RegAdd m p) c = Conn_AddStream p m c"
| "reg_step (RegRemove now sid) c = RemoveStream now sid c"
| "reg_step (RegDrain now) c = BeginDrain now c"

text \<open>A setting the program accepts (RFC 9113 6.5.2).\<close>

fun legal_setting :: "setting \<Rightarrow> bool" where
  "legal_setting (SettingMaxFrameSize, v) \<longleftrightarrow> 16384 \<le> unat v \<and> unat v \<le> 16777215"
| "legal_setting (SettingInitialWindowSize, v) \<longleftrightarrow> unat v \<le> 2 ^ 31 - 1"
| "legal_setting (SettingEnablePush, v) \<longleftrightarrow> unat v \<le> 1"
| "legal_setting _ \<longleftrightarrow> True"

text \<open>The identifiers of the next \<open>n\<close> streams a connection opens.\<close>

fun next_ids :: "nat \<Rightarrow> Conn \<Rightarrow> uint32 list" where
  "next_ids 0 c = []"
| "next_ids (Suc n) c = (let (i, c') = NextStreamID c in i # next_ids n c')"

text \<open>Memory before any stream was acquired.\<close>

definition empty_mem :: mem where
  "empty_mem = \<lparr>m_stream = \<lambda>_. new_Stream, m_streamPool = \<lparr>pfree = [], pfresh = 0\<rparr>,
                m_dataPool = \<lparr>dp_pool = \<lparr>pfree = [], pfresh = 0\<rparr>, dp_cap = \<lambda>_. 0\<rparr>,
                m_nextCtx = 0, m_cancelled = {}\<rparr>"

section \<open>Stream identifiers\<close>

lemma odd_id_nonzero: "(of_nat (2 * j + 1) :: uint32) \<noteq> 0"
proof -
  have "odd (unat (of_nat (2 * j + 1) :: uint32))"
    by (simp only: unat_of_nat) (simp add: even_iff_mod_2_eq_zero mod_mod_cancel)
  then show ?thesis by (metis even_zero unat_0)
qed

lemma next_ids_from:
  "c_nextStreamID c = of_nat (2 * j + 1) \<Longrightarrow>
     next_ids n c = map (\<lambda>i. of_nat (2 * i + 1)) [Suc j..<Suc j + n]"
proof (induction n arbitrary: c j)
  case (Suc n)
  have "NextStreamID c = (of_nat (2 * Suc j + 1), c\<lparr>c_nextStreamID := of_nat (2 * Suc j + 1)\<rparr>)"
    using Suc.prems odd_id_nonzero [of j] by (simp add: NextStreamID_def Let_def algebra_simps)
  moreover have "next_ids n (c\<lparr>c_nextStreamID := of_nat (2 * Suc j + 1)\<rparr>)
      = map (\<lambda>i. of_nat (2 * i + 1)) [Suc (Suc j)..<Suc (Suc j) + n]"
    by (rule Suc.IH) simp
  ultimately show ?case by (simp add: upt_conv_Cons del: upt_Suc)
qed simp

lemma next_ids_fresh:
  assumes "c_nextStreamID c = 0"
  shows "next_ids n c = map (\<lambda>i. of_nat (2 * i + 1)) [0..<n]"
proof (cases n)
  case (Suc k)
  have "NextStreamID c = (1, c\<lparr>c_nextStreamID := 1\<rparr>)"
    using assms by (simp add: NextStreamID_def Let_def)
  moreover have "next_ids k (c\<lparr>c_nextStreamID := 1\<rparr>) = map (\<lambda>i. of_nat (2 * i + 1)) [Suc 0..<Suc 0 + k]"
    by (rule next_ids_from) simp
  ultimately show ?thesis using Suc by (simp add: upt_conv_Cons del: upt_Suc)
qed simp

lemma unat_odd_id: "i < 2 ^ 31 \<Longrightarrow> unat (of_nat (2 * i + 1) :: uint32) = 2 * i + 1"
  by (simp only: unat_of_nat) simp

section \<open>Drain\<close>

lemma finishDrain_fields [simp]:
  "c_streams (finishDrain now c) = c_streams c" "c_draining (finishDrain now c) = c_draining c"
  "c_drainStarted (finishDrain now c) = c_drainStarted c" "c_drainDone (finishDrain now c)"
  by (simp_all add: finishDrain_def)

lemma alist_update_not_Nil [simp]: "AList.update k v m \<noteq> []"
  by (cases m) (auto split: prod.splits if_splits)

lemma reg_step_drain_ok: "drain_ok c \<Longrightarrow> drain_ok (reg_step e c)"
  by (cases e) (auto simp: drain_ok_def Conn_AddStream_def RemoveStream_def BeginDrain_def Let_def)

lemma reg_run_drain_ok: "drain_ok c \<Longrightarrow> drain_ok (fold reg_step es c)"
  by (induction es arbitrary: c) (simp_all add: reg_step_drain_ok)

section \<open>PING payloads\<close>

lemma PutUint64_inj: "PutUint64 a = PutUint64 b \<longleftrightarrow> a = b"
proof
  assume eq: "PutUint64 a = PutUint64 b"
  have "bit a n = bit b n" if "n < 64" for n
  proof -
    have i: "7 - n div 8 < 8" by simp
    have "(ucast (drop_bit (8 * (7 - (7 - n div 8))) a) :: byte)
        = ucast (drop_bit (8 * (7 - (7 - n div 8))) b)"
      using arg_cong [OF eq, of "\<lambda>xs. xs ! (7 - n div 8)"] i
      by (simp add: PutUint64_def del: upt_rec_numeral)
    moreover have "7 - (7 - n div 8) = n div 8" using that by simp
    ultimately have "bit (ucast (drop_bit (8 * (n div 8)) a) :: byte) (n mod 8)
        = bit (ucast (drop_bit (8 * (n div 8)) b) :: byte) (n mod 8)" by simp
    then show ?thesis by (simp add: bit_simps)
  qed
  then show "a = b" by (intro bit_word_eqI) simp
qed simp

lemma HandlePingAck_fold:
  assumes "c_pingPending c"
  shows "fold HandlePingAck acks c = (if c_pingData c \<in> set acks then c\<lparr>c_pingPending := False\<rparr> else c)"
proof -
  have idle: "\<not> c_pingPending c' \<Longrightarrow> fold HandlePingAck acks c' = c'" for c' acks
    by (induction acks) (simp_all add: HandlePingAck_def)
  show ?thesis using assms
    by (induction acks) (auto simp: HandlePingAck_def idle)
qed

section \<open>SETTINGS\<close>

lemma ApplyInitialWindowDelta_snd:
  "ApplyInitialWindowDelta sc W n ps = (b, sc', W') \<Longrightarrow>
     sc' = sc\<lparr>PeerInitWindow := n\<rparr> \<and> W' = add_delta (n - PeerInitWindow sc) ps W"
  using ApplyInitialWindowDelta_eq [of sc W n ps] by simp

lemma apply_setting_ok:
  assumes "conn_ok c" "apply_setting x (c, m) = (r, c', m')"
  shows "conn_ok c' \<and> (r = None \<longleftrightarrow> legal_setting x) \<and> (r = None \<or> r = Some ErrBadSettings)
       \<and> c_streams c' = c_streams c"
proof -
  obtain sid v where x: "x = (sid, v)" by (cases x)
  show ?thesis
  proof (cases sid)
    case SettingInitialWindowSize
    show ?thesis
    proof (cases "v > 2 ^ 31 - 1")
      case False
      then have "unat v < 2 ^ 31" by (simp add: word_less_nat_alt)
      then have "0 \<le> sint v" using sint_of_nat32 [of "unat v"] by simp
      then show ?thesis using assms x SettingInitialWindowSize False
        by (auto simp: apply_setting_def conn_ok_def word_less_nat_alt
            dest!: ApplyInitialWindowDelta_snd split: prod.splits)
    qed (use assms x SettingInitialWindowSize in \<open>auto simp: apply_setting_def word_less_nat_alt\<close>)
  qed (use assms x in \<open>auto simp: apply_setting_def conn_ok_def SendSetMaxDynamicTableSize_def
        submitAsync_def word_less_nat_alt split: if_splits\<close>)
qed

lemma ApplyPeerSettings_ok:
  assumes "conn_ok c" "ApplyPeerSettings xs (c, m) = (r, c', m')"
  shows "conn_ok c' \<and> (r = None \<longleftrightarrow> (\<forall>x \<in> set xs. legal_setting x))
       \<and> (r = None \<or> r = Some ErrBadSettings) \<and> c_streams c' = c_streams c"
  using assms
proof (induction xs arbitrary: c m)
  case (Cons x xs)
  obtain r1 c1 m1 where a: "apply_setting x (c, m) = (r1, c1, m1)" by (metis prod.exhaust)
  note ok = apply_setting_ok [OF Cons.prems(1) a]
  show ?case
  proof (cases r1)
    case None
    then have "ApplyPeerSettings xs (c1, m1) = (r, c', m')" using Cons.prems(2) a by simp
    from Cons.IH [OF _ this] ok None show ?thesis by auto
  next
    case (Some e)
    then show ?thesis using Cons.prems(2) a ok by auto
  qed
qed simp

lemma m_stream_set_windows [simp]:
  "m_stream (set_windows W m) p = (m_stream m p)\<lparr>st_SendWindow := W p\<rparr>"
  by (simp add: set_windows_def)

lemma set_windows_windows [simp]: "windows (set_windows W m) = W"
  by (simp add: windows_def fun_eq_iff)

lemma apply_setting_net:
  assumes "distinct (map snd (c_streams c))" "apply_setting x (c, m) = (r, c', m')"
  shows "(\<forall>p \<in> snd ` set (c_streams c). windows m' p - PeerInitWindow (c_Send c')
            = windows m p - PeerInitWindow (c_Send c))
       \<and> (\<forall>p. p \<notin> snd ` set (c_streams c) \<longrightarrow> m_stream m' p = m_stream m p)
       \<and> c_streams c' = c_streams c"
proof -
  obtain sid v where x: "x = (sid, v)" by (cases x)
  show ?thesis
  proof (cases sid)
    case SettingInitialWindowSize
    show ?thesis
    proof (cases "v > 2 ^ 31 - 1")
      case False
      obtain b sc W where a: "ApplyInitialWindowDelta (c_Send c) (windows m) v (activeStreamWindows c)
          = (b, sc, W)" by (metis prod.exhaust)
      then have "sc = (c_Send c)\<lparr>PeerInitWindow := v\<rparr>"
        and "W = (\<lambda>p. if p \<in> snd ` set (c_streams c) then windows m p + (v - PeerInitWindow (c_Send c))
                 else windows m p)"
        using ApplyInitialWindowDelta_snd [OF a] assms(1)
        by (simp_all add: activeStreamWindows_def add_delta_apply)
      then show ?thesis using assms x SettingInitialWindowSize False a
        by (auto simp: apply_setting_def windows_def) force
    qed (use assms x SettingInitialWindowSize in \<open>auto simp: apply_setting_def\<close>)
  qed (use assms x in \<open>auto simp: apply_setting_def SendSetMaxDynamicTableSize_def
        submitAsync_def split: if_splits\<close>)
qed

lemma ApplyPeerSettings_net:
  assumes "distinct (map snd (c_streams c))" "ApplyPeerSettings xs (c, m) = (r, c', m')"
  shows "(\<forall>p \<in> snd ` set (c_streams c). windows m' p - PeerInitWindow (c_Send c')
            = windows m p - PeerInitWindow (c_Send c))
       \<and> (\<forall>p. p \<notin> snd ` set (c_streams c) \<longrightarrow> m_stream m' p = m_stream m p)"
  using assms
proof (induction xs arbitrary: c m)
  case (Cons x xs)
  obtain r1 c1 m1 where a: "apply_setting x (c, m) = (r1, c1, m1)" by (metis prod.exhaust)
  note net = apply_setting_net [OF Cons.prems(1) a]
  show ?case
  proof (cases r1)
    case None
    then have "ApplyPeerSettings xs (c1, m1) = (r, c', m')" using Cons.prems(2) a by simp
    from Cons.IH [OF _ this] net Cons.prems(1) show ?thesis by auto
  next
    case (Some e)
    then show ?thesis using Cons.prems(2) a net by auto
  qed
qed simp

section \<open>Tear-down\<close>

lemma mem_FailBody_other: "p \<noteq> q \<Longrightarrow> m_stream (mem_FailBody e p m) q = m_stream m q"
  by (auto simp: mem_FailBody_def cancel_ctx_def Let_def split: prod.splits option.splits)

lemma mem_FailBody_same:
  "m_stream (mem_FailBody e p m) p = fst (FailBody e (m_stream m p))"
  "m_cancelled (mem_FailBody e p m) = m_cancelled m \<union> set_option (snd (FailBody e (m_stream m p)))"
  by (auto simp: mem_FailBody_def cancel_ctx_def Let_def split: prod.splits option.splits)

lemma fail_all_apply:
  assumes "distinct (map snd xs)"
  shows "m_stream (fold (\<lambda>(sid, p). mem_FailBody e p) xs m) q =
           (if q \<in> snd ` set xs then fst (FailBody e (m_stream m q)) else m_stream m q)
       \<and> m_cancelled (fold (\<lambda>(sid, p). mem_FailBody e p) xs m) =
           m_cancelled m \<union> (\<Union>p \<in> snd ` set xs. set_option (snd (FailBody e (m_stream m p))))"
  using assms
proof (induction xs arbitrary: m)
  case (Cons x xs)
  obtain sid p where x: "x = (sid, p)" by (cases x)
  have "p \<notin> snd ` set xs" "distinct (map snd xs)" using Cons.prems x by auto
  then have "m_stream (mem_FailBody e p m) r = m_stream m r" if "r \<in> snd ` set xs" for r
    using that by (metis mem_FailBody_other)
  then have "(\<Union>r \<in> snd ` set xs. set_option (snd (FailBody e (m_stream (mem_FailBody e p m) r))))
      = (\<Union>r \<in> snd ` set xs. set_option (snd (FailBody e (m_stream m r))))" by (intro SUP_cong) simp_all
  moreover have "p = q \<or> m_stream (mem_FailBody e p m) q = m_stream m q" by (metis mem_FailBody_other)
  ultimately show ?case using Cons.IH [of "mem_FailBody e p m"] \<open>distinct (map snd xs)\<close> \<open>p \<notin> snd ` set xs\<close>
    by (auto simp: x mem_FailBody_same)
qed simp

section \<open>Properties\<close>

text \<open>
  The identifiers the proxy gives to new streams are 1, 3, 5, ...: odd as RFC 9113 5.1.1 requires
  of a client, strictly increasing, never reused and within 31 bits for the first 2^30 streams.
\<close>

lemma stream_ids_odd_increasing:
  assumes "c_nextStreamID c = 0" "n \<le> 2 ^ 30"
  shows "map unat (next_ids n c) = map (\<lambda>i. 2 * i + 1) [0..<n]
       \<and> sorted_wrt (<) (next_ids n c) \<and> (\<forall>i \<in> set (next_ids n c). odd (unat i) \<and> unat i < 2 ^ 31)"
proof -
  have m: "map unat (next_ids n c) = map (\<lambda>i. 2 * i + 1) [0..<n]"
    using assms(2) unfolding next_ids_fresh [OF assms(1)] map_map comp_def
    by (intro map_cong refl unat_odd_id) simp
  then have "sorted_wrt (<) (map unat (next_ids n c))" by (simp add: sorted_wrt_iff_nth_less)
  then have "sorted_wrt (<) (next_ids n c)" by (simp add: sorted_wrt_iff_nth_less word_less_nat_alt)
  moreover have "odd (unat i) \<and> unat i < 2 ^ 31" if "i \<in> set (next_ids n c)" for i
  proof -
    have "unat i \<in> set (map unat (next_ids n c))" using that by simp
    then show ?thesis unfolding m using assms(2) by auto
  qed
  ultimately show ?thesis using m by blast
qed





text \<open>
  C32. SETTINGS are validated before they take effect. The frame is accepted exactly when every
  setting is legal, the only error is the one that tears the connection down, and in every case the
  connection's invariant survives: the frame size stays in 16384..16777215 and the peer's initial
  window never becomes negative.
\<close>

theorem settings_validated:
  assumes "conn_ok c" "ApplyPeerSettings xs (c, m) = (r, c', m')"
  shows "conn_ok c' \<and> (r = None \<longleftrightarrow> (\<forall>x \<in> set xs. legal_setting x))
       \<and> (r = None \<or> r = Some ErrBadSettings) \<and> MaxFrameSize c' = c_maxFrameSize c'"
proof -
  note ok = ApplyPeerSettings_ok [OF assms]
  then have "c_maxFrameSize c' \<noteq> 0" by (auto simp: conn_ok_def)
  with ok show ?thesis by (auto simp: MaxFrameSize_def)
qed

lemma conn_ok_init [simp]: "conn_ok (init_Conn self w)"
  using cache_ok_init
  by (simp add: conn_ok_def init_Conn_def fresh_credit_def DefaultInitialWindow_def)

theorem settings_validated_witness:
  "fst (ApplyPeerSettings [(SettingMaxFrameSize, 20000), (SettingEnablePush, 2)] (init_Conn 0 [], empty_mem))
     = Some ErrBadSettings"
proof -
  obtain r c' m' where a: "ApplyPeerSettings [(SettingMaxFrameSize, 20000), (SettingEnablePush, 2)]
      (init_Conn 0 [], empty_mem) = (r, c', m')" by (metis prod.exhaust)
  have "r = Some ErrBadSettings" using settings_validated [OF conn_ok_init a] by auto
  then show ?thesis unfolding a by simp
qed

text \<open>
  A SETTINGS frame moves every open stream's send window along with the initial window (RFC 9113
  6.9.2): on each registered stream, the distance between its window and the peer's initial window, that
  is the credit it has gained by WINDOW_UPDATE less the bytes it has sent, is what it was before, even
  when the frame is rejected half way; streams outside the registry are not touched.
\<close>

lemma settings_keep_net_credit:
  assumes "registry_ok c m" "ApplyPeerSettings xs (c, m) = (r, c', m')"
  shows "(\<forall>sid p. GetStream sid c = Some p \<longrightarrow>
            windows m' p - InitialStreamWindow (c_Send c') = windows m p - InitialStreamWindow (c_Send c))
       \<and> (\<forall>p. p \<notin> set (activeStreamWindows c) \<longrightarrow> m_stream m' p = m_stream m p)"
proof -
  have "distinct (map snd (c_streams c))" using assms(1) by (simp add: registry_ok_def)
  note net = ApplyPeerSettings_net [OF this assms(2)]
  have "p \<in> snd ` set (c_streams c)" if "GetStream sid c = Some p" for sid p
    using that by (force simp: GetStream_def dest: map_of_SomeD)
  with net show ?thesis by (auto simp: InitialStreamWindow_def activeStreamWindows_def)
qed

text \<open>
  Tear-down releases every handler: after \<open>FailAllStreams\<close> each registered stream's body has
  ended (with the error unless an earlier one was recorded), its request context is cancelled, and the
  bytes already received stay readable; streams outside the registry are not touched.
\<close>

lemma FailAllStreams_releases:
  assumes "registry_ok c m" "GetStream sid c = Some p" "p' \<notin> set (activeStreamWindows c)"
  shows "st_end (m_stream (FailAllStreams err c m) p)
           = Some (case st_dataErr (m_stream m p) of Some e \<Rightarrow> e | None \<Rightarrow> err)
       \<and> st_pending (m_stream (FailAllStreams err c m) p) = st_pending (m_stream m p)
       \<and> (\<forall>ctx. st_Cancel (m_stream m p) = Some ctx \<longrightarrow> ctx \<in> m_cancelled (FailAllStreams err c m))
       \<and> m_stream (FailAllStreams err c m) p' = m_stream m p'"
proof -
  have d: "distinct (map snd (c_streams c))" using assms(1) by (simp add: registry_ok_def)
  have p: "p \<in> snd ` set (c_streams c)"
    using assms(2) by (force simp: GetStream_def dest: map_of_SomeD)
  have s: "m_stream (FailAllStreams err c m) p = fst (FailBody err (m_stream m p))"
    "m_stream (FailAllStreams err c m) p' = m_stream m p'"
    using fail_all_apply [OF d, of err m] p assms(3) unfolding FailAllStreams_def
    by (auto simp: activeStreamWindows_def)
  have "set_option (snd (FailBody err (m_stream m p))) \<subseteq> m_cancelled (FailAllStreams err c m)"
    using fail_all_apply [OF d, of err m] p unfolding FailAllStreams_def by blast
  then show ?thesis
    by (auto simp: s FailBody_def st_end_def st_pending_def Let_def split: option.splits)
qed

end
