(* ===== verification/H2_Headers.thy ===== *)
theory H2_Headers
  imports H2_Conn
begin

text \<open>
  Inbound header blocks (\<open>internal/h2/conn.go\<close>: \<open>StartHeaders\<close>, \<open>ConsumeContinuation\<close>, \<open>decodeBlock\<close>,
  \<open>emitHeader\<close>). A HEADERS frame without END_HEADERS parks its fragment in the connection; the
  CONTINUATION frames complete it.

  The header map comes from a pool and is cleared before use; it is a value here, so decoding starts
  from the empty map. The result \<open>Inr None\<close> is the source's \<open>nil, nil\<close>: more fragments are to come.
\<close>

section \<open>Definitions\<close>

definition emitHeader :: "hfield \<Rightarrow> Conn \<Rightarrow> Conn" where
  "emitHeader hf c =
     (let name = fst hf; value = snd hf in
      if name = '':method'' then c\<lparr>c_scratchMethod := value\<rparr>
      else if name = '':path'' then c\<lparr>c_scratchPath := value\<rparr>
      else if name = '':authority'' then c\<lparr>c_scratchAuthority := value\<rparr>
      else if name = '':status'' then c\<lparr>c_scratchStatus := value\<rparr>
      else if name = '':scheme'' then c
      else
        let (canon, c1) = (case map_of (c_canonNames c) name of
                             Some canon \<Rightarrow> (canon, c)
                           | None \<Rightarrow> let canon = CanonicalMIMEHeaderKey name in
                               (canon, c\<lparr>c_canonNames := AList.update name canon (c_canonNames c)\<rparr>))
        in c1\<lparr>c_scratchHeader := header_append (c_scratchHeader c1) canon value\<rparr>)"

definition decodeBlock ::
  "H2Lib \<Rightarrow> uint32 \<Rightarrow> byte list \<Rightarrow> bool \<Rightarrow> Conn \<Rightarrow> (gerr + DecodedHeaders option) \<times> Conn" where
  "decodeBlock L streamID block streamEnded c =
     (let c1 = c\<lparr>c_scratchMethod := [], c_scratchPath := [], c_scratchAuthority := [],
                 c_scratchStatus := [], c_scratchHeader := []\<rparr>;
          (fs, ok) = hpWrite L (c_dec c1) block;
          c2 = fold emitHeader fs (c1\<lparr>c_dec := c_dec c1 @ [block]\<rparr>)
      in if \<not> ok then (Inl ErrHpackDecode, c2\<lparr>c_scratchHeader := []\<rparr>)
         else if \<not> hpClose L (c_dec c2) then (Inl ErrHpackDecode, c2\<lparr>c_scratchHeader := []\<rparr>)
         else (Inr (Some \<lparr>dh_Header = c_scratchHeader c2, dh_Method = c_scratchMethod c2,
                          dh_Path = c_scratchPath c2, dh_Authority = c_scratchAuthority c2,
                          dh_Status = c_scratchStatus c2, dh_StreamID = streamID,
                          dh_EndStream = streamEnded\<rparr>),
               c2\<lparr>c_scratchHeader := []\<rparr>))"

definition StartHeaders ::
  "H2Lib \<Rightarrow> uint32 \<Rightarrow> byte list \<Rightarrow> bool \<Rightarrow> bool \<Rightarrow> Conn \<Rightarrow> (gerr + DecodedHeaders option) \<times> Conn" where
  "StartHeaders L streamID frag headersEnded streamEnded c =
     (let c1 = (if streamID > c_LastStreamID c then c\<lparr>c_LastStreamID := streamID\<rparr> else c)
      in if headersEnded then decodeBlock L streamID frag streamEnded c1
         else (Inr None, c1\<lparr>c_contStreamID := streamID, c_contStreamEnded := streamEnded,
                           c_contBlock := frag\<rparr>))"

definition InContinuation :: "Conn \<Rightarrow> bool" where
  "InContinuation c \<longleftrightarrow> c_contStreamID c \<noteq> 0"

definition ContStreamID :: "Conn \<Rightarrow> uint32" where
  "ContStreamID c = c_contStreamID c"

definition ConsumeContinuation ::
  "H2Lib \<Rightarrow> byte list \<Rightarrow> bool \<Rightarrow> Conn \<Rightarrow> (gerr + DecodedHeaders option) \<times> Conn" where
  "ConsumeContinuation L frag headersEnded c =
     (if of_nat (length (c_contBlock c)) + of_nat (length frag) > MaxHeaderListSize
      then (Inl ErrHeaderListTooLarge, c)
      else
        let c1 = c\<lparr>c_contBlock := c_contBlock c @ frag\<rparr>
        in if \<not> headersEnded then (Inr None, c1)
           else decodeBlock L (c_contStreamID c1) (c_contBlock c1) (c_contStreamEnded c1)
                  (c1\<lparr>c_contStreamID := 0, c_contStreamEnded := False, c_contBlock := []\<rparr>))"

section \<open>Specification\<close>

text \<open>What a list of fields decodes to, without caches or scratch fields.\<close>

definition emit_spec :: "hfield \<Rightarrow> DecodedHeaders \<Rightarrow> DecodedHeaders" where
  "emit_spec hf d =
     (let name = fst hf; value = snd hf in
      if name = '':method'' then d\<lparr>dh_Method := value\<rparr>
      else if name = '':path'' then d\<lparr>dh_Path := value\<rparr>
      else if name = '':authority'' then d\<lparr>dh_Authority := value\<rparr>
      else if name = '':status'' then d\<lparr>dh_Status := value\<rparr>
      else if name = '':scheme'' then d
      else d\<lparr>dh_Header := header_append (dh_Header d) (CanonicalMIMEHeaderKey name) value\<rparr>)"

definition decode_spec :: "uint32 \<Rightarrow> bool \<Rightarrow> hfield list \<Rightarrow> DecodedHeaders" where
  "decode_spec sid es fs =
     fold emit_spec fs \<lparr>dh_Header = [], dh_Method = [], dh_Path = [], dh_Authority = [],
       dh_Status = [], dh_StreamID = sid, dh_EndStream = es\<rparr>"

definition scratch_of :: "uint32 \<Rightarrow> bool \<Rightarrow> Conn \<Rightarrow> DecodedHeaders" where
  "scratch_of sid es c =
     \<lparr>dh_Header = c_scratchHeader c, dh_Method = c_scratchMethod c, dh_Path = c_scratchPath c,
      dh_Authority = c_scratchAuthority c, dh_Status = c_scratchStatus c, dh_StreamID = sid,
      dh_EndStream = es\<rparr>"

text \<open>The part of a connection header decoding does not touch.\<close>

definition undecoded :: "Conn \<Rightarrow> Conn" where
  "undecoded c = c\<lparr>c_canonNames := [], c_dec := [], c_scratchHeader := [], c_scratchMethod := [],
     c_scratchPath := [], c_scratchAuthority := [], c_scratchStatus := []\<rparr>"

text \<open>A run of CONTINUATION frames, the last of which has END_HEADERS.\<close>

fun consume_all :: "H2Lib \<Rightarrow> byte list list \<Rightarrow> Conn \<Rightarrow> (gerr + DecodedHeaders option) \<times> Conn" where
  "consume_all L [] c = (Inr None, c)"
| "consume_all L (f # fs) c =
     (case ConsumeContinuation L f (fs = []) c of
        (Inr None, c') \<Rightarrow> consume_all L fs c'
      | res \<Rightarrow> res)"

text \<open>Any sequence of header frames, in any order a peer may send them.\<close>

datatype hdr_event = HStart uint32 "byte list" bool bool | HCont "byte list" bool

fun hdr_step :: "H2Lib \<Rightarrow> hdr_event \<Rightarrow> Conn \<Rightarrow> Conn" where
  "hdr_step L (HStart sid frag eh es) c = snd (StartHeaders L sid frag eh es c)"
| "hdr_step L (HCont frag eh) c = snd (ConsumeContinuation L frag eh c)"

fun hdr_frag :: "hdr_event \<Rightarrow> byte list" where
  "hdr_frag (HStart _ frag _ _) = frag"
| "hdr_frag (HCont frag _) = frag"

text \<open>
  An encoder and a decoder are in sync when the decoder was fed exactly the blocks the encoder
  produced, in order. HPACK (RFC 7541) promises that a decoder in sync with an encoder decodes its
  next block to the fields that were encoded.
\<close>

inductive in_sync :: "H2Lib \<Rightarrow> enc_op list \<Rightarrow> byte list list \<Rightarrow> bool" for L where
  in_sync_start: "in_sync L [] []"
| in_sync_table: "in_sync L enc dec \<Longrightarrow> in_sync L (enc @ [EncMaxTable v]) dec"
| in_sync_block: "in_sync L enc dec \<Longrightarrow> in_sync L (enc @ map EncField fs) (dec @ [enc_fields L enc fs])"

definition hpack_ok :: "H2Lib \<Rightarrow> bool" where
  "hpack_ok L \<longleftrightarrow> (\<forall>enc dec fs. in_sync L enc dec \<longrightarrow>
     hpWrite L dec (enc_fields L enc fs) = (fs, True) \<and> hpClose L (dec @ [enc_fields L enc fs]))"

text \<open>A header map as \<open>net/http\<close> keeps it: distinct canonical names that are no pseudo-headers, each
  with at least one value.\<close>

definition header_wf :: "header \<Rightarrow> bool" where
  "header_wf h \<longleftrightarrow> keys_distinct h \<and>
     (\<forall>(k, vv) \<in> set h. CanonicalMIMEHeaderKey (ToLower k) = k \<and> CHR '':'' \<notin> set k \<and> vv \<noteq> [])"

definition forwardable :: "header \<Rightarrow> header" where
  "forwardable h = filter (\<lambda>(k, vv). \<not> forbiddenForwardHeader (ToLower k)) h"

section \<open>Decoding\<close>

lemma emitHeader_spec:
  assumes "cache_ok CanonicalMIMEHeaderKey (c_canonNames c)"
  shows "scratch_of sid es (emitHeader f c) = emit_spec f (scratch_of sid es c)"
    "cache_ok CanonicalMIMEHeaderKey (c_canonNames (emitHeader f c))"
    "undecoded (emitHeader f c) = undecoded c" "c_dec (emitHeader f c) = c_dec c"
proof -
  have "map_of (c_canonNames c) (fst f) = Some k \<Longrightarrow> k = CanonicalMIMEHeaderKey (fst f)" for k
    using assms by (simp add: cache_ok_def)
  then show "scratch_of sid es (emitHeader f c) = emit_spec f (scratch_of sid es c)"
    by (auto simp: emitHeader_def emit_spec_def scratch_of_def Let_def split: option.splits)
  show "cache_ok CanonicalMIMEHeaderKey (c_canonNames (emitHeader f c))"
    using assms by (auto simp: emitHeader_def Let_def cache_ok_update split: option.splits)
  show "undecoded (emitHeader f c) = undecoded c" "c_dec (emitHeader f c) = c_dec c"
    by (auto simp: emitHeader_def undecoded_def Let_def split: option.splits)
qed

lemma emit_all_spec:
  assumes "cache_ok CanonicalMIMEHeaderKey (c_canonNames c)"
  shows "scratch_of sid es (fold emitHeader fs c) = fold emit_spec fs (scratch_of sid es c)
       \<and> cache_ok CanonicalMIMEHeaderKey (c_canonNames (fold emitHeader fs c))
       \<and> undecoded (fold emitHeader fs c) = undecoded c \<and> c_dec (fold emitHeader fs c) = c_dec c"
  using assms by (induction fs arbitrary: c) (simp_all add: emitHeader_spec)

lemma decodeBlock_spec:
  assumes "cache_ok CanonicalMIMEHeaderKey (c_canonNames c)"
    "decodeBlock L sid block es c = (r, c')"
  shows "r = (if snd (hpWrite L (c_dec c) block) \<and> hpClose L (c_dec c @ [block])
              then Inr (Some (decode_spec sid es (fst (hpWrite L (c_dec c) block))))
              else Inl ErrHpackDecode)"
    "cache_ok CanonicalMIMEHeaderKey (c_canonNames c')" "c_dec c' = c_dec c @ [block]"
    "undecoded c' = undecoded c"
proof -
  let ?c1 = "c\<lparr>c_scratchMethod := [], c_scratchPath := [], c_scratchAuthority := [],
              c_scratchStatus := [], c_scratchHeader := [], c_dec := c_dec c @ [block]\<rparr>"
  obtain fs ok where w: "hpWrite L (c_dec c) block = (fs, ok)" by (metis prod.exhaust)
  let ?c2 = "fold emitHeader fs ?c1"
  have "cache_ok CanonicalMIMEHeaderKey (c_canonNames ?c1)" using assms(1) by simp
  from emit_all_spec [OF this, of sid es fs]
  have s: "scratch_of sid es ?c2 = decode_spec sid es fs"
    "cache_ok CanonicalMIMEHeaderKey (c_canonNames ?c2)" "undecoded ?c2 = undecoded c"
    "c_dec ?c2 = c_dec c @ [block]"
    by (simp_all add: scratch_of_def decode_spec_def undecoded_def)
  have d: "decodeBlock L sid block es c =
      (if ok \<and> hpClose L (c_dec c @ [block]) then Inr (Some (scratch_of sid es ?c2)) else Inl ErrHpackDecode,
       ?c2\<lparr>c_scratchHeader := []\<rparr>)"
    using s(4) by (simp add: decodeBlock_def w scratch_of_def Let_def)
  show "r = (if snd (hpWrite L (c_dec c) block) \<and> hpClose L (c_dec c @ [block])
              then Inr (Some (decode_spec sid es (fst (hpWrite L (c_dec c) block))))
              else Inl ErrHpackDecode)"
    using assms(2) unfolding d s(1) w by auto
  show "cache_ok CanonicalMIMEHeaderKey (c_canonNames c')" "c_dec c' = c_dec c @ [block]"
    using assms(2) d s(2,4) by auto
  show "undecoded c' = undecoded c" using assms(2) d s(3) by (auto simp: undecoded_def)
qed

section \<open>Reassembly\<close>

lemma StartHeaders_decode:
  "StartHeaders L sid frag True es c =
     decodeBlock L sid frag es (if sid > c_LastStreamID c then c\<lparr>c_LastStreamID := sid\<rparr> else c)"
  by (simp add: StartHeaders_def Let_def)

lemma cont_total:
  assumes "a + b \<le> unat MaxHeaderListSize"
  shows "\<not> (of_nat a + of_nat b > MaxHeaderListSize)"
proof -
  have "unat (of_nat (a + b) :: uint32) \<le> unat MaxHeaderListSize"
    using assms by (simp only: unat_of_nat unat_MaxHeaderListSize) simp
  then show ?thesis by (simp add: word_less_nat_alt not_less)
qed

lemma consume_all_spec:
  assumes "fs \<noteq> []" "length (c_contBlock c @ concat fs) \<le> unat MaxHeaderListSize"
  shows "consume_all L fs c =
    decodeBlock L (c_contStreamID c) (c_contBlock c @ concat fs) (c_contStreamEnded c)
      (c\<lparr>c_contStreamID := 0, c_contStreamEnded := False, c_contBlock := []\<rparr>)"
  using assms
proof (induction fs arbitrary: c)
  case (Cons f fs)
  then have t: "\<not> of_nat (length (c_contBlock c)) + of_nat (length f) > MaxHeaderListSize"
    by (intro cont_total) simp
  show ?case
  proof (cases fs)
    case Nil
    then show ?thesis using t
      by (simp add: ConsumeContinuation_def decodeBlock_def Let_def split: prod.splits)
  next
    case (Cons g gs)
    then have "consume_all L (f # fs) c = consume_all L fs (c\<lparr>c_contBlock := c_contBlock c @ f\<rparr>)"
      using t by (simp add: ConsumeContinuation_def)
    then show ?thesis using Cons.IH [of "c\<lparr>c_contBlock := c_contBlock c @ f\<rparr>"] Cons Cons.prems by simp
  qed
qed simp

lemma undecoded_cont: "undecoded c' = undecoded c \<Longrightarrow> c_contBlock c' = c_contBlock c"
  unfolding undecoded_def by (drule arg_cong [of _ _ c_contBlock]) simp

lemma decodeBlock_contBlock:
  assumes "cache_ok CanonicalMIMEHeaderKey (c_canonNames c)"
  shows "c_contBlock (snd (decodeBlock L sid block es c)) = c_contBlock c"
    "cache_ok CanonicalMIMEHeaderKey (c_canonNames (snd (decodeBlock L sid block es c)))"
  using decodeBlock_spec [OF assms, of L sid block es] undecoded_cont
  by (metis prod.collapse)+

lemma hdr_step_bounded:
  assumes "cache_ok CanonicalMIMEHeaderKey (c_canonNames c)" "length (hdr_frag e) \<le> 16384"
    "length (c_contBlock c) \<le> unat MaxHeaderListSize"
  shows "cache_ok CanonicalMIMEHeaderKey (c_canonNames (hdr_step L e c))
       \<and> length (c_contBlock (hdr_step L e c)) \<le> unat MaxHeaderListSize"
proof (cases e)
  case (HStart sid frag eh es)
  then show ?thesis using assms
    by (auto simp: StartHeaders_def Let_def decodeBlock_contBlock MaxHeaderListSize_def)
next
  case (HCont frag eh)
  have "length (c_contBlock c) + length frag \<le> unat MaxHeaderListSize"
    if "\<not> of_nat (length (c_contBlock c)) + of_nat (length frag) > MaxHeaderListSize"
  proof -
    have "unat (of_nat (length (c_contBlock c) + length frag) :: uint32) \<le> unat MaxHeaderListSize"
      using that by (simp add: word_less_nat_alt not_less)
    moreover have "length (c_contBlock c) + length frag < 2 ^ 32"
      using assms HCont by (simp add: MaxHeaderListSize_def)
    ultimately show ?thesis by (simp add: unat_of_nat del: of_nat_add)
  qed
  then show ?thesis using assms HCont
    by (auto simp: ConsumeContinuation_def Let_def decodeBlock_contBlock)
qed

lemma hdr_run_bounded:
  "cache_ok CanonicalMIMEHeaderKey (c_canonNames c) \<Longrightarrow> (\<forall>e \<in> set es. length (hdr_frag e) \<le> 16384) \<Longrightarrow>
   length (c_contBlock c) \<le> unat MaxHeaderListSize \<Longrightarrow>
   length (c_contBlock (fold (hdr_step L) es c)) \<le> unat MaxHeaderListSize"
  by (induction es arbitrary: c) (simp_all add: hdr_step_bounded)

section \<open>Round trip\<close>

lemma alist_update_absent: "k \<notin> fst ` set m \<Longrightarrow> AList.update k v m = m @ [(k, v)]"
  by (induction m) auto

lemma alist_update_last: "k \<notin> fst ` set m \<Longrightarrow> AList.update k v (m @ [(k, u)]) = m @ [(k, v)]"
  by (induction m) auto

lemma header_append_values:
  assumes "k \<notin> fst ` set m"
  shows "fold (\<lambda>v h. header_append h k v) vv (m @ [(k, us)]) = m @ [(k, us @ vv)]"
proof (induction vv arbitrary: us)
  case (Cons v vv)
  have "map_of (m @ [(k, us)]) k = Some us"
    using assms by (induction m) auto
  then have "header_append (m @ [(k, us)]) k v = m @ [(k, us @ [v])]"
    using assms by (simp add: header_append_def alist_update_last)
  then show ?case using Cons.IH by simp
qed simp

lemma header_append_key:
  assumes "k \<notin> fst ` set m" "vv \<noteq> []"
  shows "fold (\<lambda>v h. header_append h k v) vv m = m @ [(k, vv)]"
proof -
  obtain v vs where vv: "vv = v # vs" using assms(2) by (cases vv) auto
  have "map_of m k = None" using assms(1) by (simp add: map_of_eq_None_iff)
  then have "header_append m k v = m @ [(k, [v])]"
    using assms(1) by (simp add: header_append_def alist_update_absent)
  then show ?thesis using header_append_values [OF assms(1)] vv by simp
qed

lemma not_pseudo:
  assumes "CHR '':'' \<notin> set k"
  shows "ToLower k \<noteq> '':method''" "ToLower k \<noteq> '':path''" "ToLower k \<noteq> '':authority''"
    "ToLower k \<noteq> '':status''" "ToLower k \<noteq> '':scheme''"
proof -
  have "lowerChar c = CHR '':'' \<Longrightarrow> c = CHR '':''" for c
    unfolding lowerChar_def isUpper_def
    by (auto split: if_splits dest!: arg_cong [of _ _ "of_char :: char \<Rightarrow> nat"])
  then have "CHR '':'' \<notin> set (ToLower k)" using assms unfolding ToLower_map set_map by (metis imageE)
  then show "ToLower k \<noteq> '':method''" "ToLower k \<noteq> '':path''" "ToLower k \<noteq> '':authority''"
    "ToLower k \<noteq> '':status''" "ToLower k \<noteq> '':scheme''" by auto
qed

lemma emit_values:
  assumes "CHR '':'' \<notin> set k"
  shows "fold emit_spec (map (Pair (ToLower k)) vv) d =
    d\<lparr>dh_Header := fold (\<lambda>v h. header_append h (CanonicalMIMEHeaderKey (ToLower k)) v) vv (dh_Header d)\<rparr>"
  by (induction vv arbitrary: d) (simp_all add: emit_spec_def not_pseudo [OF assms] Let_def)

lemma emit_regular:
  assumes "header_wf h" "fst ` set h \<inter> fst ` set (dh_Header d) = {}"
  shows "fold emit_spec (regular_fields h) d = d\<lparr>dh_Header := dh_Header d @ forwardable h\<rparr>"
  using assms
proof (induction h arbitrary: d)
  case (Cons kv h)
  obtain k vv where kv: "kv = (k, vv)" by (cases kv)
  have wf: "header_wf h" "CanonicalMIMEHeaderKey (ToLower k) = k" "CHR '':'' \<notin> set k" "vv \<noteq> []"
    "k \<notin> fst ` set h" "k \<notin> fst ` set (dh_Header d)" "fst ` set h \<inter> fst ` set (dh_Header d) = {}"
    using Cons.prems by (auto simp: header_wf_def kv)
  show ?case
  proof (cases "forbiddenForwardHeader (ToLower k)")
    case True
    then show ?thesis using Cons.IH [OF wf(1,7)] by (simp add: kv forwardable_def)
  next
    case False
    let ?d = "d\<lparr>dh_Header := dh_Header d @ [(k, vv)]\<rparr>"
    have "fold emit_spec (map (Pair (ToLower k)) vv) d = ?d"
      using emit_values [OF wf(3)] wf(2) header_append_key [OF wf(6,4)] by simp
    moreover have "fold emit_spec (regular_fields h) ?d = ?d\<lparr>dh_Header := dh_Header ?d @ forwardable h\<rparr>"
      using wf by (intro Cons.IH) auto
    ultimately show ?thesis using False by (simp add: kv forwardable_def)
  qed
qed (simp add: forwardable_def)

lemma decode_request:
  "header_wf h \<Longrightarrow> decode_spec sid es (request_fields method scheme authority path h) =
     \<lparr>dh_Header = forwardable h, dh_Method = method, dh_Path = path, dh_Authority = authority,
      dh_Status = [], dh_StreamID = sid, dh_EndStream = es\<rparr>"
  by (simp add: decode_spec_def request_fields_def emit_spec_def Let_def emit_regular)

lemma decode_response:
  "header_wf h \<Longrightarrow> decode_spec sid es (response_fields status h) =
     \<lparr>dh_Header = forwardable h, dh_Method = [], dh_Path = [], dh_Authority = [],
      dh_Status = Itoa status, dh_StreamID = sid, dh_EndStream = es\<rparr>"
  by (simp add: decode_spec_def response_fields_def emit_spec_def Let_def emit_regular)

text \<open>One header block sent by an idle writer and decoded by a peer in sync with it.\<close>

lemma block_roundtrip:
  assumes "hpack_ok L" "in_sync L (c_enc p) (c_dec w)" "c_writeQ p = []"
    "cache_ok ToLower (c_lowerNames p)" "cache_ok CanonicalMIMEHeaderKey (c_canonNames w)"
    "wi_kind i = wkReqHeaders \<or> wi_kind i = wkRespHeaders" "submit L i p = (None, p')"
  shows "\<exists>block w'. c_wire p' = c_wire p @ [OHeaders (wi_streamID i) block (wi_endStream i) True] \<and>
     StartHeaders L (wi_streamID i) block True (wi_endStream i) w =
       (Inr (Some (decode_spec (wi_streamID i) (wi_endStream i) (intent_fields i))), w') \<and>
     in_sync L (c_enc p') (c_dec w') \<and> cache_ok CanonicalMIMEHeaderKey (c_canonNames w')"
  using assms(4,7)
proof (cases rule: submit_cases)
  case (run k)
  let ?block = "enc_fields L (c_enc p) (intent_fields i)"
  let ?w = "if wi_streamID i > c_LastStreamID w then w\<lparr>c_LastStreamID := wi_streamID i\<rparr> else w"
  have wire: "c_wire p' = c_wire p @ [OHeaders (wi_streamID i) ?block (wi_endStream i) True]"
    using run assms(3,6) by (auto simp: intent_frames_def)
  have enc: "c_enc p' = c_enc p @ map EncField (intent_fields i)"
    using run assms(3,6) by (auto simp: intent_ops_def)
  have law: "hpWrite L (c_dec w) ?block = (intent_fields i, True)" "hpClose L (c_dec w @ [?block])"
    using assms(1,2) by (auto simp: hpack_ok_def)
  obtain r w' where d: "decodeBlock L (wi_streamID i) ?block (wi_endStream i) ?w = (r, w')"
    by (metis prod.exhaust)
  have "cache_ok CanonicalMIMEHeaderKey (c_canonNames ?w)" "c_dec ?w = c_dec w" using assms(5) by auto
  with decodeBlock_spec [OF _ d] law
  have "r = Inr (Some (decode_spec (wi_streamID i) (wi_endStream i) (intent_fields i)))"
    "c_dec w' = c_dec w @ [?block]" "cache_ok CanonicalMIMEHeaderKey (c_canonNames w')" by auto
  with wire enc d in_sync_block [OF assms(2), of "intent_fields i"] show ?thesis
    by (auto simp: StartHeaders_decode)
qed simp

lemma literal_enc: "enc_fields literal_lib hist fs = concat (map lit_field fs)"
  by (induction fs arbitrary: hist) (simp_all add: literal_lib_def)

lemma hpack_ok_literal: "hpack_ok literal_lib"
  unfolding hpack_ok_def literal_enc
  by (simp add: literal_lib_def lit_parse_fields length_lit_fields)

text \<open>
  A request survives the tunnel. If the peer's HPACK decoder is in sync with the proxy's encoder,
  the HEADERS frame \<open>SendRequestHeaders\<close> puts on the wire decodes, at the other end, to the same
  stream, method, path, authority, END_STREAM flag and header map, less the connection-specific
  headers; and encoder and decoder are in sync again afterwards.
\<close>

lemma request_headers_roundtrip:
  assumes "hpack_ok L" "in_sync L (c_enc p) (c_dec w)" "c_writeQ p = []" "conn_ok p" "conn_ok w"
    "header_wf h" "SendRequestHeaders L sid method scheme authority path h es p = (None, p')"
  shows "\<exists>block w'. c_wire p' = c_wire p @ [OHeaders sid block es True] \<and>
     StartHeaders L sid block True es w =
       (Inr (Some \<lparr>dh_Header = forwardable h, dh_Method = method, dh_Path = path,
          dh_Authority = authority, dh_Status = [], dh_StreamID = sid, dh_EndStream = es\<rparr>), w') \<and>
     in_sync L (c_enc p') (c_dec w')"
  using block_roundtrip [OF assms(1-3) _ _ _ assms(7) [unfolded SendRequestHeaders_def]] assms(4,5,6)
  by (auto simp: conn_ok_def intent_fields_def decode_request)

text \<open>
  A response survives the tunnel in the same way: the HEADERS frame \<open>SendResponseHeaders\<close> writes
  decodes to the same header map, less the connection-specific headers, and to a \<open>:status\<close> string from
  which \<open>Atoi\<close> recovers the status code.
\<close>

lemma response_headers_roundtrip:
  assumes "hpack_ok L" "in_sync L (c_enc w) (c_dec p)" "c_writeQ w = []" "conn_ok w" "conn_ok p"
    "header_wf h" "0 \<le> status" "status \<le> 999" "SendResponseHeaders L sid status h es w = (None, w')"
  shows "\<exists>block d p'. c_wire w' = c_wire w @ [OHeaders sid block es True] \<and>
     StartHeaders L sid block True es p = (Inr (Some d), p') \<and>
     dh_Header d = forwardable h \<and> Atoi (dh_Status d) = (status, True) \<and> dh_StreamID d = sid \<and>
     dh_EndStream d = es \<and> in_sync L (c_enc w') (c_dec p')"
proof -
  have "Atoi (Itoa status) = (status, True)" using assms(7,8) by (simp add: Atoi_Itoa)
  then show ?thesis
    using block_roundtrip [OF assms(1-3) _ _ _ assms(9) [unfolded SendResponseHeaders_def]] assms(4,5,6)
    by (auto simp: conn_ok_def intent_fields_def decode_response)
qed

section \<open>Properties\<close>

text \<open>
  C14. Fragmentation is invisible: a header block cut into a HEADERS frame and any number of
  CONTINUATION frames decodes to the same headers, and leaves the connection (decoder state, name
  cache and continuation state included) in the same state, as the block in one HEADERS frame, as
  long as it is within \<open>MaxHeaderListSize\<close>. One CONTINUATION that would exceed it is refused.
\<close>

theorem header_fragmentation:
  assumes "c_contBlock c = []" "c_contStreamID c = 0" "\<not> c_contStreamEnded c" "frags \<noteq> []"
    "length (frag @ concat frags) \<le> unat MaxHeaderListSize"
  shows "consume_all L frags (snd (StartHeaders L sid frag False es c))
           = StartHeaders L sid (frag @ concat frags) True es c
       \<and> (length extra < 2 ^ 31 \<and> length (frag @ extra) > unat MaxHeaderListSize \<longrightarrow>
            fst (ConsumeContinuation L extra eh (snd (StartHeaders L sid frag False es c)))
              = Inl ErrHeaderListTooLarge)"
proof -
  let ?c = "if sid > c_LastStreamID c then c\<lparr>c_LastStreamID := sid\<rparr> else c"
  let ?c1 = "snd (StartHeaders L sid frag False es c)"
  have c1: "?c1 = ?c\<lparr>c_contStreamID := sid, c_contStreamEnded := es, c_contBlock := frag\<rparr>"
    by (simp add: StartHeaders_def Let_def)
  have "?c1\<lparr>c_contStreamID := 0, c_contStreamEnded := False, c_contBlock := []\<rparr> = ?c"
    using assms(1-3) unfolding c1 by (cases c) auto
  then have "consume_all L frags ?c1 = StartHeaders L sid (frag @ concat frags) True es c"
    using consume_all_spec [OF assms(4), of ?c1 L] assms(5) by (simp add: c1 StartHeaders_decode)
  moreover have "fst (ConsumeContinuation L extra eh ?c1) = Inl ErrHeaderListTooLarge"
    if "length extra < 2 ^ 31" "length (frag @ extra) > unat MaxHeaderListSize"
  proof -
    have "unat (of_nat (length frag + length extra) :: uint32) > unat MaxHeaderListSize"
      using that assms(5) by (simp only: unat_of_nat unat_MaxHeaderListSize) simp
    then show ?thesis by (simp add: ConsumeContinuation_def c1 word_less_nat_alt)
  qed
  ultimately show ?thesis by blast
qed

theorem header_fragmentation_witness:
  "consume_all literal_lib [[65, 0, 1], [66, 0]] (snd (StartHeaders literal_lib 1 [1] False True (init_Conn 0 [])))
     = StartHeaders literal_lib 1 [1, 65, 0, 1, 66, 0] True True (init_Conn 0 [])"
  using header_fragmentation [of "init_Conn 0 []" "[[65, 0, 1], [66, 0]]" "[1]" literal_lib 1 True]
  by (simp add: init_Conn_def unat_MaxHeaderListSize)

text \<open>
  A peer cannot exhaust memory with CONTINUATION frames: whatever sequence of HEADERS and
  CONTINUATION frames it sends, each within the 16384 bytes the framer admits, the accumulated block
  never exceeds \<open>MaxHeaderListSize\<close>.
\<close>

lemma contBlock_bounded:
  assumes "conn_ok c" "c_contBlock c = []" "\<forall>e \<in> set es. length (hdr_frag e) \<le> 16384"
  shows "length (c_contBlock (fold (hdr_step L) es c)) \<le> unat MaxHeaderListSize"
  using assms by (intro hdr_run_bounded) (simp_all add: conn_ok_def)

end
