(* ===== verification/H2_Inbound.thy ===== *)
theory H2_Inbound
  imports H2_Headers
begin

text \<open>
  Inbound DATA, WINDOW_UPDATE and RST_STREAM (\<open>internal/h2/conn.go\<close>: \<open>HandleInboundData\<close>,
  \<open>HandleWindowUpdate\<close>, \<open>HandleRSTStream\<close>).

  Each handler looks the stream up under the registry lock, releases the lock, and then works on the
  pointer. The second half is a definition of its own (\<open>deliver_data\<close>, \<open>grant_stream\<close>, \<open>reset_stream\<close>),
  so that what other goroutines do in between can be put in between.
\<close>

section \<open>Definitions\<close>

text \<open>The part of \<open>HandleInboundData\<close> after the lookup found the stream at \<open>p\<close>; \<open>k\<close> is the choice of
  the buffer pool.\<close>

definition deliver_data :: "nat \<Rightarrow> byte list \<Rightarrow> bool \<Rightarrow> ptr \<Rightarrow> mem \<Rightarrow> mem" where
  "deliver_data k data endStream p m =
     (let m1 = (if 0 < length data then
                  let (bp, dp) = GetDataSlice k (length data) (m_dataPool m)
                  in mem_PushData p \<lparr>Bp = Some bp, Data = data\<rparr> (m\<lparr>m_dataPool := dp\<rparr>)
                else m)
      in if endStream then mem_CloseData p m1 else m1)"

definition HandleInboundData ::
  "nat \<Rightarrow> uint32 \<Rightarrow> byte list \<Rightarrow> uint32 \<Rightarrow> bool \<Rightarrow> Conn \<times> mem \<Rightarrow> Conn \<times> mem" where
  "HandleInboundData k streamID data flowLen endStream = (\<lambda>(c, m).
     let s = GetStream streamID c;
         c1 = (if 0 < flowLen then
                 let c' = SendWindowUpdate 0 flowLen c
                 in if s \<noteq> None then SendWindowUpdate streamID flowLen c' else c'
               else c)
     in case s of
          None \<Rightarrow> (if 0 < flowLen then SendRSTStream streamID ErrCodeStreamClosed c1 else c1, m)
        | Some p \<Rightarrow> (c1, deliver_data k data endStream p m))"

definition grant_stream :: "int32 \<Rightarrow> ptr \<Rightarrow> Conn \<Rightarrow> mem \<Rightarrow> mem" where
  "grant_stream inc p c m = set_windows (snd (SendCredit_AddStream (c_Send c) (windows m) p inc)) m"

definition HandleWindowUpdate :: "uint32 \<Rightarrow> int32 \<Rightarrow> Conn \<times> mem \<Rightarrow> Conn \<times> mem" where
  "HandleWindowUpdate streamID inc = (\<lambda>(c, m).
     if streamID = 0 then (c\<lparr>c_Send := snd (AddConn (c_Send c) inc)\<rparr>, m)
     else case GetStream streamID c of
            Some p \<Rightarrow> (c, grant_stream inc p c m)
          | None \<Rightarrow> (c, m))"

definition reset_stream :: "ptr \<Rightarrow> mem \<Rightarrow> mem" where
  "reset_stream p m = mem_FailBody ErrStreamReset p m"

definition HandleRSTStream :: "uint32 \<Rightarrow> Conn \<times> mem \<Rightarrow> Conn \<times> mem" where
  "HandleRSTStream streamID = (\<lambda>(c, m).
     case GetStream streamID c of
       Some p \<Rightarrow> (c, reset_stream p m)
     | None \<Rightarrow> (c, m))"

section \<open>Specification\<close>

text \<open>The window updates and resets an inbound DATA frame makes the connection queue.\<close>

definition update_intent :: "uint32 \<Rightarrow> uint32 \<Rightarrow> writeIntent" where
  "update_intent sid inc = zeroIntent\<lparr>wi_kind := wkWindowUpdate, wi_streamID := sid, wi_increment := inc\<rparr>"

definition rst_intent :: "uint32 \<Rightarrow> ErrCode \<Rightarrow> writeIntent" where
  "rst_intent sid code = zeroIntent\<lparr>wi_kind := wkRSTStream, wi_streamID := sid, wi_code := code\<rparr>"

section \<open>Lemmas\<close>

lemma deliver_data_same:
  assumes "stream_ok (m_stream m p)"
  shows "st_pending (m_stream (deliver_data k data es p m) p) = st_pending (m_stream m p) @ data"
    "st_end (m_stream (deliver_data k data es p m) p) =
       (if es then Some (case st_dataErr (m_stream m p) of Some e \<Rightarrow> e | None \<Rightarrow> EOF)
        else st_end (m_stream m p))"
    "st_ID (m_stream (deliver_data k data es p m) p) = st_ID (m_stream m p)"
proof -
  have "st_qHead (m_stream m p) \<le> length (st_queue (m_stream m p))"
    using assms by (simp add: stream_ok_def)
  then show "st_pending (m_stream (deliver_data k data es p m) p) = st_pending (m_stream m p) @ data"
    by (auto simp: deliver_data_def mem_PushData_def mem_CloseData_def PushData_def CloseData_def
        st_pending_def Let_def split: prod.splits)
  show "st_end (m_stream (deliver_data k data es p m) p) =
       (if es then Some (case st_dataErr (m_stream m p) of Some e \<Rightarrow> e | None \<Rightarrow> EOF)
        else st_end (m_stream m p))"
    "st_ID (m_stream (deliver_data k data es p m) p) = st_ID (m_stream m p)"
    by (auto simp: deliver_data_def mem_PushData_def mem_CloseData_def PushData_def CloseData_def
        st_end_def Let_def split: prod.splits)
qed

lemma deliver_data_other:
  "q \<noteq> p \<Longrightarrow> m_stream (deliver_data k data es p m) q = m_stream m q"
  by (auto simp: deliver_data_def mem_PushData_def mem_CloseData_def Let_def split: prod.splits)

text \<open>\<open>Release\<close> followed by \<open>Acquire\<close> hands the same object out again when the pool picks it.\<close>

lemma recycle_same:
  assumes "Acquire 0 sid conn w (Release p m) = (q, m')"
  shows "q = p \<and> m_stream m' p = fresh_stream sid conn w (m_nextCtx m)"
  using assms
  by (auto simp: Acquire_def Release_def pool_get_def pool_put_def fresh_stream_def Let_def put_all_def
      cancel_ctx_def split: prod.splits option.splits)

section \<open>Properties\<close>



text \<open>
  C37. RST_STREAM fails the body of the stream it names, with the bytes received so far still readable
  and the request context cancelled, and does nothing else: in particular the send windows and the
  connection's credit are what they were, so a writer of that stream that is parked in \<open>Reserve\<close> for
  want of credit stays parked.
\<close>

theorem rst_stream_effect:
  assumes "GetStream sid c = Some p" "HandleRSTStream sid (c, m) = (c', m')"
  shows "st_end (m_stream m' p) = Some (case st_dataErr (m_stream m p) of Some e \<Rightarrow> e | None \<Rightarrow> ErrStreamReset)
       \<and> st_pending (m_stream m' p) = st_pending (m_stream m p)
       \<and> (\<forall>ctx. st_Cancel (m_stream m p) = Some ctx \<longrightarrow> ctx \<in> m_cancelled m')
       \<and> (\<forall>q. q \<noteq> p \<longrightarrow> m_stream m' q = m_stream m q)
       \<and> (\<forall>q want es. Reserve (c_Send c') (windows m') q want es = Reserve (c_Send c) (windows m) q want es)"
proof -
  have h: "c' = c" "m' = mem_FailBody ErrStreamReset p m"
    using assms by (simp_all add: HandleRSTStream_def reset_stream_def)
  have "windows m' q = windows m q" for q
    unfolding windows_def h(2)
    by (cases "q = p") (simp_all add: mem_FailBody_same mem_FailBody_other FailBody_def)
  then have "windows m' = windows m" by blast
  then show ?thesis unfolding h(1)
    by (auto simp: h(2) mem_FailBody_same mem_FailBody_other FailBody_def st_end_def st_pending_def
        split: option.splits)
qed

theorem rst_stream_effect_witness:
  "st_end (m_stream (snd (HandleRSTStream 1 ((init_Conn 0 [])\<lparr>c_streams := [(1, 7)]\<rparr>, empty_mem))) 7)
     = Some ErrStreamReset"
proof -
  let ?c = "(init_Conn 0 [])\<lparr>c_streams := [(1, 7)]\<rparr>"
  obtain c' m' where h: "HandleRSTStream 1 (?c, empty_mem) = (c', m')" by (metis prod.exhaust)
  have "GetStream 1 ?c = Some 7" by (simp add: GetStream_def)
  from rst_stream_effect [OF this h] show ?thesis unfolding h by (simp add: empty_mem_def new_Stream_def)
qed

text \<open>
  Connection credit is not checked for overflow: an increment that takes the connection window
  past \<open>2^31 - 1\<close>, which RFC 9113 6.9.1 makes a FLOW_CONTROL_ERROR, is accepted and leaves the window
  negative, so that from then on every \<open>Reserve\<close> on the connection has to wait.
\<close>

lemma window_overflow_stalls:
  assumes "0 \<le> sint inc" "sint (ConnSendWindow (c_Send c)) + sint inc \<ge> 2 ^ 31"
    "\<not> sc_dead (c_Send c)" "0 < sint want" "HandleWindowUpdate 0 inc (c, m) = (c', m')"
  shows "sint (ConnSendWindow (c_Send c')) = sint (ConnSendWindow (c_Send c)) + sint inc - 2 ^ 32
       \<and> sint (ConnSendWindow (c_Send c')) < 0 \<and> Reserve (c_Send c') (windows m') p want [] = None"
proof -
  let ?a = "sint (ConnSendWindow (c_Send c))" and ?b = "sint inc"
  have c': "c_Send c' = (c_Send c)\<lparr>ConnSendWindow := ConnSendWindow (c_Send c) + inc\<rparr>"
    using assms(5) by (auto simp: HandleWindowUpdate_def AddConn_def)
  have "?a < 2 ^ 31" "?b < 2 ^ 31"
    using sint_lt [of "ConnSendWindow (c_Send c)"] sint_lt [of inc] by simp_all
  moreover have "sint (ConnSendWindow (c_Send c) + inc) = signed_take_bit 31 (?a + ?b)"
    by (simp add: sint_word_ariths)
  moreover have "signed_take_bit 31 (?a + ?b) = signed_take_bit 31 (?a + ?b - 2 ^ 32)"
    unfolding signed_take_bit_eq_iff_take_bit_eq by (simp add: take_bit_eq_mod)
  ultimately have s: "sint (ConnSendWindow (c_Send c')) = ?a + ?b - 2 ^ 32"
    using assms(2) unfolding c' by (simp add: signed_take_bit_int_eq_self)
  then have neg: "sint (ConnSendWindow (c_Send c')) < 0" using \<open>?a < 2 ^ 31\<close> \<open>?b < 2 ^ 31\<close> by simp
  have "reserve_attempt (initCond (c_Send c')) (windows m') p want = (MustWait, initCond (c_Send c'), windows m')"
    using assms(3) neg c'
    by (cases rule: reserve_attempt_cases [of "initCond (c_Send c')" "windows m'" p want])
      (auto simp: initCond_def)
  then have "Reserve (c_Send c') (windows m') p want [] = None"
    using assms(4) by (simp add: Reserve_def sle_sint)
  with s neg show ?thesis by blast
qed



end
