(* ===== verification/W_Response.thy ===== *)
theory W_Response
  imports H2_Inbound
begin

text \<open>
  The worker's \<open>http.ResponseWriter\<close> (\<open>writer.go\<close>).

  The state of a stream goroutine is a \<open>wstate\<close>: the response writer, the connection and the shared
  memory, and what the rest of the world will do: \<open>w_env\<close> is the sequence of flow-control events that
  arrive while a \<open>Write\<close> waits for credit, \<open>w_in\<close> the batches of request-body events (one batch per
  body read). \<open>w_sent\<close> is a record of the frames of this stream that were handed to the connection; no
  operation reads it.

  \<open>int64\<close> counters are integers: \<open>written\<close> never passes a declared length, which fits in 63 bits.
\<close>

section \<open>Definitions\<close>

definition ContentLength :: string where
  "ContentLength = ''Content-Length''"

record responseWriter =
  rw_err :: "gerr option"
  rw_stream :: ptr
  rw_declaredCL :: int
  rw_written :: int
  rw_status :: int
  rw_wroteHeaders :: bool
  rw_prepared :: bool
  rw_isHead :: bool
  rw_noBody :: bool
  rw_clViolated :: bool

datatype sent = SHeaders int header bool | SData "byte list" bool | SReset ErrCode

datatype inbound = InPush DataChunk | InClose | InFail gerr

record wstate =
  w_rw :: responseWriter
  w_conn :: Conn
  w_mem :: mem
  w_env :: "credit_event list"
  w_in :: "inbound list list"
  w_sent :: "sent list"

abbreviation w_stream :: "wstate \<Rightarrow> Stream" where
  "w_stream s \<equiv> m_stream (w_mem s) (rw_stream (w_rw s))"

abbreviation w_ID :: "wstate \<Rightarrow> uint32" where
  "w_ID s \<equiv> st_ID (w_stream s)"

abbreviation upd_rw :: "(responseWriter \<Rightarrow> responseWriter) \<Rightarrow> wstate \<Rightarrow> wstate" where
  "upd_rw f s \<equiv> s\<lparr>w_rw := f (w_rw s)\<rparr>"

definition new_responseWriter :: "ptr \<Rightarrow> bool \<Rightarrow> responseWriter" where
  "new_responseWriter p isHead =
     \<lparr>rw_err = None, rw_stream = p, rw_declaredCL = 0, rw_written = 0, rw_status = 0,
      rw_wroteHeaders = False, rw_prepared = False, rw_isHead = isHead, rw_noBody = False,
      rw_clViolated = False\<rparr>"

text \<open>The two ways a response writer hands frames to its connection.\<close>

definition rw_SendHeaders :: "H2Lib \<Rightarrow> int \<Rightarrow> header \<Rightarrow> bool \<Rightarrow> wstate \<Rightarrow> gerr option \<times> wstate" where
  "rw_SendHeaders L status h endStream s =
     (let (r, c) = SendResponseHeaders L (w_ID s) status h endStream (w_conn s)
      in (r, s\<lparr>w_conn := c, w_sent := (if r = None then w_sent s @ [SHeaders status h endStream] else w_sent s)\<rparr>))"

definition rw_SendData :: "H2Lib \<Rightarrow> byte list \<Rightarrow> bool \<Rightarrow> wstate \<Rightarrow> gerr option \<times> wstate" where
  "rw_SendData L data endStream s =
     (let (r, c) = SendData L (w_ID s) data endStream (w_conn s)
      in (r, s\<lparr>w_conn := c, w_sent := (if r = None then w_sent s @ [SData data endStream] else w_sent s)\<rparr>))"

definition rw_Header :: "wstate \<Rightarrow> header" where
  "rw_Header s = st_Header (w_stream s)"

definition set_Header :: "header \<Rightarrow> wstate \<Rightarrow> wstate" where
  "set_Header h s =
     s\<lparr>w_mem := upd_stream (rw_stream (w_rw s)) (\<lambda>st. st\<lparr>st_Header := h\<rparr>) (w_mem s)\<rparr>"

definition writeInformational :: "H2Lib \<Rightarrow> int \<Rightarrow> wstate \<Rightarrow> wstate" where
  "writeInformational L status s =
     (if status = 101 then s
      else
        let h = rw_Header s;
            h' = (if map_of h ContentLength \<noteq> None then Header_Del h ContentLength else h)
        in case rw_SendHeaders L status h' False s of
             (Some e, s') \<Rightarrow> upd_rw (\<lambda>rw. rw\<lparr>rw_err := Some e\<rparr>) s'
           | (None, s') \<Rightarrow> s')"

definition WriteHeader :: "H2Lib \<Rightarrow> int \<Rightarrow> wstate \<Rightarrow> wstate" where
  "WriteHeader L statusCode s =
     (if rw_prepared (w_rw s) \<or> rw_err (w_rw s) \<noteq> None then s
      else if statusCode \<ge> 100 \<and> statusCode \<le> 199 then
        (if rw_status (w_rw s) = 0 then writeInformational L statusCode s else s)
      else upd_rw (\<lambda>rw. rw\<lparr>rw_status := statusCode\<rparr>) s)"

definition bodyAllowedForStatus :: "int \<Rightarrow> bool" where
  "bodyAllowedForStatus status \<longleftrightarrow> status \<noteq> 204 \<and> status \<noteq> 304"

definition prepare :: "wstate \<Rightarrow> wstate" where
  "prepare s =
     (if rw_prepared (w_rw s) then s
      else
        let s1 = upd_rw (\<lambda>rw. rw\<lparr>rw_prepared := True\<rparr>) s;
            s2 = (if rw_status (w_rw s1) = 0 then upd_rw (\<lambda>rw. rw\<lparr>rw_status := 200\<rparr>) s1 else s1);
            s3 = upd_rw (\<lambda>rw. rw\<lparr>rw_noBody := rw_isHead rw \<or> \<not> bodyAllowedForStatus (rw_status rw)\<rparr>) s2;
            s4 = upd_rw (\<lambda>rw. rw\<lparr>rw_declaredCL := - 1\<rparr>) s3;
            cl = Header_Get (rw_Header s4) ContentLength
        in if cl \<noteq> [] then
             (case ParseUint 63 cl of
                Some v \<Rightarrow> upd_rw (\<lambda>rw. rw\<lparr>rw_declaredCL := int v\<rparr>) s4
              | None \<Rightarrow> set_Header (Header_Del (rw_Header s4) ContentLength) s4)
           else s4)"

definition writeHeaders :: "H2Lib \<Rightarrow> bool \<Rightarrow> wstate \<Rightarrow> gerr option \<times> wstate" where
  "writeHeaders L endStream s =
     (if rw_wroteHeaders (w_rw s) then (None, s)
      else
        let s1 = upd_rw (\<lambda>rw. rw\<lparr>rw_wroteHeaders := True\<rparr>) (prepare s)
        in case rw_SendHeaders L (rw_status (w_rw s1)) (rw_Header s1) endStream s1 of
             (Some e, s2) \<Rightarrow> (Some e, upd_rw (\<lambda>rw. rw\<lparr>rw_err := Some e\<rparr>) s2)
           | (None, s2) \<Rightarrow> (None, s2))"

definition Flush :: "H2Lib \<Rightarrow> wstate \<Rightarrow> wstate" where
  "Flush L s =
     (if rw_err (w_rw s) \<noteq> None then s
      else
        let s1 = prepare s
        in if rw_noBody (w_rw s1) then s1
           else
             let (r, s2) = (if \<not> rw_wroteHeaders (w_rw s1) then writeHeaders L False s1 else (None, s1))
             in case r of
                  Some e \<Rightarrow> upd_rw (\<lambda>rw. rw\<lparr>rw_err := Some e\<rparr>) s2
                | None \<Rightarrow>
                    (case rw_SendData L [] False s2 of
                       (Some e, s3) \<Rightarrow> upd_rw (\<lambda>rw. rw\<lparr>rw_err := Some e\<rparr>) s3
                     | (None, s3) \<Rightarrow> s3))"

text \<open>The loop of \<open>Write\<close>. \<open>None\<close> means that it does not return: it waits for credit that never comes,
  or it goes round for ever.\<close>

partial_function (option) write_loop ::
  "H2Lib \<Rightarrow> int32 \<Rightarrow> byte list \<Rightarrow> nat \<Rightarrow> wstate \<Rightarrow> ((nat \<times> gerr option) \<times> wstate) option" where
  "write_loop L maxFrame p tot s =
     (if p = [] then Some ((tot, None), s)
      else
        let want = min32 (of_nat (length p)) maxFrame
        in case Reserve (c_Send (w_conn s)) (windows (w_mem s)) (rw_stream (w_rw s)) want (w_env s) of
             None \<Rightarrow> None
           | Some ((got, dead), sc, W, es) \<Rightarrow>
               let s1 = s\<lparr>w_conn := (w_conn s)\<lparr>c_Send := sc\<rparr>, w_mem := set_windows W (w_mem s), w_env := es\<rparr>
               in if dead then
                    Some ((tot, Some ErrConnDead), upd_rw (\<lambda>rw. rw\<lparr>rw_err := Some ErrConnDead\<rparr>) s1)
                  else
                    (case rw_SendData L (take (unat got) p) False s1 of
                       (Some e, s2) \<Rightarrow> Some ((tot, Some e), upd_rw (\<lambda>rw. rw\<lparr>rw_err := Some e\<rparr>) s2)
                     | (None, s2) \<Rightarrow>
                         write_loop L maxFrame (drop (unat got) p) (tot + unat got)
                           (upd_rw (\<lambda>rw. rw\<lparr>rw_written := rw_written rw + sint got\<rparr>) s2)))"

definition rw_Write ::
  "H2Lib \<Rightarrow> byte list \<Rightarrow> wstate \<Rightarrow> ((nat \<times> gerr option) \<times> wstate) option" where
  "rw_Write L p s =
     (case rw_err (w_rw s) of
        Some e \<Rightarrow> Some ((0, Some e), s)
      | None \<Rightarrow>
          let s1 = prepare s
          in if rw_noBody (w_rw s1) then Some ((length p, None), s1)
             else
               let (r, s2) = (if \<not> rw_wroteHeaders (w_rw s1) then writeHeaders L False s1 else (None, s1))
               in case r of
                    Some e \<Rightarrow> Some ((0, Some e), s2)
                  | None \<Rightarrow>
                      if length p = 0 then Some ((0, None), s2)
                      else if rw_declaredCL (w_rw s2) \<ge> 0
                              \<and> rw_written (w_rw s2) + int (length p) > rw_declaredCL (w_rw s2) then
                        Some ((0, Some ErrContentLength),
                              upd_rw (\<lambda>rw. rw\<lparr>rw_clViolated := True, rw_err := Some ErrContentLength\<rparr>) s2)
                      else
                        let m = MaxFrameSize (w_conn s2);
                            maxFrame = (if m \<le>s 0 then 16384 else m)
                        in write_loop L maxFrame p 0 s2)"

definition endStream :: "H2Lib \<Rightarrow> wstate \<Rightarrow> gerr option \<times> wstate" where
  "endStream L s =
     (let s1 = prepare s in
      if \<not> rw_noBody (w_rw s1) \<and> rw_declaredCL (w_rw s1) \<ge> 0
         \<and> rw_written (w_rw s1) < rw_declaredCL (w_rw s1) then (Some ErrShortContentLength, s1)
      else if \<not> rw_wroteHeaders (w_rw s1) then writeHeaders L True s1
      else
        (case rw_SendData L [] True s1 of
           (Some e, s2) \<Rightarrow> (Some e, upd_rw (\<lambda>rw. rw\<lparr>rw_err := Some e\<rparr>) s2)
         | (None, s2) \<Rightarrow> (None, s2)))"

section \<open>Specification\<close>

text \<open>The Content-Length a header map declares, or -1.\<close>

definition declared :: "header \<Rightarrow> int" where
  "declared h = (case ParseUint 63 (Header_Get h ContentLength) of Some v \<Rightarrow> int v | None \<Rightarrow> - 1)"

text \<open>
  The frames of one response stream, as RFC 9113 8.1 allows them: interim HEADERS without
  Content-Length, one final HEADERS, DATA that never exceeds a declared length, and an end: END_STREAM
  (only when the declared length was met, or no body is allowed) or RST_STREAM. After END_STREAM only
  RST_STREAM(NO_ERROR) may follow.
\<close>

datatype rphase = RPre | RBody int int | REnd | RReset | RBad

fun resp_step :: "bool \<Rightarrow> rphase \<Rightarrow> sent \<Rightarrow> rphase" where
  "resp_step isHead RPre (SHeaders st h es) =
     (if 100 \<le> st \<and> st \<le> 199 then
        (if st \<noteq> 101 \<and> \<not> es \<and> map_of h ContentLength = None then RPre else RBad)
      else if es then
        (if isHead \<or> \<not> bodyAllowedForStatus st \<or> declared h \<le> 0 then REnd else RBad)
      else if isHead \<or> \<not> bodyAllowedForStatus st then RBad
      else RBody (declared h) 0)"
| "resp_step isHead RPre (SReset code) = RReset"
| "resp_step isHead (RBody d n) (SData bs es) =
     (let n' = n + int (length bs) in
      if 0 \<le> d \<and> n' > d then RBad
      else if es then (if d < 0 \<or> n' = d then REnd else RBad)
      else RBody d n')"
| "resp_step isHead (RBody d n) (SReset code) = RReset"
| "resp_step isHead REnd (SReset ErrCodeNo) = REnd"
| "resp_step isHead ph x = RBad"

definition resp_run :: "bool \<Rightarrow> sent list \<Rightarrow> rphase" where
  "resp_run isHead xs = foldl (resp_step isHead) RPre xs"

text \<open>The body bytes among the frames of a stream.\<close>

fun body_of :: "sent list \<Rightarrow> byte list" where
  "body_of [] = []"
| "body_of (SData bs es # xs) = bs @ body_of xs"
| "body_of (x # xs) = body_of xs"

text \<open>The intents that stand for the frames of a stream.\<close>

fun sent_intent :: "uint32 \<Rightarrow> sent \<Rightarrow> writeIntent" where
  "sent_intent sid (SHeaders st h es) =
     zeroIntent\<lparr>wi_kind := wkRespHeaders, wi_streamID := sid, wi_status := st, wi_header := h,
       wi_endStream := es\<rparr>"
| "sent_intent sid (SData bs es) =
     zeroIntent\<lparr>wi_kind := wkData, wi_streamID := sid, wi_data := bs, wi_endStream := es\<rparr>"
| "sent_intent sid (SReset code) = rst_intent sid code"

text \<open>The connection can no longer carry frames.\<close>

definition failed :: "Conn \<Rightarrow> bool" where
  "failed c \<longleftrightarrow> c_writeErr c \<noteq> None \<or> sc_dead (c_Send c)"

text \<open>The record \<open>w_sent\<close> is what the connection has committed to since it was \<open>c0\<close>.\<close>

definition wire_inv :: "H2Lib \<Rightarrow> Conn \<Rightarrow> uint32 \<Rightarrow> wstate \<Rightarrow> bool" where
  "wire_inv L c0 sid s \<longleftrightarrow>
     w_ID s = sid \<and> cache_ok ToLower (c_lowerNames (w_conn s)) \<and>
     (c_writeErr (w_conn s) = None \<longrightarrow>
        outgoing L (w_conn s) = outgoing L c0 @ frames_of L (enc_after c0) (map (sent_intent sid) (w_sent s)) \<and>
        enc_after (w_conn s) = enc_after c0 @ concat (map (intent_ops \<circ> sent_intent sid) (w_sent s)))"

text \<open>The response writer agrees with the frames sent so far.\<close>

definition rw_inv :: "wstate \<Rightarrow> bool" where
  "rw_inv s \<longleftrightarrow> (let rw = w_rw s in
     (rw_prepared rw \<longrightarrow> rw_noBody rw = (rw_isHead rw \<or> \<not> bodyAllowedForStatus (rw_status rw))) \<and>
     \<not> (100 \<le> rw_status rw \<and> rw_status rw \<le> 199) \<and>
     (rw_wroteHeaders rw \<longrightarrow> rw_prepared rw \<and> \<not> rw_noBody rw) \<and>
     (\<not> failed (w_conn s) \<longrightarrow>
        (rw_err rw \<noteq> None \<longleftrightarrow> rw_clViolated rw) \<and>
        (if rw_wroteHeaders rw
         then resp_run (rw_isHead rw) (w_sent s) = RBody (rw_declaredCL rw) (rw_written rw) \<and>
              (rw_declaredCL rw < 0 \<or> rw_written rw \<le> rw_declaredCL rw)
         else resp_run (rw_isHead rw) (w_sent s) = RPre \<and> rw_written rw = 0 \<and> \<not> rw_clViolated rw)))"

text \<open>Between operations, a response that may have a body has its headers on the wire as soon as its
  shape is resolved.\<close>

definition settled :: "wstate \<Rightarrow> bool" where
  "settled s \<longleftrightarrow> (rw_prepared (w_rw s) \<and> \<not> rw_noBody (w_rw s) \<longrightarrow> rw_wroteHeaders (w_rw s))"

definition evolves :: "wstate \<Rightarrow> wstate \<Rightarrow> bool" where
  "evolves s s' \<longleftrightarrow>
     rw_isHead (w_rw s') = rw_isHead (w_rw s) \<and> rw_stream (w_rw s') = rw_stream (w_rw s) \<and>
     c_streams (w_conn s') = c_streams (w_conn s) \<and> (failed (w_conn s) \<longrightarrow> failed (w_conn s'))"

section \<open>Sending\<close>

definition send :: "H2Lib \<Rightarrow> sent \<Rightarrow> wstate \<Rightarrow> gerr option \<times> wstate" where
  "send L x s =
     (let (r, c) = submit L (sent_intent (w_ID s) x) (w_conn s)
      in (r, s\<lparr>w_conn := c, w_sent := (if r = None then w_sent s @ [x] else w_sent s)\<rparr>))"

lemma rw_SendHeaders_send: "rw_SendHeaders L st h es s = send L (SHeaders st h es) s"
  by (simp add: rw_SendHeaders_def SendResponseHeaders_def send_def)

lemma rw_SendData_send: "rw_SendData L bs es s = send L (SData bs es) s"
  by (simp add: rw_SendData_def SendData_def send_def)

lemma resp_run_snoc [simp]: "resp_run isHead (xs @ [x]) = resp_step isHead (resp_run isHead xs) x"
  by (simp add: resp_run_def)

lemma resp_run_Nil [simp]: "resp_run isHead [] = RPre"
  by (simp add: resp_run_def)

lemma body_of_append [simp]: "body_of (xs @ ys) = body_of xs @ body_of ys"
  by (induction xs rule: body_of.induct) simp_all

lemma body_of_chunks [simp]: "body_of (map (\<lambda>c. SData c es) chunks) = concat chunks"
  by (induction chunks) simp_all

lemma evolves_refl [simp]: "evolves s s"
  by (simp add: evolves_def)

lemma evolves_trans: "evolves s s1 \<Longrightarrow> evolves s1 s2 \<Longrightarrow> evolves s s2"
  by (auto simp: evolves_def)

lemma send_frame:
  assumes "send L x s = (r, s')"
  shows "w_rw s' = w_rw s" "w_mem s' = w_mem s" "w_env s' = w_env s" "w_in s' = w_in s"
    "r = None \<Longrightarrow> w_sent s' = w_sent s @ [x]" "r \<noteq> None \<Longrightarrow> w_sent s' = w_sent s"
  using assms by (auto simp: send_def split: prod.splits)

lemma send_spec:
  assumes "wire_inv L c0 sid s" "send L x s = (r, s')"
  shows "wire_inv L c0 sid s'" "r \<noteq> None \<Longrightarrow> failed (w_conn s')" "evolves s s'"
    "c_Send (w_conn s') = c_Send (w_conn s)"
proof -
  obtain c where c: "submit L (sent_intent (w_ID s) x) (w_conn s) = (r, c)"
    "s' = s\<lparr>w_conn := c, w_sent := (if r = None then w_sent s @ [x] else w_sent s)\<rparr>"
    using assms(2) by (auto simp: send_def split: prod.splits)
  have cache: "cache_ok ToLower (c_lowerNames (w_conn s))" and sid: "w_ID s = sid"
    using assms(1) by (simp_all add: wire_inv_def)
  have f: "c_writeErr c = r \<and> c_streams c = c_streams (w_conn s) \<and> c_Send c = c_Send (w_conn s) \<and>
      cache_ok ToLower (c_lowerNames c) \<and> (c_writeErr (w_conn s) \<noteq> None \<longrightarrow> r \<noteq> None)"
    using cache c(1)
  proof (cases rule: submit_cases)
    case (run k)
    then show ?thesis using unowned_fields(2,8) [OF run(4)] by simp
  qed (use cache in auto)
  show "r \<noteq> None \<Longrightarrow> failed (w_conn s')" "evolves s s'" "c_Send (w_conn s') = c_Send (w_conn s)"
    using f c(2) by (auto simp: failed_def evolves_def)
  show "wire_inv L c0 sid s'"
  proof (cases r)
    case None
    with submit_outgoing [OF cache] c(1) f have
      "outgoing L c = outgoing L (w_conn s) @ intent_frames L (enc_after (w_conn s)) (sent_intent sid x)"
      "enc_after c = enc_after (w_conn s) @ intent_ops (sent_intent sid x)" "c_writeErr (w_conn s) = None"
      using sid by auto
    then show ?thesis using assms(1) f c(2) None
      by (simp add: wire_inv_def frames_of_append comp_def)
  next
    case (Some e)
    then show ?thesis using assms(1) f c(2) by (simp add: wire_inv_def)
  qed
qed

section \<open>Preparing\<close>

lemma canonical_CL [simp]: "CanonicalMIMEHeaderKey ContentLength = ContentLength"
  by (simp add: ContentLength_def CanonicalMIMEHeaderKey_def validHeaderFieldByte_def lowerChar_def
      upperChar_def isUpper_def isLower_def digit_val_def char_of_def bit_0 Let_def)

lemma Header_Del_CL [simp]: "map_of (Header_Del h ContentLength) ContentLength = None"
  by (simp add: Header_Del_def delete_conv')

lemma Header_Get_Del [simp]: "Header_Get (Header_Del h ContentLength) ContentLength = []"
  by (simp add: Header_Get_def)

lemma ParseUint_Nil [simp]: "ParseUint b [] = None"
  by (simp add: ParseUint_def)

lemma declared_Del [simp]: "declared (Header_Del h ContentLength) = - 1"
  by (simp add: declared_def)

text \<open>The header map \<open>prepare\<close> leaves: a Content-Length that does not parse is dropped.\<close>

definition cl_header :: "header \<Rightarrow> header" where
  "cl_header h =
     (if Header_Get h ContentLength \<noteq> [] \<and> ParseUint 63 (Header_Get h ContentLength) = None
      then Header_Del h ContentLength else h)"

lemma set_Header_simps [simp]:
  "w_rw (set_Header h s) = w_rw s" "w_conn (set_Header h s) = w_conn s" "w_env (set_Header h s) = w_env s"
  "w_in (set_Header h s) = w_in s" "w_sent (set_Header h s) = w_sent s" "rw_Header (set_Header h s) = h"
  "w_ID (set_Header h s) = w_ID s"
  by (simp_all add: set_Header_def rw_Header_def)

lemma set_Header_same: "set_Header (rw_Header s) s = s"
  by (simp add: set_Header_def rw_Header_def)

definition prepared_rw :: "header \<Rightarrow> responseWriter \<Rightarrow> responseWriter" where
  "prepared_rw h rw =
     (let st = (if rw_status rw = 0 then 200 else rw_status rw)
      in rw\<lparr>rw_prepared := True, rw_status := st, rw_noBody := (rw_isHead rw \<or> \<not> bodyAllowedForStatus st),
            rw_declaredCL := declared (cl_header h)\<rparr>)"

lemma rw_Header_upd [simp]:
  "rw_stream rw = rw_stream (w_rw s) \<Longrightarrow> rw_Header (s\<lparr>w_rw := rw\<rparr>) = rw_Header s"
  by (simp add: rw_Header_def)

lemma set_Header_none:
  "rw_stream rw = rw_stream (w_rw s) \<Longrightarrow> set_Header (rw_Header s) (s\<lparr>w_rw := rw\<rparr>) = s\<lparr>w_rw := rw\<rparr>"
  using set_Header_same [of "s\<lparr>w_rw := rw\<rparr>"] by simp

lemma prepare_shape:
  assumes "\<not> rw_prepared (w_rw s)"
  defines "s4 \<equiv> upd_rw (\<lambda>rw. (prepared_rw (rw_Header s) rw)\<lparr>rw_declaredCL := - 1\<rparr>) s"
  shows "prepare s = (if Header_Get (rw_Header s) ContentLength \<noteq> [] then
             (case ParseUint 63 (Header_Get (rw_Header s) ContentLength) of
                Some v \<Rightarrow> upd_rw (\<lambda>rw. rw\<lparr>rw_declaredCL := int v\<rparr>) s4
              | None \<Rightarrow> set_Header (Header_Del (rw_Header s) ContentLength) s4)
           else s4)"
proof (cases "rw_status (w_rw s) = 0")
  case True
  then have s4: "s4 = upd_rw (\<lambda>rw. rw\<lparr>rw_prepared := True, rw_status := 200,
      rw_noBody := rw_isHead rw \<or> \<not> bodyAllowedForStatus 200, rw_declaredCL := - 1\<rparr>) s"
    by (simp add: s4_def prepared_rw_def Let_def)
  show ?thesis unfolding s4 prepare_def by (simp add: assms(1) True) (simp add: Let_def split: option.split)
next
  case False
  then have s4: "s4 = upd_rw (\<lambda>rw. rw\<lparr>rw_prepared := True,
      rw_noBody := rw_isHead rw \<or> \<not> bodyAllowedForStatus (rw_status rw), rw_declaredCL := - 1\<rparr>) s"
    by (simp add: s4_def prepared_rw_def Let_def)
  show ?thesis unfolding s4 prepare_def by (simp add: assms(1) False) (simp add: Let_def split: option.split)
qed

lemma prepare_eq:
  assumes "\<not> rw_prepared (w_rw s)"
  shows "prepare s = set_Header (cl_header (rw_Header s)) (upd_rw (prepared_rw (rw_Header s)) s)"
proof (cases "Header_Get (rw_Header s) ContentLength = []")
  case True
  then show ?thesis unfolding prepare_shape [OF assms]
    by (simp add: cl_header_def set_Header_none prepared_rw_def declared_def Let_def)
next
  case False
  then show ?thesis unfolding prepare_shape [OF assms]
    by (cases "ParseUint 63 (Header_Get (rw_Header s) ContentLength)")
      (simp_all add: cl_header_def set_Header_none prepared_rw_def declared_def Let_def)
qed

lemma prepared_rw_simps [simp]:
  "rw_stream (prepared_rw h rw) = rw_stream rw" "rw_err (prepared_rw h rw) = rw_err rw"
  "rw_written (prepared_rw h rw) = rw_written rw" "rw_isHead (prepared_rw h rw) = rw_isHead rw"
  "rw_wroteHeaders (prepared_rw h rw) = rw_wroteHeaders rw" "rw_clViolated (prepared_rw h rw) = rw_clViolated rw"
  "rw_prepared (prepared_rw h rw)" "rw_declaredCL (prepared_rw h rw) = declared (cl_header h)"
  "rw_noBody (prepared_rw h rw) = (rw_isHead rw \<or> \<not> bodyAllowedForStatus (rw_status (prepared_rw h rw)))"
  "rw_status (prepared_rw h rw) = (if rw_status rw = 0 then 200 else rw_status rw)"
  by (simp_all add: prepared_rw_def Let_def)

lemma prepare_again [simp]: "rw_prepared (w_rw s) \<Longrightarrow> prepare s = s"
  by (simp add: prepare_def)

lemma prepare_frame [simp]:
  "w_conn (prepare s) = w_conn s" "w_env (prepare s) = w_env s" "w_in (prepare s) = w_in s"
  "w_sent (prepare s) = w_sent s" "rw_prepared (w_rw (prepare s))" "rw_err (w_rw (prepare s)) = rw_err (w_rw s)"
  "rw_wroteHeaders (w_rw (prepare s)) = rw_wroteHeaders (w_rw s)"
  "rw_isHead (w_rw (prepare s)) = rw_isHead (w_rw s)" "rw_stream (w_rw (prepare s)) = rw_stream (w_rw s)"
  "rw_written (w_rw (prepare s)) = rw_written (w_rw s)"
  "rw_clViolated (w_rw (prepare s)) = rw_clViolated (w_rw s)"
  by (cases "rw_prepared (w_rw s)"; simp add: prepare_eq)+

lemma prepare_ID [simp]: "st_ID (m_stream (w_mem (prepare s)) (rw_stream (w_rw s))) = w_ID s"
  by (cases "rw_prepared (w_rw s)") (simp_all add: prepare_eq set_Header_def)

lemma prepare_inv:
  assumes "rw_inv s" "wire_inv L c0 sid s"
  shows "rw_inv (prepare s)" "wire_inv L c0 sid (prepare s)" "evolves s (prepare s)"
    "\<not> rw_prepared (w_rw s) \<Longrightarrow> rw_declaredCL (w_rw (prepare s)) = declared (rw_Header (prepare s))"
proof -
  show "rw_inv (prepare s)"
    using assms(1) by (cases "rw_prepared (w_rw s)") (auto simp: rw_inv_def prepare_eq Let_def)
  show "wire_inv L c0 sid (prepare s)" using assms(2) by (simp add: wire_inv_def)
  show "evolves s (prepare s)" by (simp add: evolves_def)
  show "\<not> rw_prepared (w_rw s) \<Longrightarrow> rw_declaredCL (w_rw (prepare s)) = declared (rw_Header (prepare s))"
    by (simp add: prepare_eq)
qed

section \<open>Header operations\<close>

lemma WriteHeader_inv:
  assumes "rw_inv s" "wire_inv L c0 sid s" "settled s"
  shows "rw_inv (WriteHeader L st s)" "wire_inv L c0 sid (WriteHeader L st s)"
    "settled (WriteHeader L st s)" "evolves s (WriteHeader L st s)"
proof -
  let ?h = "rw_Header s"
  let ?h' = "if map_of ?h ContentLength \<noteq> None then Header_Del ?h ContentLength else ?h"
  let ?s' = "WriteHeader L st s"
  consider (ignored) "?s' = s" | (status) "?s' = upd_rw (\<lambda>rw. rw\<lparr>rw_status := st\<rparr>) s"
      "\<not> rw_prepared (w_rw s)" "\<not> (100 \<le> st \<and> st \<le> 199)"
    | (interim) "?s' = writeInformational L st s" "rw_err (w_rw s) = None" "\<not> rw_prepared (w_rw s)"
      "100 \<le> st" "st \<le> 199" "st \<noteq> 101"
  proof (cases "rw_prepared (w_rw s) \<or> rw_err (w_rw s) \<noteq> None")
    case True
    then show thesis by (intro ignored) (simp add: WriteHeader_def)
  next
    case False
    then have p: "\<not> rw_prepared (w_rw s)" "rw_err (w_rw s) = None" by auto
    show thesis
    proof (cases "100 \<le> st \<and> st \<le> 199 \<and> rw_status (w_rw s) = 0 \<and> st \<noteq> 101")
      case True
      then show thesis using p by (intro interim) (simp_all add: WriteHeader_def)
    next
      case False
      then show thesis using p
        by (cases "100 \<le> st \<and> st \<le> 199") (auto simp: WriteHeader_def writeInformational_def intro: ignored status)
    qed
  qed
  then have "rw_inv ?s' \<and> wire_inv L c0 sid ?s' \<and> settled ?s' \<and> evolves s ?s'"
  proof cases
    case ignored
    then show ?thesis using assms by simp
  next
    case status
    then show ?thesis using assms unfolding status(1)
      by (simp add: rw_inv_def wire_inv_def settled_def evolves_def Let_def)
  next
    case interim
    obtain r s1 where s1: "send L (SHeaders st ?h' False) s = (r, s1)" by (metis prod.exhaust)
    note sp = send_spec [OF assms(2) s1] and fr = send_frame [OF s1]
    have w: "?s' = (case r of Some e \<Rightarrow> upd_rw (\<lambda>rw. rw\<lparr>rw_err := Some e\<rparr>) s1 | None \<Rightarrow> s1)"
      using interim s1
      by (cases r) (simp_all add: writeInformational_def rw_SendHeaders_send Let_def)
    have nw: "\<not> rw_wroteHeaders (w_rw s)" using assms(1) interim(3) by (auto simp: rw_inv_def Let_def)
    show ?thesis
    proof (cases r)
      case None
      have "map_of ?h' ContentLength = None" by simp
      then have "resp_step isHead RPre (SHeaders st ?h' False) = RPre" for isHead
        using interim by simp
      moreover have "failed (w_conn s) \<Longrightarrow> failed (w_conn s1)" using sp(3) by (simp add: evolves_def)
      ultimately have "rw_inv s1"
        using assms(1) fr(1) fr(5) [OF None] nw unfolding rw_inv_def Let_def
        by (auto simp del: resp_step.simps)
      then show ?thesis using None w sp fr assms(3) by (simp add: settled_def)
    next
      case (Some e)
      then have f: "failed (w_conn s1)" using sp by simp
      then show ?thesis using Some w sp fr assms(1,3) nw
        by (simp add: settled_def rw_inv_def wire_inv_def evolves_def Let_def)
    qed
  qed
  then show "rw_inv ?s'" "wire_inv L c0 sid ?s'" "settled ?s'" "evolves s ?s'" by auto
qed

text \<open>The beginning that \<open>Write\<close> and \<open>Flush\<close> share: resolve the shape, then send the headers.\<close>

lemma start_body:
  assumes "rw_inv s" "wire_inv L c0 sid s" "settled s" "rw_err (w_rw s) = None"
    "\<not> rw_noBody (w_rw (prepare s))"
    "(if \<not> rw_wroteHeaders (w_rw (prepare s)) then writeHeaders L False (prepare s) else (None, prepare s)) = (r, s2)"
  shows "rw_inv s2" "wire_inv L c0 sid s2" "settled s2" "evolves s s2" "rw_wroteHeaders (w_rw s2)"
    "r = None \<Longrightarrow> rw_err (w_rw s2) = None" "r \<noteq> None \<Longrightarrow> failed (w_conn s2)"
    "body_of (w_sent s2) = body_of (w_sent s)"
proof -
  let ?p = "prepare s"
  note p = prepare_inv [OF assms(1,2)]
  have "rw_inv s2 \<and> wire_inv L c0 sid s2 \<and> settled s2 \<and> evolves s s2 \<and> rw_wroteHeaders (w_rw s2) \<and>
    (r = None \<longrightarrow> rw_err (w_rw s2) = None) \<and> (r \<noteq> None \<longrightarrow> failed (w_conn s2)) \<and>
    body_of (w_sent s2) = body_of (w_sent s)"
  proof (cases "rw_wroteHeaders (w_rw s)")
    case True
    then show ?thesis using assms p by (auto simp: settled_def)
  next
    case False
    then have np: "\<not> rw_prepared (w_rw s)" using assms(3,5) by (auto simp: settled_def)
    let ?s1 = "upd_rw (\<lambda>rw. rw\<lparr>rw_wroteHeaders := True\<rparr>) ?p"
    obtain s3 where s3: "send L (SHeaders (rw_status (w_rw ?p)) (rw_Header ?s1) False) ?s1 = (r, s3)"
      "s2 = (case r of Some e \<Rightarrow> upd_rw (\<lambda>rw. rw\<lparr>rw_err := Some e\<rparr>) s3 | None \<Rightarrow> s3)"
      using assms(6) False
      by (auto simp: writeHeaders_def rw_SendHeaders_send Let_def split: prod.splits option.splits)
    have w1: "wire_inv L c0 sid ?s1" using p(2) by (simp add: wire_inv_def)
    note sp = send_spec [OF w1 s3(1)] and fr = send_frame [OF s3(1)]
    have cl: "rw_declaredCL (w_rw ?p) = declared (rw_Header ?s1)"
      using p(4) [OF np] by (simp add: rw_Header_def)
    show ?thesis
    proof (cases r)
      case None
      then have s2: "s2 = s3" using s3(2) by simp
      have "rw_inv s3"
        using p(1) fr None assms(5) cl False sp(4) sp(3)
        by (auto simp: rw_inv_def Let_def evolves_def)
      then show ?thesis using s2 sp fr p(3) assms(4,5) None
        by (auto simp: settled_def evolves_def)
    next
      case (Some e)
      then show ?thesis using s3(2) sp fr p assms(5)
        by (auto simp: settled_def evolves_def rw_inv_def wire_inv_def Let_def)
    qed
  qed
  then show "rw_inv s2" "wire_inv L c0 sid s2" "settled s2" "evolves s s2" "rw_wroteHeaders (w_rw s2)"
    "r = None \<Longrightarrow> rw_err (w_rw s2) = None" "r \<noteq> None \<Longrightarrow> failed (w_conn s2)"
    "body_of (w_sent s2) = body_of (w_sent s)" by auto
qed

section \<open>Writing\<close>

lemma rw_inv_failed:
  "rw_inv s \<Longrightarrow> w_rw s' = w_rw s \<Longrightarrow> failed (w_conn s') \<Longrightarrow> rw_inv s'"
  unfolding rw_inv_def Let_def by clarsimp

lemma settled_cong: "w_rw s' = w_rw s \<Longrightarrow> settled s' = settled s"
  by (simp add: settled_def)

text \<open>Latching a transport error changes nothing that matters: the connection has failed.\<close>

lemma err_latched:
  "rw_inv s \<Longrightarrow> failed (w_conn s) \<Longrightarrow> rw_inv (upd_rw (\<lambda>rw. rw\<lparr>rw_err := e\<rparr>) s)"
  "wire_inv L c0 sid (upd_rw (\<lambda>rw. rw\<lparr>rw_err := e\<rparr>) s) = wire_inv L c0 sid s"
  "settled (upd_rw (\<lambda>rw. rw\<lparr>rw_err := e\<rparr>) s) = settled s"
  "evolves s0 (upd_rw (\<lambda>rw. rw\<lparr>rw_err := e\<rparr>) s) = evolves s0 s"
  unfolding rw_inv_def wire_inv_def settled_def evolves_def Let_def by auto


lemma rw_inv_more:
  assumes "rw_inv s" "rw_wroteHeaders (w_rw s)" "rw_err (w_rw s) = None" "send L (SData bs False) s = (None, s')"
    "wire_inv L c0 sid s" "rw_declaredCL (w_rw s) < 0 \<or> rw_written (w_rw s) + int (length bs) \<le> rw_declaredCL (w_rw s)"
  shows "rw_inv (upd_rw (\<lambda>rw. rw\<lparr>rw_written := rw_written rw + int (length bs)\<rparr>) s')"
proof -
  note fr = send_frame [OF assms(4)] and sp = send_spec [OF assms(5,4)]
  have "failed (w_conn s) \<Longrightarrow> failed (w_conn s')" using sp(3) by (simp add: evolves_def)
  then show ?thesis using assms(1-3,6) fr(1) fr(5) [OF refl]
    by (auto simp: rw_inv_def Let_def)
qed

lemma Flush_inv:
  assumes "rw_inv s" "wire_inv L c0 sid s" "settled s"
  shows "rw_inv (Flush L s)" "wire_inv L c0 sid (Flush L s)" "settled (Flush L s)" "evolves s (Flush L s)"
proof -
  let ?s' = "Flush L s"
  have "rw_inv ?s' \<and> wire_inv L c0 sid ?s' \<and> settled ?s' \<and> evolves s ?s'"
  proof (cases "rw_err (w_rw s) \<noteq> None \<or> rw_noBody (w_rw (prepare s))")
    case True
    then have "?s' = s \<or> (?s' = prepare s \<and> rw_noBody (w_rw (prepare s)))"
      by (cases "rw_err (w_rw s)") (simp_all add: Flush_def)
    then show ?thesis using assms prepare_inv [OF assms(1,2)] by (auto simp: settled_def)
  next
    case False
    then have e: "rw_err (w_rw s) = None" and nb: "\<not> rw_noBody (w_rw (prepare s))" by auto
    obtain r s2 where s2: "(if \<not> rw_wroteHeaders (w_rw (prepare s)) then writeHeaders L False (prepare s)
        else (None, prepare s)) = (r, s2)" by (metis prod.exhaust)
    note sb = start_body [OF assms e nb s2]
    show ?thesis
    proof (cases r)
      case (Some err)
      then have "?s' = upd_rw (\<lambda>rw. rw\<lparr>rw_err := Some err\<rparr>) s2"
        unfolding Flush_def Let_def by (simp only: e nb s2 simp_thms if_False prod.case option.case)
      then show ?thesis using sb Some by (simp add: err_latched)
    next
      case None
      obtain r' s3 where s3: "send L (SData [] False) s2 = (r', s3)" by (metis prod.exhaust)
      note sp = send_spec [OF sb(2) s3] and fr = send_frame [OF s3]
      have f: "?s' = (case r' of Some e \<Rightarrow> upd_rw (\<lambda>rw. rw\<lparr>rw_err := Some e\<rparr>) s3 | None \<Rightarrow> s3)"
        unfolding Flush_def Let_def
        by (simp only: e nb s2 None rw_SendData_send s3 simp_thms if_False prod.case option.case)
      show ?thesis
      proof (cases r')
        case (Some err)
        then have "failed (w_conn s3)" using sp(2) by simp
        moreover from this have "rw_inv s3" using rw_inv_failed [OF sb(1) fr(1)] by simp
        moreover have "settled s3" using settled_cong [OF fr(1)] sb(3) by simp
        ultimately show ?thesis using f sp(1) evolves_trans [OF sb(4) sp(3)] Some by (simp add: err_latched)
      next
        case r': None
        have "failed (w_conn s2) \<Longrightarrow> failed (w_conn s3)" using sp(3) by (simp add: evolves_def)
        then have "rw_inv s3"
          using sb(1,5) sb(6) [OF None] fr(1) fr(5) [OF r'] by (auto simp: rw_inv_def Let_def)
        then show ?thesis using f r' sp(1) fr(1) sb(3) evolves_trans [OF sb(4) sp(3)] by (simp add: settled_def)
      qed
    qed
  qed
  then show "rw_inv ?s'" "wire_inv L c0 sid ?s'" "settled ?s'" "evolves s ?s'" by auto
qed

text \<open>What the loop of \<open>Write\<close> establishes: unless the connection fails, all the bytes go out, in
  order, in chunks no longer than the peer's frame size.\<close>

definition loop_pre :: "H2Lib \<Rightarrow> Conn \<Rightarrow> uint32 \<Rightarrow> byte list \<Rightarrow> wstate \<Rightarrow> bool" where
  "loop_pre L c0 sid p s \<longleftrightarrow>
     rw_inv s \<and> wire_inv L c0 sid s \<and> rw_wroteHeaders (w_rw s) \<and> rw_err (w_rw s) = None \<and>
     (rw_declaredCL (w_rw s) < 0 \<or> rw_written (w_rw s) + int (length p) \<le> rw_declaredCL (w_rw s))"

definition loop_post ::
  "H2Lib \<Rightarrow> Conn \<Rightarrow> uint32 \<Rightarrow> int32 \<Rightarrow> byte list \<Rightarrow> nat \<Rightarrow> wstate \<Rightarrow> (nat \<times> gerr option) \<times> wstate \<Rightarrow> bool" where
  "loop_post L c0 sid mf p tot s = (\<lambda>((n, e), s').
     rw_inv s' \<and> wire_inv L c0 sid s' \<and> rw_wroteHeaders (w_rw s') \<and> evolves s s' \<and>
     (\<not> failed (w_conn s') \<longrightarrow> e = None \<and> rw_err (w_rw s') = None \<and> n = tot + length p \<and>
        (\<exists>chunks. concat chunks = p \<and> (\<forall>c \<in> set chunks. int (length c) \<le> max 0 (sint mf)) \<and>
                  w_sent s' = w_sent s @ map (\<lambda>c. SData c False) chunks)))"

lemma got_bounds:
  assumes "Reserve sc W q (min32 (of_nat (length p)) mf) es = Some ((got, d), sc', W', es')"
  shows "int (unat got) = sint got" "unat got \<le> length p" "int (unat got) \<le> max 0 (sint mf)"
proof -
  note r = Reserve_result [OF assms]
  show u: "int (unat got) = sint got" using r(3) by (rule unat_sint)
  have "sint (min32 (of_nat (length p)) mf) \<le> sint (of_nat (length p) :: int32)"
    "sint (min32 (of_nat (length p)) mf) \<le> sint mf" by (simp_all add: sint_min32)
  then show "unat got \<le> length p" "int (unat got) \<le> max 0 (sint mf)"
    using r(4) u sint_of_nat_le [of "length p"] by linarith+
qed

lemma credit_update_inv:
  assumes "rw_inv s" "wire_inv L c0 sid s" "sc_dead (c_Send (w_conn s)) \<Longrightarrow> sc_dead sc"
    "s1 = s\<lparr>w_conn := (w_conn s)\<lparr>c_Send := sc\<rparr>, w_mem := set_windows W (w_mem s), w_env := es\<rparr>"
  shows "rw_inv s1" "wire_inv L c0 sid s1" "evolves s s1"
  using assms(1-3) unfolding assms(4)
  by (auto simp: rw_inv_def wire_inv_def evolves_def failed_def outgoing_def enc_after_def Let_def)

lemma write_loop_step:
  assumes IH: "\<And>p tot s y. wl p tot s = Some y \<Longrightarrow> loop_pre L c0 sid p s \<Longrightarrow> loop_post L c0 sid mf p tot s y"
    and pre: "loop_pre L c0 sid p s"
    and r: "Reserve (c_Send (w_conn s)) (windows (w_mem s)) (rw_stream (w_rw s)) (min32 (of_nat (length p)) mf)
              (w_env s) = Some ((got, False), sc, W, es)"
    and s1_def: "s1 = s\<lparr>w_conn := (w_conn s)\<lparr>c_Send := sc\<rparr>, w_mem := set_windows W (w_mem s), w_env := es\<rparr>"
    and x: "send L (SData (take (unat got) p) False) s1 = (None, s2)"
    and y: "wl (drop (unat got) p) (tot + unat got)
              (upd_rw (\<lambda>rw. rw\<lparr>rw_written := rw_written rw + sint got\<rparr>) s2) = Some y"
  shows "loop_post L c0 sid mf p tot s y"
proof -
  note g = got_bounds [OF r]
  have pr: "rw_inv s" "wire_inv L c0 sid s" "rw_wroteHeaders (w_rw s)" "rw_err (w_rw s) = None"
    "rw_declaredCL (w_rw s) < 0 \<or> rw_written (w_rw s) + int (length p) \<le> rw_declaredCL (w_rw s)"
    using pre by (auto simp: loop_pre_def)
  have s1: "rw_inv s1" "wire_inv L c0 sid s1" "evolves s s1" "w_rw s1 = w_rw s" "w_sent s1 = w_sent s"
    using credit_update_inv [OF pr(1,2) Reserve_result(2) [OF r] s1_def] s1_def by simp_all
  note fr = send_frame [OF x] and sp = send_spec [OF s1(2) x]
  let ?s3 = "upd_rw (\<lambda>rw. rw\<lparr>rw_written := rw_written rw + sint got\<rparr>) s2"
  have len: "int (length (take (unat got) p)) = sint got" using g by simp
  have le: "sint got \<le> int (length p)" using g by linarith
  then have "rw_declaredCL (w_rw s1) < 0 \<or>
      rw_written (w_rw s1) + int (length (take (unat got) p)) \<le> rw_declaredCL (w_rw s1)"
    using pr(5) s1(4) len by auto
  then have "rw_inv ?s3"
    using rw_inv_more [OF s1(1) _ _ x s1(2)] pr(3,4) s1(4) len by simp
  moreover have "wire_inv L c0 sid ?s3" using sp(1) by (simp add: wire_inv_def)
  ultimately have "loop_pre L c0 sid (drop (unat got) p) ?s3"
    using pr(3-5) fr(1) s1(4) g le by (simp add: loop_pre_def)
  from IH [OF y this] have post: "loop_post L c0 sid mf (drop (unat got) p) (tot + unat got) ?s3 y" .
  obtain n e s' where yy: "y = ((n, e), s')" by (metis prod.exhaust)
  have ev: "evolves s s'" using post s1(3) sp(3) yy by (auto simp: loop_post_def evolves_def)
  show ?thesis
  proof (cases "failed (w_conn s')")
    case True
    then show ?thesis using post yy ev by (auto simp: loop_post_def)
  next
    case False
    then obtain chunks where c: "concat chunks = drop (unat got) p"
      "\<forall>c \<in> set chunks. int (length c) \<le> max 0 (sint mf)"
      "w_sent s' = w_sent ?s3 @ map (\<lambda>c. SData c False) chunks" "e = None"
      "rw_err (w_rw s') = None" "n = tot + unat got + length (drop (unat got) p)"
      using post yy by (auto simp: loop_post_def)
    have "concat (take (unat got) p # chunks) = p" using c(1) by simp
    moreover have "\<forall>c \<in> set (take (unat got) p # chunks). int (length c) \<le> max 0 (sint mf)"
      using c(2) g len by auto
    moreover have "w_sent s' = w_sent s @ map (\<lambda>c. SData c False) (take (unat got) p # chunks)"
      using c(3) fr(5) s1(5) by simp
    ultimately have "\<exists>chunks. concat chunks = p \<and> (\<forall>c \<in> set chunks. int (length c) \<le> max 0 (sint mf)) \<and>
        w_sent s' = w_sent s @ map (\<lambda>c. SData c False) chunks" by blast
    moreover have "rw_inv s'" "wire_inv L c0 sid s'" "rw_wroteHeaders (w_rw s')"
      using post yy by (simp_all add: loop_post_def)
    ultimately show ?thesis using ev c(4-6) g(2) unfolding yy loop_post_def by simp
  qed
qed

lemma write_loop_inv:
  assumes "write_loop L mf p tot s = Some y"
  shows "loop_pre L c0 sid p s \<longrightarrow> loop_post L c0 sid mf p tot s y"
proof (rule write_loop.raw_induct [of "\<lambda>L mf p tot s y. loop_pre L c0 sid p s \<longrightarrow> loop_post L c0 sid mf p tot s y",
      OF _ assms])
  fix wl L mf p tot s y
  assume 1: "\<And>L mf p tot s y. wl L mf p tot s = Some y \<Longrightarrow>
      loop_pre L c0 sid p s \<longrightarrow> loop_post L c0 sid mf p tot s y"
    and 2: "(if p = [] then Some ((tot, None), s)
      else let want = min32 (of_nat (length p)) mf
        in case Reserve (c_Send (w_conn s)) (windows (w_mem s)) (rw_stream (w_rw s)) want (w_env s) of
             None \<Rightarrow> None
           | Some ((got, dead), sc, W, es) \<Rightarrow>
               let s1 = s\<lparr>w_conn := (w_conn s)\<lparr>c_Send := sc\<rparr>, w_mem := set_windows W (w_mem s), w_env := es\<rparr>
               in if dead then
                    Some ((tot, Some ErrConnDead), upd_rw (\<lambda>rw. rw\<lparr>rw_err := Some ErrConnDead\<rparr>) s1)
                  else
                    (case rw_SendData L (take (unat got) p) False s1 of
                       (Some e, s2) \<Rightarrow> Some ((tot, Some e), upd_rw (\<lambda>rw. rw\<lparr>rw_err := Some e\<rparr>) s2)
                     | (None, s2) \<Rightarrow>
                         wl L mf (drop (unat got) p) (tot + unat got)
                           (upd_rw (\<lambda>rw. rw\<lparr>rw_written := rw_written rw + sint got\<rparr>) s2))) = Some y"
  show "loop_pre L c0 sid p s \<longrightarrow> loop_post L c0 sid mf p tot s y"
  proof
    assume pre: "loop_pre L c0 sid p s"
    then have pr: "rw_inv s" "wire_inv L c0 sid s" "rw_wroteHeaders (w_rw s)" by (simp_all add: loop_pre_def)
    show "loop_post L c0 sid mf p tot s y"
    proof (cases "p = []")
      case True
      then have "y = ((tot, None), s)" using 2 by simp
      then show ?thesis using pre True by (auto simp: loop_post_def loop_pre_def intro: exI [of _ "[]"])
    next
      case False
      let ?R = "Reserve (c_Send (w_conn s)) (windows (w_mem s)) (rw_stream (w_rw s))
          (min32 (of_nat (length p)) mf) (w_env s)"
      obtain got dead sc W es where r: "?R = Some ((got, dead), sc, W, es)"
        using 2 False by (cases ?R) auto
      define s1 where "s1 = s\<lparr>w_conn := (w_conn s)\<lparr>c_Send := sc\<rparr>, w_mem := set_windows W (w_mem s), w_env := es\<rparr>"
      note s1 = credit_update_inv [OF pr(1,2) Reserve_result(2) [OF r] s1_def]
      obtain e s2 where x: "send L (SData (take (unat got) p) False) s1 = (e, s2)" by (metis prod.exhaust)
      note body = 2 [unfolded if_not_P [OF False] Let_def r option.case prod.case, folded s1_def]
      have w1: "rw_wroteHeaders (w_rw s1)" using pr(3) by (simp add: s1_def)
      consider (dead) "dead" | (fail) err where "\<not> dead" "e = Some err" | (ok) "\<not> dead" "e = None"
        by (cases dead; cases e) auto
      then show ?thesis
      proof cases
        case dead
        then have "failed (w_conn s1)" using Reserve_result(1) [OF r] by (simp add: failed_def s1_def)
        moreover have "y = ((tot, Some ErrConnDead), upd_rw (\<lambda>rw. rw\<lparr>rw_err := Some ErrConnDead\<rparr>) s1)"
          using body dead by simp
        ultimately show ?thesis using s1 w1 by (simp add: loop_post_def err_latched)
      next
        case fail
        note sp = send_spec [OF s1(2) x] and fr = send_frame [OF x]
        have "failed (w_conn s2)" using sp(2) fail by simp
        moreover from this have "rw_inv s2" using rw_inv_failed [OF s1(1) fr(1)] by simp
        moreover have "y = ((tot, Some err), upd_rw (\<lambda>rw. rw\<lparr>rw_err := Some err\<rparr>) s2)"
          using body fail x by (simp add: rw_SendData_send)
        moreover have "rw_wroteHeaders (w_rw s2)" using fr(1) w1 by simp
        ultimately show ?thesis using sp(1) evolves_trans [OF s1(3) sp(3)]
          by (simp add: loop_post_def err_latched)
      next
        case ok
        have IH: "\<And>p tot s y. wl L mf p tot s = Some y \<Longrightarrow> loop_pre L c0 sid p s \<Longrightarrow> loop_post L c0 sid mf p tot s y"
          using 1 by blast
        show ?thesis
          using write_loop_step [OF IH pre r [unfolded ok(1) [THEN Eq_FalseI]] s1_def x [unfolded ok(2)]] body x ok
          by (simp add: rw_SendData_send)
      qed
    qed
  qed
qed

lemma MaxFrame_signed:
  "(if MaxFrameSize c \<le>s 0 then 16384 else MaxFrameSize c) = mf \<Longrightarrow> 0 < sint mf"
  by (auto simp: sle_sint split: if_splits)

text \<open>The ways through \<open>Write\<close>.\<close>

lemma rw_Write_cases:
  assumes "rw_inv s" "wire_inv L c0 sid s" "settled s" "rw_Write L p s = Some ((n, e), s')"
  obtains (latched) err where "rw_err (w_rw s) = Some err" "n = 0" "e = Some err" "s' = s"
  | (nobody) "rw_err (w_rw s) = None" "s' = prepare s" "rw_noBody (w_rw s')" "n = length p" "e = None"
  | (failed) "failed (w_conn s')" "rw_inv s'" "wire_inv L c0 sid s'" "settled s'" "evolves s s'"
  | (violated) s2 where "rw_inv s2" "wire_inv L c0 sid s2" "evolves s s2" "rw_wroteHeaders (w_rw s2)"
      "rw_err (w_rw s2) = None" "n = 0" "e = Some ErrContentLength"
      "0 \<le> rw_declaredCL (w_rw s2)" "rw_declaredCL (w_rw s2) < rw_written (w_rw s2) + int (length p)"
      "s' = upd_rw (\<lambda>rw. rw\<lparr>rw_clViolated := True, rw_err := Some ErrContentLength\<rparr>) s2"
      "body_of (w_sent s2) = body_of (w_sent s)"
  | (loop) s2 mf where "0 < sint mf" "evolves s s2" "rw_wroteHeaders (w_rw s2)" "loop_pre L c0 sid p s2"
      "loop_post L c0 sid mf p 0 s2 ((n, e), s')" "body_of (w_sent s2) = body_of (w_sent s)"
proof (cases "rw_err (w_rw s)")
  case (Some err)
  then show thesis using assms(4) by (intro latched [of err]) (simp_all add: rw_Write_def)
next
  case None
  note un = assms(4) [unfolded rw_Write_def Let_def None option.case]
  show thesis
  proof (cases "rw_noBody (w_rw (prepare s))")
    case True
    then show thesis using un None by (intro nobody) simp_all
  next
    case nb: False
    obtain r s2 where s2: "(if \<not> rw_wroteHeaders (w_rw (prepare s)) then writeHeaders L False (prepare s)
        else (None, prepare s)) = (r, s2)" by (metis prod.exhaust)
    note sb = start_body [OF assms(1-3) None nb s2]
    note un2 = un [unfolded if_not_P [OF nb] s2 prod.case]
    show thesis
    proof (cases r)
      case (Some err)
      then have "s' = s2" using un2 by simp
      then show thesis using sb Some by (intro failed) simp_all
    next
      case r: None
      have e2: "rw_err (w_rw s2) = None" using sb(6) r .
      have post0: "loop_pre L c0 sid [] s2 \<Longrightarrow> loop_post L c0 sid 1 [] 0 s2 ((0, None), s2)"
        by (auto simp: loop_post_def loop_pre_def intro: exI [of _ "[]"])
      show thesis
      proof (cases "p = []")
        case True
        show thesis
        proof (cases "failed (w_conn s2)")
          case fl: True
          then show thesis using un2 r True sb by (intro failed) simp_all
        next
          case False
          then have "loop_pre L c0 sid [] s2"
            using sb e2 by (auto simp: loop_pre_def rw_inv_def Let_def)
          then show thesis using un2 r True sb post0 by (intro loop [of 1 s2]) simp_all
        qed
      next
        case p: False
        show thesis
        proof (cases "rw_declaredCL (w_rw s2) \<ge> 0 \<and> rw_written (w_rw s2) + int (length p) > rw_declaredCL (w_rw s2)")
          case True
          then show thesis using un2 r p sb e2 by (intro violated [of s2]) auto
        next
          case False
          let ?mf = "if MaxFrameSize (w_conn s2) \<le>s 0 then 16384 else MaxFrameSize (w_conn s2)"
          have pre: "loop_pre L c0 sid p s2" using sb e2 False by (auto simp: loop_pre_def)
          have "write_loop L ?mf p 0 s2 = Some ((n, e), s')"
            using un2 r p False by (simp add: if_not_P [OF False])
          from write_loop_inv [OF this] pre show thesis
            using sb MaxFrame_signed [OF refl] by (intro loop [of ?mf s2]) simp_all
        qed
      qed
    qed
  qed
qed

lemma rw_Write_inv:
  assumes "rw_inv s" "wire_inv L c0 sid s" "settled s" "rw_Write L p s = Some ((n, e), s')"
  shows "rw_inv s'" "wire_inv L c0 sid s'" "settled s'" "evolves s s'"
proof -
  have "rw_inv s' \<and> wire_inv L c0 sid s' \<and> settled s' \<and> evolves s s'"
    using assms
  proof (cases rule: rw_Write_cases)
    case nobody
    then show ?thesis using prepare_inv [OF assms(1,2)] by (simp add: settled_def)
  next
    case (violated s2)
    then show ?thesis by (auto simp: rw_inv_def wire_inv_def settled_def evolves_def Let_def)
  next
    case (loop s2 mf)
    then show ?thesis using evolves_trans by (auto simp: loop_post_def settled_def)
  qed (use assms in simp_all)
  then show "rw_inv s'" "wire_inv L c0 sid s'" "settled s'" "evolves s s'" by auto
qed

text \<open>With a framer that works and credit for all of it, the loop returns.\<close>

lemma send_ok:
  assumes "\<And>w f. frWrite L w f = None" "c_writeErr (w_conn s) = None" "wire_inv L c0 sid s"
  obtains s' where "send L x s = (None, s')" "c_writeErr (w_conn s') = None"
proof -
  have c: "cache_ok ToLower (c_lowerNames (w_conn s))" using assms(3) by (simp add: wire_inv_def)
  note sub = submit_ok [OF assms(1,2) c, of "sent_intent (w_ID s) x"]
  have "c_writeErr (snd (submit L (sent_intent (w_ID s) x) (w_conn s))) = None"
    using submit_outgoing(4) [OF c sub] .
  moreover obtain c' where c': "submit L (sent_intent (w_ID s) x) (w_conn s) = (None, c')" using sub by blast
  ultimately show thesis by (intro that [of "s\<lparr>w_conn := c', w_sent := w_sent s @ [x]\<rparr>"]) (simp_all add: send_def)
qed

lemma write_loop_returns:
  assumes "\<And>w f. frWrite L w f = None" "0 < sint mf" "length p < 2 ^ 31"
    "c_writeErr (w_conn s) = None" "wire_inv L c0 sid s" "\<not> sc_dead (c_Send (w_conn s))"
    "int (length p) \<le> sint (windows (w_mem s) (rw_stream (w_rw s)))"
    "int (length p) \<le> sint (ConnSendWindow (c_Send (w_conn s)))"
  shows "\<exists>s'. write_loop L mf p tot s = Some ((tot + length p, None), s') \<and> \<not> failed (w_conn s')
          \<and> rw_noBody (w_rw s') = rw_noBody (w_rw s)"
  using assms(3-8)
proof (induction "length p" arbitrary: p tot s rule: less_induct)
  case less
  show ?case
  proof (cases "p = []")
    case True
    then show ?thesis using less.prems(2,4) by (simp add: write_loop.simps failed_def)
  next
    case False
    let ?q = "rw_stream (w_rw s)" and ?want = "min32 (of_nat (length p)) mf"
    have l: "sint (of_nat (length p) :: int32) = int (length p)" using less.prems(1) by (rule sint_of_nat32)
    then have want: "0 < sint ?want" "sint ?want \<le> int (length p)"
      using False assms(2) by (simp_all add: sint_min32)
    have wpos: "0 < sint (windows (w_mem s) ?q)" "0 < sint (ConnSendWindow (c_Send (w_conn s)))"
      using less.prems(5,6) False by (cases p; simp)+
    obtain n where n: "sint n = min (sint ?want) (min (sint (windows (w_mem s) ?q)) (sint (ConnSendWindow (c_Send (w_conn s)))))"
      and r: "Reserve (c_Send (w_conn s)) (windows (w_mem s)) ?q ?want (w_env s)
        = Some ((n, False), (initCond (c_Send (w_conn s)))\<lparr>ConnSendWindow := ConnSendWindow (c_Send (w_conn s)) - n\<rparr>,
            (windows (w_mem s))(?q := windows (w_mem s) ?q - n), w_env s)"
      using Reserve_immediate [OF less.prems(4) want(1), of "windows (w_mem s)" ?q "w_env s"] wpos by blast
    define s1 where "s1 = s\<lparr>w_conn := (w_conn s)\<lparr>c_Send := (initCond (c_Send (w_conn s)))\<lparr>ConnSendWindow := ConnSendWindow (c_Send (w_conn s)) - n\<rparr>\<rparr>,
        w_mem := set_windows ((windows (w_mem s))(?q := windows (w_mem s) ?q - n)) (w_mem s), w_env := w_env s\<rparr>"
    have pos: "0 < sint n" "sint n \<le> int (length p)" using n want wpos by auto
    have w1: "wire_inv L c0 sid s1" "c_writeErr (w_conn s1) = None"
      using less.prems(2,3) by (simp_all add: s1_def wire_inv_def outgoing_def enc_after_def)
    obtain s2 where s2: "send L (SData (take (unat n) p) False) s1 = (None, s2)" "c_writeErr (w_conn s2) = None"
      using send_ok [OF assms(1) w1(2,1)] .
    note fr = send_frame [OF s2(1)] and sp = send_spec [OF w1(1) s2(1)]
    let ?s3 = "upd_rw (\<lambda>rw. rw\<lparr>rw_written := rw_written rw + sint n\<rparr>) s2"
    have u: "int (unat n) = sint n" using pos by (intro unat_sint) simp
    have un: "0 < unat n" "unat n \<le> length p" using u pos by linarith+
    have len: "int (length (drop (unat n) p)) = int (length p) - sint n" "length (drop (unat n) p) < length p"
      unfolding length_drop using u un by linarith+
    have win: "sint (windows (w_mem s) ?q - n) = sint (windows (w_mem s) ?q) - sint n"
      "sint (ConnSendWindow (c_Send (w_conn s)) - n) = sint (ConnSendWindow (c_Send (w_conn s))) - sint n"
      by (rule grant_subtract; use pos wpos less.prems(5,6) in linarith)+
    have "\<exists>s'. write_loop L mf (drop (unat n) p) (tot + unat n) ?s3
        = Some ((tot + unat n + length (drop (unat n) p), None), s') \<and> \<not> failed (w_conn s')
          \<and> rw_noBody (w_rw s') = rw_noBody (w_rw ?s3)"
    proof (rule less.hyps [OF len(2)])
      show "length (drop (unat n) p) < 2 ^ 31" using less.prems(1) by simp
      show "c_writeErr (w_conn ?s3) = None" using s2(2) by simp
      show "wire_inv L c0 sid ?s3" using sp(1) by (simp add: wire_inv_def)
      show "\<not> sc_dead (c_Send (w_conn ?s3))" using sp(4) less.prems(4) by (simp add: s1_def initCond_def)
      show "int (length (drop (unat n) p)) \<le> sint (windows (w_mem ?s3) (rw_stream (w_rw ?s3)))"
        using fr(1,2) len win less.prems(5) by (simp add: s1_def)
      show "int (length (drop (unat n) p)) \<le> sint (ConnSendWindow (c_Send (w_conn ?s3)))"
        using sp(4) len win less.prems(6) by (simp add: s1_def)
    qed
    moreover have "rw_noBody (w_rw ?s3) = rw_noBody (w_rw s)" using fr(1) by (simp add: s1_def)
    ultimately show ?thesis using un(2)
      False r s2(1) by (simp add: write_loop.simps [of L mf p] rw_SendData_send flip: s1_def)
  qed
qed

text \<open>A length that is negative or zero as an \<open>int32\<close> makes no progress.\<close>

lemma write_loop_stuck:
  assumes "\<And>w f. frWrite L w f = None" "write_loop L mf p tot s = Some y"
  shows "\<not> (p \<noteq> [] \<and> sint (of_nat (length p) :: int32) \<le> 0 \<and> c_writeErr (w_conn s) = None \<and> wire_inv L c0 sid s)"
proof (rule write_loop.raw_induct [of "\<lambda>L' mf p tot s y. L' = L \<longrightarrow>
      \<not> (p \<noteq> [] \<and> sint (of_nat (length p) :: int32) \<le> 0 \<and> c_writeErr (w_conn s) = None \<and> wire_inv L c0 sid s)",
      OF _ assms(2), THEN mp [OF _ refl]], intro impI notI, elim conjE)
  fix wl L' mf p tot s y
  assume IH: "\<And>L' mf p tot s y. wl L' mf p tot s = Some y \<Longrightarrow> L' = L \<longrightarrow>
      \<not> (p \<noteq> [] \<and> sint (of_nat (length p) :: int32) \<le> 0 \<and> c_writeErr (w_conn s) = None \<and> wire_inv L c0 sid s)"
    and body: "(if p = [] then Some ((tot, None), s)
      else let want = min32 (of_nat (length p)) mf
        in case Reserve (c_Send (w_conn s)) (windows (w_mem s)) (rw_stream (w_rw s)) want (w_env s) of
             None \<Rightarrow> None
           | Some ((got, dead), sc, W, es) \<Rightarrow>
               let s1 = s\<lparr>w_conn := (w_conn s)\<lparr>c_Send := sc\<rparr>, w_mem := set_windows W (w_mem s), w_env := es\<rparr>
               in if dead then
                    Some ((tot, Some ErrConnDead), upd_rw (\<lambda>rw. rw\<lparr>rw_err := Some ErrConnDead\<rparr>) s1)
                  else
                    (case rw_SendData L' (take (unat got) p) False s1 of
                       (Some e, s2) \<Rightarrow> Some ((tot, Some e), upd_rw (\<lambda>rw. rw\<lparr>rw_err := Some e\<rparr>) s2)
                     | (None, s2) \<Rightarrow>
                         wl L' mf (drop (unat got) p) (tot + unat got)
                           (upd_rw (\<lambda>rw. rw\<lparr>rw_written := rw_written rw + sint got\<rparr>) s2))) = Some y"
    and a: "L' = L" "p \<noteq> []" "sint (of_nat (length p) :: int32) \<le> 0" "c_writeErr (w_conn s) = None" "wire_inv L c0 sid s"
  let ?want = "min32 (of_nat (length p)) mf"
  have "?want \<le>s 0" using a(3) by (simp add: sle_sint sint_min32)
  then have r: "Reserve (c_Send (w_conn s)) (windows (w_mem s)) (rw_stream (w_rw s)) ?want (w_env s)
      = Some ((0, False), c_Send (w_conn s), windows (w_mem s), w_env s)" by (simp add: Reserve_def)
  let ?s1 = "s\<lparr>w_conn := (w_conn s)\<lparr>c_Send := c_Send (w_conn s)\<rparr>, w_mem := set_windows (windows (w_mem s)) (w_mem s), w_env := w_env s\<rparr>"
  have w1: "wire_inv L c0 sid ?s1" "c_writeErr (w_conn ?s1) = None"
    using a(4,5) by (simp_all add: wire_inv_def)
  obtain s2 where s2: "send L (SData [] False) ?s1 = (None, s2)" "c_writeErr (w_conn s2) = None"
    using send_ok [OF assms(1) w1(2,1)] .
  have w2: "wire_inv L c0 sid s2" using send_spec(1) [OF w1(1) s2(1)] .
  let ?s3 = "upd_rw (\<lambda>rw. rw\<lparr>rw_written := rw_written rw + sint (0 :: int32)\<rparr>) s2"
  have "wl L mf p tot ?s3 = Some y"
    using body a(1,2) r s2(1) by (simp add: rw_SendData_send)
  from IH [OF this] show False using a(2,3) s2(2) w2 by (simp add: wire_inv_def)
qed

lemma windows_prepare [simp]: "windows (w_mem (prepare s)) = windows (w_mem s)"
  by (cases "rw_prepared (w_rw s)") (auto simp: prepare_eq set_Header_def windows_def fun_eq_iff)

lemma start_body_ok:
  assumes "\<And>w f. frWrite L w f = None" "c_writeErr (w_conn s) = None" "wire_inv L c0 sid s"
  obtains s2 where "(if \<not> rw_wroteHeaders (w_rw (prepare s)) then writeHeaders L False (prepare s)
        else (None, prepare s)) = (None, s2)"
    "c_writeErr (w_conn s2) = None" "c_Send (w_conn s2) = c_Send (w_conn s)" "windows (w_mem s2) = windows (w_mem s)"
    "rw_stream (w_rw s2) = rw_stream (w_rw s)" "rw_declaredCL (w_rw s2) = rw_declaredCL (w_rw (prepare s))"
    "rw_written (w_rw s2) = rw_written (w_rw s)" "wire_inv L c0 sid s2"
    "rw_noBody (w_rw s2) = rw_noBody (w_rw (prepare s))"
proof (cases "rw_wroteHeaders (w_rw s)")
  case True
  moreover have "wire_inv L c0 sid (prepare s)" using assms(3) by (simp add: wire_inv_def)
  ultimately show thesis using assms(2) by (intro that [of "prepare s"]) simp_all
next
  case False
  let ?s1 = "upd_rw (\<lambda>rw. rw\<lparr>rw_wroteHeaders := True\<rparr>) (prepare s)"
  have w1: "wire_inv L c0 sid ?s1" "c_writeErr (w_conn ?s1) = None"
    using assms(2,3) by (simp_all add: wire_inv_def)
  obtain s2 where s2: "send L (SHeaders (rw_status (w_rw ?s1)) (rw_Header ?s1) False) ?s1 = (None, s2)"
    "c_writeErr (w_conn s2) = None" using send_ok [OF assms(1) w1(2,1)] .
  note fr = send_frame [OF s2(1)] and sp = send_spec [OF w1(1) s2(1)]
  have "writeHeaders L False (prepare s) = (None, s2)"
    using False s2(1) by (simp add: writeHeaders_def rw_SendHeaders_send Let_def)
  then show thesis using False s2(2) fr(1,2) sp(1,4) by (intro that [of s2]) simp_all
qed

lemma rw_Write_returns:
  assumes "\<And>w f. frWrite L w f = None" "wire_inv L c0 sid s" "rw_err (w_rw s) = None"
    "\<not> failed (w_conn s)" "length p < 2 ^ 31"
    "int (length p) \<le> sint (windows (w_mem s) (rw_stream (w_rw s)))"
    "int (length p) \<le> sint (ConnSendWindow (c_Send (w_conn s)))"
    "rw_noBody (w_rw (prepare s)) \<or> rw_declaredCL (w_rw (prepare s)) < 0
       \<or> rw_written (w_rw s) + int (length p) \<le> rw_declaredCL (w_rw (prepare s))"
  shows "\<exists>s'. rw_Write L p s = Some ((length p, None), s') \<and> \<not> failed (w_conn s')
          \<and> rw_noBody (w_rw s') = rw_noBody (w_rw (prepare s))"
proof (cases "rw_noBody (w_rw (prepare s))")
  case True
  then show ?thesis using assms(3,4) by (simp add: rw_Write_def)
next
  case nb: False
  have alive: "c_writeErr (w_conn s) = None" "\<not> sc_dead (c_Send (w_conn s))"
    using assms(4) by (auto simp: failed_def)
  from start_body_ok [OF assms(1) alive(1) assms(2)] obtain s2 where
    s2: "(if \<not> rw_wroteHeaders (w_rw (prepare s)) then writeHeaders L False (prepare s)
        else (None, prepare s)) = (None, s2)"
      "c_writeErr (w_conn s2) = None" "c_Send (w_conn s2) = c_Send (w_conn s)" "windows (w_mem s2) = windows (w_mem s)"
      "rw_stream (w_rw s2) = rw_stream (w_rw s)" "rw_declaredCL (w_rw s2) = rw_declaredCL (w_rw (prepare s))"
      "rw_written (w_rw s2) = rw_written (w_rw s)" "wire_inv L c0 sid s2"
      "rw_noBody (w_rw s2) = rw_noBody (w_rw (prepare s))" .
  let ?mf = "if MaxFrameSize (w_conn s2) \<le>s 0 then 16384 else MaxFrameSize (w_conn s2)"
  have fits: "\<not> (rw_declaredCL (w_rw s2) \<ge> 0 \<and> rw_written (w_rw s2) + int (length p) > rw_declaredCL (w_rw s2))"
    using assms(8) nb s2(6,7) by auto
  have w: "rw_Write L p s = (if length p = 0 then Some ((0, None), s2) else write_loop L ?mf p 0 s2)"
    unfolding rw_Write_def Let_def assms(3) option.case if_not_P [OF nb] s2(1) prod.case if_not_P [OF fits] ..
  show ?thesis
  proof (cases "p = []")
    case True
    then show ?thesis unfolding w using s2(2,3,9) alive(2) by (simp add: failed_def)
  next
    case False
    have "\<exists>s'. write_loop L ?mf p 0 s2 = Some ((0 + length p, None), s') \<and> \<not> failed (w_conn s')
        \<and> rw_noBody (w_rw s') = rw_noBody (w_rw s2)"
      using MaxFrame_signed [OF refl] assms(5-7) s2 alive(2) by (intro write_loop_returns [OF assms(1)]) simp_all
    then show ?thesis unfolding w using False s2(9) by simp
  qed
qed

text \<open>A response writer and its connection at the start of a request, for the examples.\<close>

definition start_state :: "bool \<Rightarrow> wstate" where
  "start_state isHead =
     \<lparr>w_rw = new_responseWriter 7 isHead, w_conn = (init_Conn 0 [])\<lparr>c_streams := [(1, 7)]\<rparr>,
      w_mem = empty_mem\<lparr>m_stream := (\<lambda>_. new_Stream)(7 := fresh_stream 1 0 65535 0), m_nextCtx := 1\<rparr>,
      w_env = [], w_in = [], w_sent = []\<rparr>"

lemma start_state_ok:
  "rw_inv (start_state isHead)" "wire_inv L ((init_Conn 0 [])\<lparr>c_streams := [(1, 7)]\<rparr>) 1 (start_state isHead)"
  "settled (start_state isHead)" "\<not> failed (w_conn (start_state isHead))"
  by (simp_all add: start_state_def rw_inv_def wire_inv_def settled_def failed_def new_responseWriter_def
      fresh_stream_def init_Conn_def fresh_credit_def CommonNames_ok outgoing_def enc_after_def Let_def)

lemma start_state_prepare:
  "rw_declaredCL (w_rw (prepare (start_state isHead))) = - 1"
  "rw_noBody (w_rw (prepare (start_state isHead))) = isHead"
proof -
  have "\<not> rw_prepared (w_rw (start_state isHead))" "rw_Header (start_state isHead) = []"
    "rw_status (w_rw (start_state isHead)) = 0" "rw_isHead (w_rw (start_state isHead)) = isHead"
    by (simp_all add: start_state_def new_responseWriter_def rw_Header_def fresh_stream_def)
  then show "rw_declaredCL (w_rw (prepare (start_state isHead))) = - 1"
    "rw_noBody (w_rw (prepare (start_state isHead))) = isHead"
    by (simp_all add: prepare_eq cl_header_def declared_def Header_Get_def bodyAllowedForStatus_def)
qed

section \<open>Properties\<close>


lemma start_state_fields:
  "rw_err (w_rw (start_state isHead)) = None" "w_sent (start_state isHead) = []"
  "rw_written (w_rw (start_state isHead)) = 0"
  "windows (w_mem (start_state isHead)) (rw_stream (w_rw (start_state isHead))) = 65535"
  "ConnSendWindow (c_Send (w_conn (start_state isHead))) = 65535"
  by (simp_all add: start_state_def new_responseWriter_def windows_def fresh_stream_def init_Conn_def
      fresh_credit_def DefaultInitialWindow_def)


text \<open>
  C38. \<open>Write\<close> returns. With a framer that works and send windows that cover the bytes, \<open>Write\<close> of a
  slice shorter than 2^31 bytes comes back with all of it accepted, however small the peer's frame
  size; no event from the peer is needed.
\<close>

theorem Write_returns:
  assumes "\<forall>w f. frWrite L w f = None" "wire_inv L c0 sid s" "rw_err (w_rw s) = None"
    "\<not> failed (w_conn s)" "length p < 2 ^ 31"
    "int (length p) \<le> sint (windows (w_mem s) (rw_stream (w_rw s)))"
    "int (length p) \<le> sint (ConnSendWindow (c_Send (w_conn s)))"
    "rw_noBody (w_rw (prepare s)) \<or> rw_declaredCL (w_rw (prepare s)) < 0
       \<or> rw_written (w_rw s) + int (length p) \<le> rw_declaredCL (w_rw (prepare s))"
  shows "\<exists>s'. rw_Write L p s = Some ((length p, None), s')"
  using rw_Write_returns [OF _ assms(2-8)] assms(1) by blast

theorem Write_returns_witness:
  "\<exists>s'. rw_Write literal_lib [1, 2, 3] (start_state False) = Some ((3, None), s')"
proof -
  have "\<exists>s'. rw_Write literal_lib [1, 2, 3] (start_state False) = Some ((length [1, 2, 3 :: byte], None), s')"
    by (rule Write_returns [OF _ start_state_ok(2)])
      (simp_all add: start_state_fields start_state_ok start_state_prepare)
  then show ?thesis by (simp add: eval_nat_numeral)
qed

text \<open>
  A slice whose length is not positive as an \<open>int32\<close> is never written. The loop converts the length
  with \<open>int32(len(p))\<close>; from 2^31 bytes on that can be negative or zero, \<open>Reserve\<close> then grants 0
  bytes, and the loop sends empty DATA frames for ever without consuming the slice.
\<close>

lemma Write_huge_never_returns:
  assumes "\<forall>w f. frWrite L w f = None" "c_writeErr (w_conn s) = None" "wire_inv L c0 sid s" "p \<noteq> []"
    "sint (of_nat (length p) :: int32) \<le> 0"
  shows "write_loop L mf p tot s = None"
proof (cases "write_loop L mf p tot s")
  case (Some y)
  then show ?thesis using write_loop_stuck [OF _ Some, of c0 sid] assms by blast
qed

end
