(* ===== verification/H2_Link.thy ===== *)
theory H2_Link
  imports H2_Inbound
begin

text \<open>
  A connection with its memory, as the frame reader of either role sees it, and what the other goroutines
  may do to it between two frames. Shared by the worker's \<open>serve\<close> (\<open>handler.go\<close>) and the proxy's
  \<open>serveTunnel\<close> (\<open>tunnel.go\<close>).

  The handler of one frame runs as a unit. Everything the stream goroutines, the writer and the other
  connections of the process do in between is a list of operations (\<open>env_op\<close>) carried by the \<open>tick\<close> that
  describes one turn of the reader's loop: those before the turn and those while the reader is parked in
  \<open>ReadFrame\<close>.
\<close>

section \<open>Definitions\<close>

record link =
  lk_conn :: Conn
  lk_mem :: mem

definition on_link :: "(Conn \<times> mem \<Rightarrow> Conn \<times> mem) \<Rightarrow> 'a link_scheme \<Rightarrow> 'a link_scheme" where
  "on_link f s = (let (c, m) = f (lk_conn s, lk_mem s) in s\<lparr>lk_conn := c, lk_mem := m\<rparr>)"

definition on_conn :: "(Conn \<Rightarrow> Conn) \<Rightarrow> 'a link_scheme \<Rightarrow> 'a link_scheme" where
  "on_conn f s = s\<lparr>lk_conn := f (lk_conn s)\<rparr>"

text \<open>Operations of the other goroutines. \<open>EnvFinish\<close> is the end of a stream's goroutine, \<open>EnvAcquire\<close> and
  \<open>EnvRelease\<close> are other connections using the shared pool.\<close>

datatype env_op =
    EnvSubmit writeIntent
  | EnvWriter
  | EnvFinish nat uint32
  | EnvRead nat ptr
  | EnvCloseBody ptr
  | EnvEndBody ptr
  | EnvHeader ptr header
  | EnvReserve ptr int32
  | EnvAcquire nat uint32 ptr int32
  | EnvRelease ptr

fun env_step :: "H2Lib \<Rightarrow> env_op \<Rightarrow> Conn \<times> mem \<Rightarrow> Conn \<times> mem" where
  "env_step L (EnvSubmit i) (c, m) = (submitAsync i c, m)"
| "env_step L EnvWriter (c, m) = (runWriter L c, m)"
| "env_step L (EnvFinish now sid) (c, m) =
     (case GetStream sid c of Some p \<Rightarrow> (RemoveStream now sid c, Release p m) | None \<Rightarrow> (c, m))"
| "env_step L (EnvRead n p) (c, m) = (c, snd (mem_Read n p m))"
| "env_step L (EnvCloseBody p) (c, m) = (c, mem_Close p m)"
| "env_step L (EnvEndBody p) (c, m) = (c, mem_CloseData p m)"
| "env_step L (EnvHeader p h) (c, m) = (c, upd_stream p (st_Header_update (\<lambda>_. h)) m)"
| "env_step L (EnvReserve p want) (c, m) =
     (let (_, sc, W) = reserve_attempt (initCond (c_Send c)) (windows m) p want
      in (c\<lparr>c_Send := sc\<rparr>, set_windows W m))"
| "env_step L (EnvAcquire k sid conn w) (c, m) = (c, snd (Acquire k sid conn w m))"
| "env_step L (EnvRelease p) (c, m) =
     (if p \<in> snd ` set (c_streams c) \<or> p \<in> set (pfree (m_streamPool m)) \<or> p \<ge> pfresh (m_streamPool m)
      then (c, m) else (c, Release p m))"

definition env_run :: "H2Lib \<Rightarrow> env_op list \<Rightarrow> 'a link_scheme \<Rightarrow> 'a link_scheme" where
  "env_run L es = on_link (fold (env_step L) es)"

text \<open>One turn of a reader's loop: what the others did, whether the shutdown channel is closed at each of the
  two places the loop looks, the clock, and what \<open>ReadFrame\<close> returns. \<open>tk_choice\<close> is the choice of the pool.\<close>

record 'e tick =
  tk_before :: 'e
  tk_shut :: bool
  tk_now :: nat
  tk_during :: 'e
  tk_read :: "gerr + frame"
  tk_shut_timeout :: bool
  tk_later :: nat
  tk_choice :: nat

text \<open>A loop whose body returns a result or goes on; \<open>None\<close> if it is still running when the turns end.\<close>

fun run_loop :: "('t \<Rightarrow> 's \<Rightarrow> 'r option \<times> 's) \<Rightarrow> 't list \<Rightarrow> 's \<Rightarrow> ('r \<times> 's) option" where
  "run_loop turn [] s = None"
| "run_loop turn (t # ts) s =
     (case turn t s of (Some r, s') \<Rightarrow> Some (r, s') | (None, s') \<Rightarrow> run_loop turn ts s')"

text \<open>Both roles first wait for the peer's SETTINGS, and ignore everything else until then.\<close>

fun await_settings ::
  "('e \<Rightarrow> 'a link_scheme \<Rightarrow> 'a link_scheme) \<Rightarrow> ('e \<times> (gerr + frame)) list \<Rightarrow> 'a link_scheme
     \<Rightarrow> (gerr option \<times> 'a link_scheme) option" where
  "await_settings env [] s = None"
| "await_settings env ((e, Inl err) # rs) s = Some (Some err, env e s)"
| "await_settings env ((e, Inr (FSettings ack xs)) # rs) s =
     (let s1 = env e s in
      if ack then await_settings env rs s1
      else case ApplyPeerSettings xs (lk_conn s1, lk_mem s1) of
             (Some err, c, m) \<Rightarrow> Some (Some err, s1\<lparr>lk_conn := c, lk_mem := m\<rparr>)
           | (None, c, m) \<Rightarrow> Some (None, s1\<lparr>lk_conn := SendSettingsAck c, lk_mem := m\<rparr>))"
| "await_settings env ((e, Inr f) # rs) s = await_settings env rs (env e s)"

section \<open>Well-formed links\<close>

definition cm_ok :: "Conn \<times> mem \<Rightarrow> bool" where
  "cm_ok = (\<lambda>(c, m). conn_ok c \<and> registry_ok c m \<and> drain_ok c \<and>
     pool_ok (snd ` set (c_streams c)) (m_streamPool m))"

lemma cm_ok_cong:
  assumes "cm_ok (c, m)" "conn_ok c'" "c_streams c' = c_streams c"
    "c_drainStarted c' = c_drainStarted c" "c_drainDone c' = c_drainDone c" "c_draining c' = c_draining c"
    "\<And>p. st_ID (m_stream m' p) = st_ID (m_stream m p)" "m_streamPool m' = m_streamPool m"
  shows "cm_ok (c', m')"
  using assms by (simp add: cm_ok_def registry_ok_def drain_ok_def)

lemma cm_ok_mem:
  assumes "cm_ok (c, m)" "\<And>p. st_ID (m_stream m' p) = st_ID (m_stream m p)" "m_streamPool m' = m_streamPool m"
  shows "cm_ok (c, m')"
  by (rule cm_ok_cong [OF assms(1)]) (use assms in \<open>simp_all add: cm_ok_def\<close>)

lemma submitAsync_conn_ok [conn_frame]: "conn_ok (submitAsync i c) = conn_ok c"
  by (simp add: submitAsync_def conn_ok_def)

lemma submitAsync_cm_ok: "cm_ok (c, m) \<Longrightarrow> cm_ok (submitAsync i c, m)"
  by (rule cm_ok_cong) (simp_all add: conn_frame cm_ok_def)

text \<open>The fields only the frame reader writes.\<close>

definition reader_part :: "Conn \<Rightarrow> uint32 \<times> uint32 \<times> byte list \<times> bool \<times> byte list list \<times> ptr" where
  "reader_part c = (c_LastStreamID c, c_contStreamID c, c_contBlock c, c_contStreamEnded c, c_dec c, c_self c)"

lemma reader_part_simps [simp]:
  "reader_part (submitAsync i c) = reader_part c" "reader_part (RemoveStream now sid c) = reader_part c"
  "reader_part (finishDrain now c) = reader_part c" "reader_part (BeginDrain now c) = reader_part c"
  "reader_part (Conn_AddStream p m c) = reader_part c" "reader_part (c\<lparr>c_Send := sc\<rparr>) = reader_part c"
  "reader_part (SetReadDeadline t c) = reader_part c"
  by (simp_all add: reader_part_def submitAsync_def RemoveStream_def finishDrain_def BeginDrain_def
      Conn_AddStream_def SetReadDeadline_def Let_def)

lemma unowned_reader_part:
  assumes "unowned c' = unowned c"
  shows "reader_part c' = reader_part c" "cache_ok ToLower (c_lowerNames c') \<Longrightarrow> conn_ok c \<Longrightarrow> conn_ok c'"
  using unowned_fields [OF assms] by (simp_all add: reader_part_def conn_ok_def)

lemma unowned_cm_ok:
  assumes "cm_ok (c, m)" "unowned c' = unowned c" "cache_ok ToLower (c_lowerNames c')"
  shows "cm_ok (c', m)"
  using assms(1) unowned_fields [OF assms(2)] unowned_reader_part(2) [OF assms(2,3)]
  by (auto simp: cm_ok_def registry_ok_def drain_ok_def)

lemma runWriter_spec:
  assumes "cache_ok ToLower (c_lowerNames c)"
  shows "unowned (runWriter L c) = unowned c" "cache_ok ToLower (c_lowerNames (runWriter L c))"
proof -
  obtain r c' where w: "writer_loop L (c_writeQ c) c = (r, c')" by (metis prod.exhaust)
  note sp = writer_loop_spec [OF assms w]
  then show "unowned (runWriter L c) = unowned c" "cache_ok ToLower (c_lowerNames (runWriter L c))"
    using assms w by (auto simp: runWriter_def unowned_def split: option.splits)
qed

lemma submit_link:
  assumes "cm_ok (c, m)" "submit L i c = (r, c')"
  shows "cm_ok (c', m)" "reader_part c' = reader_part c" "c_writeErr c' = r"
proof -
  have "cache_ok ToLower (c_lowerNames c)" using assms(1) by (simp add: cm_ok_def conn_ok_def)
  from this assms(2) have "cm_ok (c', m) \<and> reader_part c' = reader_part c \<and> c_writeErr c' = r"
  proof (cases rule: submit_cases)
    case (dead e)
    then show ?thesis using assms(1) by simp
  next
    case (run k)
    then show ?thesis using unowned_cm_ok [OF assms(1)] unowned_reader_part(1) by blast
  qed
  then show "cm_ok (c', m)" "reader_part c' = reader_part c" "c_writeErr c' = r" by auto
qed

section \<open>The registry and the pool\<close>

lemma registered_ptr: "registry_ok c m \<Longrightarrow> GetStream sid c = Some p \<Longrightarrow> (sid, p) \<in> set (c_streams c)"
  by (simp add: GetStream_def map_of_SomeD)

lemma Release_frame:
  "st_ID (m_stream (Release p m) q) = st_ID (m_stream m q)"
  "m_streamPool (Release p m) = pool_put p (m_streamPool m)"
  by (auto simp: Release_def Let_def put_all_def cancel_ctx_def returnBuf_def split: option.splits prod.splits)

lemma alist_delete_filter: "AList.delete k xs = filter (\<lambda>x. fst x \<noteq> k) xs"
  by (induction xs) auto

lemma delete_values:
  assumes "keys_distinct xs" "distinct (map snd xs)" "(k, v) \<in> set xs"
  shows "snd ` set (AList.delete k xs) = snd ` set xs - {v}" "distinct (map snd (AList.delete k xs))"
proof -
  note eq = alist_delete_filter [of k xs]
  show "distinct (map snd (AList.delete k xs))" using assms(2) by (simp add: eq distinct_map_filter)
  have i: "inj_on fst (set xs)" "inj_on snd (set xs)" using assms(1,2) by (simp_all add: distinct_map)
  have "(fst x \<noteq> k) = (snd x \<noteq> v)" if "x \<in> set xs" for x
    using inj_onD [OF i(1) _ that assms(3)] inj_onD [OF i(2) _ that assms(3)] by (cases x) auto
  then have "set (AList.delete k xs) = {x \<in> set xs. snd x \<noteq> v}" unfolding eq by auto
  then show "snd ` set (AList.delete k xs) = snd ` set xs - {v}" by auto
qed

lemma finish_cm_ok:
  assumes "cm_ok (c, m)" "GetStream sid c = Some p"
  shows "cm_ok (RemoveStream now sid c, Release p m)"
proof -
  have r: "registry_ok c m" and c: "conn_ok c" and d: "drain_ok c"
    and pl: "pool_ok (snd ` set (c_streams c)) (m_streamPool m)" using assms(1) by (auto simp: cm_ok_def)
  note sp = registered_ptr [OF r assms(2)]
  have s: "c_streams (RemoveStream now sid c) = AList.delete sid (c_streams c)"
    by (simp add: RemoveStream_def Let_def)
  note dv = delete_values [OF _ _ sp]
  have "registry_ok (RemoveStream now sid c) (Release p m)"
    using r dv by (auto simp: registry_ok_def s Release_frame alist_delete_filter distinct_map_filter)
  moreover have "conn_ok (RemoveStream now sid c)"
    using c by (simp add: conn_ok_def RemoveStream_def finishDrain_def Let_def)
  moreover have "drain_ok (RemoveStream now sid c)" using reg_step_drain_ok [OF d, of "RegRemove now sid"] by simp
  moreover have "pool_ok (snd ` set (AList.delete sid (c_streams c))) (pool_put p (m_streamPool m))"
    using pool_put_ok [OF pl, of p] sp r dv by (force simp: registry_ok_def)
  ultimately show ?thesis by (simp add: cm_ok_def s Release_frame)
qed

lemma Acquire_cm_ok:
  assumes "cm_ok (c, m)" "Acquire k sid conn w m = (p, m')"
  shows "p \<notin> snd ` set (c_streams c)" "cm_ok (c, m')"
    "pool_ok (insert p (snd ` set (c_streams c))) (m_streamPool m')"
    "m_stream m' p = fresh_stream sid conn w (m_nextCtx m)" "\<And>q. q \<noteq> p \<Longrightarrow> m_stream m' q = m_stream m q"
proof -
  obtain sp where g: "pool_get k (m_streamPool m) = (p, sp)" "m_streamPool m' = sp"
    using assms(2) by (auto simp: Acquire_def Let_def split: prod.splits)
  have pl: "pool_ok (snd ` set (c_streams c)) (m_streamPool m)" using assms(1) by (simp add: cm_ok_def)
  note f = pool_get_fresh [OF pl g(1)]
  show n: "p \<notin> snd ` set (c_streams c)" by (fact f(1))
  show i: "pool_ok (insert p (snd ` set (c_streams c))) (m_streamPool m')" using f(2) g(2) by simp
  show "m_stream m' p = fresh_stream sid conn w (m_nextCtx m)"
    using assms(2) by (auto simp: Acquire_def fresh_stream_def new_Stream_def Let_def split: prod.splits)
  show o: "\<And>q. q \<noteq> p \<Longrightarrow> m_stream m' q = m_stream m q"
    using assms(2) by (auto simp: Acquire_def Let_def split: prod.splits)
  have "registry_ok c m'" using assms(1) n o by (force simp: cm_ok_def registry_ok_def)
  moreover have "pool_ok (snd ` set (c_streams c)) (m_streamPool m')" using i by (auto simp: pool_ok_def)
  ultimately show "cm_ok (c, m')" using assms(1) by (simp add: cm_ok_def)
qed

text \<open>A new stream under an identifier that is not registered.\<close>

lemma add_cm_ok:
  assumes "cm_ok (c, m)" "Acquire k sid conn w m = (p, m')" "GetStream sid c = None"
  shows "cm_ok (Conn_AddStream p m' c, m')" "c_streams (Conn_AddStream p m' c) = c_streams c @ [(sid, p)]"
proof -
  note a = Acquire_cm_ok [OF assms(1,2)]
  have i: "st_ID (m_stream m' p) = sid" using a(4) by (simp add: fresh_stream_def)
  have n: "sid \<notin> fst ` set (c_streams c)" using assms(3) by (simp add: GetStream_def map_of_eq_None_iff)
  show s: "c_streams (Conn_AddStream p m' c) = c_streams c @ [(sid, p)]"
    using n by (simp add: Conn_AddStream_def i alist_update_absent)
  have "registry_ok (Conn_AddStream p m' c) m'"
    using a(1,2) n i by (auto simp: cm_ok_def registry_ok_def s)
  moreover have "conn_ok (Conn_AddStream p m' c)" using assms(1) by (simp add: cm_ok_def conn_ok_def Conn_AddStream_def)
  moreover have "drain_ok (Conn_AddStream p m' c)"
    using reg_step_drain_ok [of c "RegAdd m' p"] assms(1) by (simp add: cm_ok_def)
  ultimately show "cm_ok (Conn_AddStream p m' c, m')" using a(3) by (simp add: cm_ok_def s)
qed

section \<open>The operations keep a link well-formed\<close>

lemma Read_ID: "st_ID (fst (snd (bodyReader_Read n st))) = st_ID st"
  by (simp add: bodyReader_Read_def Let_def split_beta)

lemma mem_op_frames:
  "st_ID (m_stream (snd (mem_Read n p m)) q) = st_ID (m_stream m q)" "m_streamPool (snd (mem_Read n p m)) = m_streamPool m"
  "st_ID (m_stream (mem_Close p m) q) = st_ID (m_stream m q)" "m_streamPool (mem_Close p m) = m_streamPool m"
  "st_ID (m_stream (mem_CloseData p m) q) = st_ID (m_stream m q)" "m_streamPool (mem_CloseData p m) = m_streamPool m"
  "st_ID (m_stream (mem_PushData p ch m) q) = st_ID (m_stream m q)" "m_streamPool (mem_PushData p ch m) = m_streamPool m"
  "st_ID (m_stream (mem_FailBody e p m) q) = st_ID (m_stream m q)" "m_streamPool (mem_FailBody e p m) = m_streamPool m"
  "st_ID (m_stream (set_windows W m) q) = st_ID (m_stream m q)" "m_streamPool (set_windows W m) = m_streamPool m"
  by (auto simp: mem_Read_def mem_Close_def mem_CloseData_def mem_PushData_def mem_FailBody_def put_all_def
      cancel_ctx_def bodyReader_Close_def CloseData_def PushData_def FailBody_def Read_ID
      set_windows_def split_beta split: option.splits prod.splits)

lemma deliver_data_frames:
  "st_ID (m_stream (deliver_data k data es p m) q) = st_ID (m_stream m q)"
  "m_streamPool (deliver_data k data es p m) = m_streamPool m"
  by (auto simp: deliver_data_def mem_op_frames Let_def split: prod.splits)

lemma HandleInboundData_link:
  assumes "cm_ok (c, m)" "HandleInboundData k sid data fl es (c, m) = (c', m')"
  shows "cm_ok (c', m')" "reader_part c' = reader_part c"
proof -
  have m: "m' = m \<or> (\<exists>p. m' = deliver_data k data es p m)"
    using assms(2) by (auto simp: HandleInboundData_def Let_def split: option.splits if_splits)
  have c: "\<exists>is. c' = fold submitAsync is c"
  proof (cases "GetStream sid c")
    case None
    then show ?thesis using assms(2)
      by (auto simp: HandleInboundData_def SendWindowUpdate_def SendRSTStream_def Let_def split: if_splits
          intro: exI [of _ "[]"] exI [of _ "[_, _]"])
  next
    case (Some p)
    then show ?thesis using assms(2)
      by (auto simp: HandleInboundData_def SendWindowUpdate_def Let_def split: if_splits
          intro: exI [of _ "[]"] exI [of _ "[_, _]"])
  qed
  have "cm_ok (fold submitAsync is c, m) \<and> reader_part (fold submitAsync is c) = reader_part c" for "is"
    using assms(1) by (induction "is" arbitrary: c) (simp_all add: submitAsync_cm_ok)
  then have "cm_ok (c', m)" and r: "reader_part c' = reader_part c" using c by auto
  then show "cm_ok (c', m')" using m cm_ok_mem [of c' m m'] deliver_data_frames by auto
  show "reader_part c' = reader_part c" by (fact r)
qed

lemma HandleWindowUpdate_link:
  assumes "cm_ok (c, m)" "HandleWindowUpdate sid inc (c, m) = (c', m')"
  shows "cm_ok (c', m')" "reader_part c' = reader_part c"
proof -
  have "PeerInitWindow (snd (AddConn sc inc)) = PeerInitWindow sc" for sc by (simp add: AddConn_def)
  then have "cm_ok (c\<lparr>c_Send := snd (AddConn (c_Send c) inc)\<rparr>, m)"
    by (intro cm_ok_cong [OF assms(1)]) (use assms(1) in \<open>simp_all add: cm_ok_def conn_ok_def\<close>)
  moreover have "cm_ok (c, grant_stream inc p c m)" for p
    by (rule cm_ok_mem [OF assms(1)]) (simp_all add: grant_stream_def mem_op_frames)
  ultimately show "cm_ok (c', m')" "reader_part c' = reader_part c"
    using assms by (auto simp: HandleWindowUpdate_def split: option.splits if_splits)
qed

lemma HandleRSTStream_link:
  assumes "cm_ok (c, m)" "HandleRSTStream sid (c, m) = (c', m')"
  shows "cm_ok (c', m')" "c' = c"
proof -
  have c: "c' = c" "m' = m \<or> (\<exists>p. m' = mem_FailBody ErrStreamReset p m)"
    using assms(2) by (auto simp: HandleRSTStream_def reset_stream_def split: option.splits)
  then show "cm_ok (c', m')" using assms(1) cm_ok_mem [of c m m'] mem_op_frames by auto
  show "c' = c" by (fact c(1))
qed

lemma BeginDrain_link: "cm_ok (c, m) \<Longrightarrow> cm_ok (BeginDrain now c, m)"
  using reg_step_drain_ok [of c "RegDrain now"]
  by (auto simp: cm_ok_def conn_ok_def registry_ok_def BeginDrain_def finishDrain_def Let_def)

lemma HandlePingAck_link: "cm_ok (c, m) \<Longrightarrow> cm_ok (HandlePingAck d c, m) \<and> reader_part (HandlePingAck d c) = reader_part c"
  by (auto simp: HandlePingAck_def cm_ok_def conn_ok_def registry_ok_def drain_ok_def reader_part_def)

lemma SetReadDeadline_link: "cm_ok (c, m) \<Longrightarrow> cm_ok (SetReadDeadline t c, m)"
  by (auto simp: SetReadDeadline_def cm_ok_def conn_ok_def registry_ok_def drain_ok_def)

lemma SendOrCheckPing_link:
  assumes "cm_ok (c, m)" "SendOrCheckPing now c = (r, c')"
  shows "cm_ok (c', m)" "reader_part c' = reader_part c"
proof -
  let ?c1 = "c\<lparr>c_pingCounter := c_pingCounter c + 1, c_pingPending := True,
    c_pingData := PutUint64 (c_pingCounter c + 1), c_pingDeadline := now + PingTimeout\<rparr>"
  have "cm_ok (?c1, m)" using assms(1) by (simp add: cm_ok_def conn_ok_def registry_ok_def drain_ok_def)
  moreover have "c' = c \<or> c' = SendPing False (PutUint64 (c_pingCounter c + 1)) ?c1"
    using assms(2) by (auto simp: SendOrCheckPing_def Let_def split: if_splits)
  ultimately show "cm_ok (c', m)" "reader_part c' = reader_part c"
    using assms(1) by (auto simp: SendPing_def submitAsync_cm_ok) (simp_all add: reader_part_def)
qed

text \<open>SETTINGS.\<close>

lemma apply_setting_link:
  assumes "cm_ok (c, m)" "apply_setting x (c, m) = (r, c', m')"
  shows "cm_ok (c', m') \<and> reader_part c' = reader_part c \<and> c_streams c' = c_streams c"
proof -
  have k: "conn_ok c'" "c_streams c' = c_streams c" using apply_setting_ok [of c x m r c' m'] assms by (auto simp: cm_ok_def)
  obtain sid v where x: "x = (sid, v)" by (cases x)
  have f: "c_drainStarted c' = c_drainStarted c \<and> c_drainDone c' = c_drainDone c \<and> c_draining c' = c_draining c \<and>
     reader_part c' = reader_part c \<and> (\<forall>p. st_ID (m_stream m' p) = st_ID (m_stream m p)) \<and> m_streamPool m' = m_streamPool m"
    using assms(2) unfolding x
    by (cases sid; auto simp: apply_setting_def SendSetMaxDynamicTableSize_def conn_frame mem_op_frames
        split: if_splits prod.splits; simp add: reader_part_def)
  show ?thesis using f k cm_ok_cong [OF assms(1) k] by blast
qed

lemma ApplyPeerSettings_link:
  assumes "cm_ok (c, m)" "ApplyPeerSettings xs (c, m) = (r, c', m')"
  shows "cm_ok (c', m')" "reader_part c' = reader_part c" "c_streams c' = c_streams c"
proof -
  have "cm_ok (c', m') \<and> reader_part c' = reader_part c \<and> c_streams c' = c_streams c"
    using assms
  proof (induction xs arbitrary: c m)
    case (Cons x xs)
    obtain r1 c1 m1 where a: "apply_setting x (c, m) = (r1, c1, m1)" by (metis prod.exhaust)
    note l = apply_setting_link [OF Cons.prems(1) a]
    show ?case
    proof (cases r1)
      case None
      then have "ApplyPeerSettings xs (c1, m1) = (r, c', m')" using Cons.prems(2) a by simp
      with Cons.IH [of c1 m1] l show ?thesis by simp
    next
      case (Some e)
      then show ?thesis using Cons.prems(2) a l by simp
    qed
  qed simp
  then show "cm_ok (c', m')" "reader_part c' = reader_part c" "c_streams c' = c_streams c" by auto
qed

text \<open>Header blocks.\<close>

lemma undecoded_fields:
  assumes "undecoded c' = undecoded c"
  shows "c_streams c' = c_streams c" "c_drainStarted c' = c_drainStarted c" "c_drainDone c' = c_drainDone c"
    "c_draining c' = c_draining c" "c_lowerNames c' = c_lowerNames c" "c_maxFrameSize c' = c_maxFrameSize c"
    "c_Send c' = c_Send c" "c_LastStreamID c' = c_LastStreamID c" "c_contStreamID c' = c_contStreamID c"
    "c_self c' = c_self c" "c_writeErr c' = c_writeErr c" "c_nextStreamID c' = c_nextStreamID c"
    "c_writeQ c' = c_writeQ c" "c_wire c' = c_wire c" "c_enc c' = c_enc c" "c_peerMaxStreams c' = c_peerMaxStreams c"
  using arg_cong [OF assms, of c_streams] arg_cong [OF assms, of c_drainStarted] arg_cong [OF assms, of c_drainDone]
    arg_cong [OF assms, of c_draining] arg_cong [OF assms, of c_lowerNames] arg_cong [OF assms, of c_maxFrameSize]
    arg_cong [OF assms, of c_Send] arg_cong [OF assms, of c_LastStreamID] arg_cong [OF assms, of c_contStreamID]
    arg_cong [OF assms, of c_self] arg_cong [OF assms, of c_writeErr] arg_cong [OF assms, of c_nextStreamID]
    arg_cong [OF assms, of c_writeQ] arg_cong [OF assms, of c_wire] arg_cong [OF assms, of c_enc]
    arg_cong [OF assms, of c_peerMaxStreams]
  by (simp_all add: undecoded_def)

lemma decodeBlock_link:
  assumes "cm_ok (c, m)" "decodeBlock L sid block es c = (r, c')"
  shows "cm_ok (c', m)" "undecoded c' = undecoded c" "r = Inr (Some d) \<Longrightarrow> dh_StreamID d = sid"
    "r \<noteq> Inr None"
proof -
  have k: "cache_ok CanonicalMIMEHeaderKey (c_canonNames c)" using assms(1) by (simp add: cm_ok_def conn_ok_def)
  note sp = decodeBlock_spec [OF k assms(2)]
  show u: "undecoded c' = undecoded c" by (fact sp)
  note f = undecoded_fields [OF u]
  have "conn_ok c'" using assms(1) f sp(2) by (simp add: cm_ok_def conn_ok_def)
  then show "cm_ok (c', m)" by (rule cm_ok_cong [OF assms(1)]) (simp_all add: f)
  show "r \<noteq> Inr None" using sp(1) by (simp split: if_splits)
  have "dh_StreamID (fold emit_spec fs d0) = dh_StreamID d0" for fs d0
    by (induction fs arbitrary: d0) (simp_all add: emit_spec_def Let_def)
  then show "r = Inr (Some d) \<Longrightarrow> dh_StreamID d = sid"
    using sp(1) by (auto simp: decode_spec_def split: if_splits)
qed

lemma StartHeaders_link:
  assumes "cm_ok (c, m)" "StartHeaders L sid frag eh es c = (r, c')"
  shows "cm_ok (c', m)" "c_streams c' = c_streams c" "c_LastStreamID c' = max (c_LastStreamID c) sid"
    "r = Inr (Some d) \<Longrightarrow> dh_StreamID d = sid" "c_contStreamID c' = (if eh then c_contStreamID c else sid)"
    "c_self c' = c_self c" "c_Send c' = c_Send c"
proof -
  let ?c1 = "if sid > c_LastStreamID c then c\<lparr>c_LastStreamID := sid\<rparr> else c"
  have c1: "cm_ok (?c1, m)" using assms(1) by (simp add: cm_ok_def conn_ok_def registry_ok_def drain_ok_def)
  have l: "c_LastStreamID ?c1 = max (c_LastStreamID c) sid" by (auto simp: max_def)
  have main: "cm_ok (c', m) \<and> c_streams c' = c_streams c \<and> c_LastStreamID c' = max (c_LastStreamID c) sid \<and>
    (r = Inr (Some d) \<longrightarrow> dh_StreamID d = sid) \<and> c_contStreamID c' = (if eh then c_contStreamID c else sid) \<and>
    c_self c' = c_self c \<and> c_Send c' = c_Send c"
  proof (cases eh)
    case True
    then have "decodeBlock L sid frag es ?c1 = (r, c')" using assms(2) by (simp add: StartHeaders_def Let_def)
    note b = decodeBlock_link [OF c1 this]
    from b undecoded_fields [OF b(2)] l True show ?thesis by (simp split: if_splits)
  next
    case False
    then have "c' = ?c1\<lparr>c_contStreamID := sid, c_contStreamEnded := es, c_contBlock := frag\<rparr>" "r = Inr None"
      using assms(2) by (auto simp: StartHeaders_def Let_def)
    then show ?thesis using c1 l False by (simp add: cm_ok_def conn_ok_def registry_ok_def drain_ok_def)
  qed
  then show "cm_ok (c', m)" "c_streams c' = c_streams c" "c_LastStreamID c' = max (c_LastStreamID c) sid"
    "r = Inr (Some d) \<Longrightarrow> dh_StreamID d = sid" "c_contStreamID c' = (if eh then c_contStreamID c else sid)"
    "c_self c' = c_self c" "c_Send c' = c_Send c" by auto
qed

lemma ConsumeContinuation_link:
  assumes "cm_ok (c, m)" "ConsumeContinuation L frag eh c = (r, c')"
  shows "cm_ok (c', m)" "c_streams c' = c_streams c" "c_LastStreamID c' = c_LastStreamID c"
    "r = Inr (Some d) \<Longrightarrow> dh_StreamID d = c_contStreamID c" "c_contStreamID c' \<in> {0, c_contStreamID c}"
    "c_self c' = c_self c" "c_Send c' = c_Send c" "r = Inr (Some d) \<Longrightarrow> c_contStreamID c' = 0"
proof -
  let ?c2 = "c\<lparr>c_contStreamID := 0, c_contStreamEnded := False, c_contBlock := []\<rparr>"
  have c2: "cm_ok (?c2, m)" "cm_ok (c\<lparr>c_contBlock := b\<rparr>, m)" for b
    using assms(1) by (simp_all add: cm_ok_def conn_ok_def registry_ok_def drain_ok_def)
  consider "r = Inl ErrHeaderListTooLarge" "c' = c" | "r = Inr None" "c' = c\<lparr>c_contBlock := c_contBlock c @ frag\<rparr>"
    | "decodeBlock L (c_contStreamID c) (c_contBlock c @ frag) (c_contStreamEnded c) ?c2 = (r, c')"
    using assms(2) unfolding ConsumeContinuation_def Let_def
    by (cases "MaxHeaderListSize < of_nat (length (c_contBlock c)) + of_nat (length frag)"; cases eh) simp_all
  then have "cm_ok (c', m) \<and> c_streams c' = c_streams c \<and> c_LastStreamID c' = c_LastStreamID c \<and>
    (r = Inr (Some d) \<longrightarrow> dh_StreamID d = c_contStreamID c) \<and> c_contStreamID c' \<in> {0, c_contStreamID c} \<and>
    c_self c' = c_self c \<and> c_Send c' = c_Send c \<and> (r = Inr (Some d) \<longrightarrow> c_contStreamID c' = 0)"
  proof cases
    case 3
    note b = decodeBlock_link [OF c2(1) 3]
    from b undecoded_fields [OF b(2)] show ?thesis by simp
  qed (use assms(1) c2 in simp_all)
  then show "cm_ok (c', m)" "c_streams c' = c_streams c" "c_LastStreamID c' = c_LastStreamID c"
    "r = Inr (Some d) \<Longrightarrow> dh_StreamID d = c_contStreamID c" "c_contStreamID c' \<in> {0, c_contStreamID c}"
    "c_self c' = c_self c" "c_Send c' = c_Send c" "r = Inr (Some d) \<Longrightarrow> c_contStreamID c' = 0" by auto
qed

section \<open>The other goroutines\<close>

lemma reserve_link:
  assumes "cm_ok (c, m)" "reserve_attempt (initCond (c_Send c)) (windows m) p want = (r, sc, W)"
  shows "cm_ok (c\<lparr>c_Send := sc\<rparr>, set_windows W m)"
proof -
  have "PeerInitWindow sc = PeerInitWindow (c_Send c)"
    using assms(2) by (auto simp: reserve_attempt_def initCond_def Let_def split: if_splits)
  then show ?thesis
    by (intro cm_ok_cong [OF assms(1)]) (use assms(1) in \<open>simp_all add: cm_ok_def conn_ok_def mem_op_frames\<close>)
qed

lemma other_release_link:
  assumes "cm_ok (c, m)" "p \<notin> snd ` set (c_streams c)" "p \<notin> set (pfree (m_streamPool m))" "p < pfresh (m_streamPool m)"
  shows "cm_ok (c, Release p m)"
  using assms by (auto simp: cm_ok_def registry_ok_def Release_frame pool_ok_def pool_put_def)

lemma env_step_link:
  assumes "cm_ok (c, m)" "env_step L e (c, m) = (c', m')"
  shows "cm_ok (c', m') \<and> reader_part c' = reader_part c \<and> set (c_streams c') \<subseteq> set (c_streams c)"
proof (cases e)
  case EnvWriter
  have k: "cache_ok ToLower (c_lowerNames c)" using assms(1) by (simp add: cm_ok_def conn_ok_def)
  note w = runWriter_spec [OF k, of L]
  show ?thesis using unowned_cm_ok [OF assms(1) w] unowned_reader_part(1) [OF w(1)]
      unowned_fields(2) [OF w(1)] assms(2) EnvWriter by auto
next
  case (EnvFinish now sid)
  have "set (c_streams (RemoveStream now sid c)) \<subseteq> set (c_streams c)"
    by (auto simp: RemoveStream_def alist_delete_filter Let_def)
  then show ?thesis using finish_cm_ok [OF assms(1)] assms EnvFinish by (auto split: option.splits)
next
  case (EnvReserve p want)
  then show ?thesis using reserve_link [OF assms(1)] assms(2) by (auto split: prod.splits)
next
  case (EnvAcquire k sid conn w)
  then show ?thesis using Acquire_cm_ok(2) [OF assms(1)] assms(2) 
    by (metis env_step.simps(9) order_refl prod.collapse prod.inject)
next
  case (EnvRelease p)
  then show ?thesis using other_release_link [OF assms(1)] assms by (auto split: if_splits)
next
  case (EnvHeader p h)
  then have "c' = c" "m' = upd_stream p (st_Header_update (\<lambda>_. h)) m" using assms(2) by auto
  then show ?thesis using cm_ok_mem [OF assms(1), of m'] by auto
qed (use assms cm_ok_mem [OF assms(1)] in \<open>auto simp: submitAsync_cm_ok mem_op_frames conn_frame\<close>)

lemma env_run_link:
  assumes "cm_ok (lk_conn s, lk_mem s)"
  shows "cm_ok (lk_conn (env_run L es s), lk_mem (env_run L es s))"
    "reader_part (lk_conn (env_run L es s)) = reader_part (lk_conn s)" "link.more (env_run L es s) = link.more s"
    "set (c_streams (lk_conn (env_run L es s))) \<subseteq> set (c_streams (lk_conn s))"
proof -
  have "cm_ok (fold (env_step L) es (c, m)) \<and> reader_part (fst (fold (env_step L) es (c, m))) = reader_part c \<and>
      set (c_streams (fst (fold (env_step L) es (c, m)))) \<subseteq> set (c_streams c)"
    if "cm_ok (c, m)" for c m
    using that
  proof (induction es arbitrary: c m)
    case (Cons e es)
    obtain c1 m1 where e: "env_step L e (c, m) = (c1, m1)" by (metis prod.exhaust)
    from env_step_link [OF Cons.prems e] Cons.IH [of c1 m1] e show ?case by auto
  qed simp
  from this [OF assms] show "cm_ok (lk_conn (env_run L es s), lk_mem (env_run L es s))"
    "reader_part (lk_conn (env_run L es s)) = reader_part (lk_conn s)" "link.more (env_run L es s) = link.more s"
    "set (c_streams (lk_conn (env_run L es s))) \<subseteq> set (c_streams (lk_conn s))"
    by (simp_all add: env_run_def on_link_def split_beta)
qed

text \<open>What tear-down does to a registered stream.\<close>

lemma fail_all_stream:
  assumes "cm_ok (c, m0)" "p \<in> snd ` set (c_streams c)"
  shows "st_end (m_stream (FailAllStreams e c m) p) \<noteq> None"
    "\<forall>ctx. st_Cancel (m_stream (FailAllStreams e c m) p) = Some ctx \<longrightarrow> ctx \<in> m_cancelled (FailAllStreams e c m)"
proof -
  have "distinct (map snd (c_streams c))" using assms(1) by (simp add: cm_ok_def registry_ok_def)
  note f = fail_all_apply [OF this, of e m p, folded FailAllStreams_def]
  show "st_end (m_stream (FailAllStreams e c m) p) \<noteq> None"
    "\<forall>ctx. st_Cancel (m_stream (FailAllStreams e c m) p) = Some ctx \<longrightarrow> ctx \<in> m_cancelled (FailAllStreams e c m)"
    using f assms(2) by (auto simp: FailBody_def st_end_def split: option.splits)
qed

section \<open>The write error\<close>

text \<open>The error the writer stopped with is one the framer returned.\<close>

definition werr_ok :: "H2Lib \<Rightarrow> Conn \<Rightarrow> bool" where
  "werr_ok L c \<longleftrightarrow> (\<forall>e. c_writeErr c = Some e \<longrightarrow> (\<exists>w f. frWrite L w f = Some e))"

lemma processIntent_err: "processIntent L i c = (Some e, c') \<Longrightarrow> \<exists>w f. frWrite L w f = Some e"
  by (cases "wi_kind i") (auto simp: processIntent_def framer_write_def encodeAndWriteResponseHeaders_def
      encodeAndWriteRequestHeaders_def Let_def split: option.splits)

lemma writer_loop_err: "writer_loop L is c = (Some e, c') \<Longrightarrow> \<exists>w f. frWrite L w f = Some e"
proof (induction "is" arbitrary: c)
  case (Cons i "is")
  obtain r c1 where p: "processIntent L i c = (r, c1)" by (metis prod.exhaust)
  with Cons show ?case using processIntent_err [of L i c] by (cases r) auto
qed simp

lemma runWriter_werr:
  assumes "werr_ok L c" "cache_ok ToLower (c_lowerNames c)"
  shows "werr_ok L (runWriter L c)"
proof -
  obtain r c' where w: "writer_loop L (c_writeQ c) c = (r, c')" by (metis prod.exhaust)
  have "c_writeErr c' = c_writeErr c" using writer_loop_spec [OF assms(2) w] by blast
  then show ?thesis using assms(1) w writer_loop_err [of L "c_writeQ c" c]
    by (cases r) (auto simp: runWriter_def werr_ok_def split: option.splits)
qed

lemma submit_werr:
  assumes "werr_ok L c" "cache_ok ToLower (c_lowerNames c)" "submit L i c = (r, c')"
  shows "werr_ok L c'" "r \<noteq> None \<Longrightarrow> \<exists>e w f. frWrite L w f = Some e"
proof -
  let ?c = "c\<lparr>c_writeQ := c_writeQ c @ [i]\<rparr>"
  have w: "werr_ok L (runWriter L ?c)" using assms(1,2) by (intro runWriter_werr) (simp_all add: werr_ok_def)
  have c': "c' = c \<and> r = c_writeErr c \<or> c' = runWriter L ?c \<and> r = c_writeErr (runWriter L ?c)"
    using assms(3) by (cases "c_writeErr c") (auto simp: submit_def Let_def)
  then show "werr_ok L c'" using w assms(1) by auto
  then show "r \<noteq> None \<Longrightarrow> \<exists>e w f. frWrite L w f = Some e" using c' unfolding werr_ok_def by (cases r) metis+
qed

lemma emit_writeErr: "c_writeErr (fold emitHeader fs c) = c_writeErr c"
  by (induction fs arbitrary: c) (simp_all add: emitHeader_def Let_def split: option.splits prod.splits)

lemma decode_writeErr: "c_writeErr (snd (decodeBlock L sid block es c)) = c_writeErr c"
  by (simp add: decodeBlock_def emit_writeErr Let_def split: prod.splits)

lemma apply_setting_writeErr: "c_writeErr (fst (snd (apply_setting x cm))) = c_writeErr (fst cm)"
  by (cases cm; cases "fst x") (auto simp: apply_setting_def SendSetMaxDynamicTableSize_def conn_frame split: prod.splits)

lemma settings_writeErr: "c_writeErr (fst (snd (ApplyPeerSettings xs cm))) = c_writeErr (fst cm)"
proof (induction xs arbitrary: cm)
  case (Cons x xs)
  show ?case using Cons.IH apply_setting_writeErr [of x cm] by (auto split: option.splits prod.splits)
qed simp

lemma writeErr_frames:
  "c_writeErr (fst (HandleInboundData k sid data fl es cm)) = c_writeErr (fst cm)"
  "c_writeErr (fst (HandleWindowUpdate sid inc cm)) = c_writeErr (fst cm)"
  "c_writeErr (fst (HandleRSTStream sid cm)) = c_writeErr (fst cm)"
  "c_writeErr (BeginDrain now c) = c_writeErr c" "c_writeErr (HandlePingAck d c) = c_writeErr c"
  "c_writeErr (SetReadDeadline t c) = c_writeErr c" "c_writeErr (snd (SendOrCheckPing now c)) = c_writeErr c"
  "c_writeErr (RemoveStream now sid c) = c_writeErr c" "c_writeErr (Conn_AddStream p m c) = c_writeErr c"
  "c_writeErr (snd (StartHeaders L sid frag eh es c)) = c_writeErr c"
  "c_writeErr (snd (ConsumeContinuation L frag eh c)) = c_writeErr c"
  by (auto simp: HandleInboundData_def HandleWindowUpdate_def HandleRSTStream_def BeginDrain_def finishDrain_def
      HandlePingAck_def SetReadDeadline_def SendOrCheckPing_def RemoveStream_def Conn_AddStream_def StartHeaders_def
      ConsumeContinuation_def SendWindowUpdate_def SendRSTStream_def SendPing_def conn_frame decode_writeErr Let_def
      split: prod.splits option.splits)

lemma env_step_werr:
  assumes "werr_ok L (fst cm)" "cm_ok cm"
  shows "werr_ok L (fst (env_step L e cm))"
proof (cases cm)
  case (Pair c m)
  have "cache_ok ToLower (c_lowerNames c)" using assms(2) Pair by (simp add: cm_ok_def conn_ok_def)
  with assms(1) Pair show ?thesis
    by (cases e) (auto simp: werr_ok_def conn_frame writeErr_frames runWriter_werr [unfolded werr_ok_def]
        split: option.splits prod.splits)
qed

lemma env_run_werr:
  assumes "werr_ok L (lk_conn s)" "cm_ok (lk_conn s, lk_mem s)"
  shows "werr_ok L (lk_conn (env_run L es s))"
proof -
  have "werr_ok L (fst (fold (env_step L) es cm))" if "werr_ok L (fst cm)" "cm_ok cm" for cm
    using that
  proof (induction es arbitrary: cm)
    case (Cons e es)
    have "cm_ok (env_step L e cm)" using env_step_link Cons.prems(2) by (metis prod.collapse)
    with Cons.IH [of "env_step L e cm"] env_step_werr [OF Cons.prems] show ?case by simp
  qed simp
  from this [of "(lk_conn s, lk_mem s)"] assms show ?thesis by (simp add: env_run_def on_link_def split_beta)
qed

section \<open>Reader loops\<close>

text \<open>What a role's loop relies on: one turn keeps the role's invariant, whether it goes on or returns.\<close>

locale reader_loop =
  fixes turn :: "'t \<Rightarrow> 's \<Rightarrow> 'r option \<times> 's"
    and inv :: "'s \<Rightarrow> bool"
  assumes turn_inv: "inv s \<Longrightarrow> turn t s = (r, s') \<Longrightarrow> inv s'"
begin

lemma loop_inv: "inv s \<Longrightarrow> run_loop turn ts s = Some (r, s') \<Longrightarrow> inv s'"
proof (induction ts arbitrary: s)
  case (Cons t ts)
  obtain r1 s1 where t: "turn t s = (r1, s1)" by (metis prod.exhaust)
  note i = turn_inv [OF Cons.prems(1) t]
  show ?case using Cons.prems(2) Cons.IH [OF i] i t by (cases r1) auto
qed simp

lemma turns_inv: "inv s \<Longrightarrow> inv (fold (\<lambda>t s. snd (turn t s)) ts s)"
  by (induction ts arbitrary: s) (auto dest: turn_inv [OF _ prod.collapse [symmetric]])

text \<open>A loop returns only because one of its turns does, in a state that satisfies the invariant.\<close>

lemma loop_last_turn:
  assumes "inv s" "run_loop turn ts s = Some (r, s')"
  shows "\<exists>t \<in> set ts. \<exists>s0. inv s0 \<and> turn t s0 = (Some r, s')"
  using assms
proof (induction ts arbitrary: s)
  case (Cons t ts)
  obtain r1 s1 where t: "turn t s = (r1, s1)" by (metis prod.exhaust)
  show ?case
  proof (cases r1)
    case None
    then have "run_loop turn ts s1 = Some (r, s')" using Cons.prems(2) t by simp
    from Cons.IH [OF turn_inv [OF Cons.prems(1) t] this] show ?thesis by auto
  next
    case (Some r')
    then show ?thesis using Cons.prems t by auto
  qed
qed simp

end

end
