(* ===== verification/W_Stream.thy ===== *)
theory W_Stream
  imports W_Response H2_Link
begin

text \<open>
  One request on the worker (\<open>stream.go\<close>): \<open>parseRequestURI\<close> and \<open>serveStream\<close>.

  The \<open>http.Handler\<close> is the application's. It is a parameter: any program that uses the response writer
  and the request body, as a tree of operations in which each continuation is given the result of the
  operation before it (\<open>handler\<close>). A handler may return or panic; one that never returns has no tree.
\<close>

section \<open>Definitions\<close>

subsection \<open>Request URIs\<close>

text \<open>\<open>url.PathUnescape\<close>; \<open>None\<close> for a malformed escape.\<close>

definition hex_val :: "char \<Rightarrow> nat option" where
  "hex_val c =
     (let n = of_char c in
      if 48 \<le> n \<and> n \<le> (57 :: nat) then Some (n - 48)
      else if 97 \<le> n \<and> n \<le> 102 then Some (n - 87)
      else if 65 \<le> n \<and> n \<le> 70 then Some (n - 55)
      else None)"

fun PathUnescape :: "string \<Rightarrow> string option" where
  "PathUnescape [] = Some []"
| "PathUnescape (c # cs) =
     (if c = CHR ''%'' then
        (case cs of
           a # b # r \<Rightarrow>
             (case (hex_val a, hex_val b, PathUnescape r) of
                (Some x, Some y, Some s) \<Rightarrow> Some (char_of (16 * x + y) # s)
              | _ \<Rightarrow> None)
         | _ \<Rightarrow> None)
      else map_option (Cons c) (PathUnescape cs))"

text \<open>\<open>strings.Cut(raw, "?")\<close>.\<close>

fun Cut :: "char \<Rightarrow> string \<Rightarrow> string \<times> string \<times> bool" where
  "Cut sep [] = ([], [], False)"
| "Cut sep (c # cs) =
     (if c = sep then ([], cs, True)
      else let (before, after, ok) = Cut sep cs in (c # before, after, ok))"

record URL =
  u_Path :: string
  u_RawPath :: string
  u_RawQuery :: string

definition parseRequestURI :: "string \<Rightarrow> URL option" where
  "parseRequestURI raw =
     (if raw = [] \<or> (hd raw \<noteq> CHR ''/'' \<and> raw \<noteq> ''*'') then None
      else
        let (before, after, ok) = Cut (CHR ''?'') raw;
            query = (if ok then after else []);
            path = (if ok then before else raw)
        in case PathUnescape path of
             None \<Rightarrow> None
           | Some decoded \<Rightarrow>
               if decoded \<noteq> path then Some \<lparr>u_Path = decoded, u_RawPath = path, u_RawQuery = query\<rparr>
               else Some \<lparr>u_Path = path, u_RawPath = [], u_RawQuery = query\<rparr>)"

subsection \<open>Handlers\<close>

record Request =
  rq_Method :: string
  rq_URL :: URL
  rq_RequestURI :: string
  rq_Header :: header
  rq_Host :: string

datatype handler =
    HReturn
  | HPanic
  | HHeader "header \<Rightarrow> header" handler
  | HWriteHeader int handler
  | HFlush handler
  | HWrite "byte list" "nat \<times> gerr option \<Rightarrow> handler"
  | HRead nat "read_result \<Rightarrow> handler"
  | HCloseBody handler
  | HCtxDone "bool \<Rightarrow> handler"

text \<open>What the frame reader does to the stream's body, and a read that waits for it.\<close>

fun arrive1 :: "ptr \<Rightarrow> inbound \<Rightarrow> mem \<Rightarrow> mem" where
  "arrive1 p (InPush c) m = mem_PushData p c m"
| "arrive1 p InClose m = mem_CloseData p m"
| "arrive1 p (InFail e) m = mem_FailBody e p m"

definition arrive :: "ptr \<Rightarrow> inbound list \<Rightarrow> mem \<Rightarrow> mem" where
  "arrive p xs m = fold (arrive1 p) xs m"

fun read_wait :: "nat \<Rightarrow> ptr \<Rightarrow> inbound list list \<Rightarrow> mem \<Rightarrow> (read_result \<times> inbound list list \<times> mem) option" where
  "read_wait n p [] m =
     (case mem_Read n p m of (RBlock, _) \<Rightarrow> None | (r, m') \<Rightarrow> Some (r, [], m'))"
| "read_wait n p (b # bs) m =
     (let m1 = arrive p b m in
      case mem_Read n p m1 of (RBlock, _) \<Rightarrow> read_wait n p bs m1 | (r, m') \<Rightarrow> Some (r, bs, m'))"

text \<open>\<open>c.handler.ServeHTTP(&rw, req)\<close>: whether it panicked, and the state it leaves; \<open>None\<close> if it does not
  return because an operation does not.\<close>

primrec run_handler :: "H2Lib \<Rightarrow> handler \<Rightarrow> wstate \<Rightarrow> (bool \<times> wstate) option" where
  "run_handler L HReturn s = Some (False, s)"
| "run_handler L HPanic s = Some (True, s)"
| "run_handler L (HHeader f h) s = run_handler L h (set_Header (f (rw_Header s)) s)"
| "run_handler L (HWriteHeader st h) s = run_handler L h (WriteHeader L st s)"
| "run_handler L (HFlush h) s = run_handler L h (Flush L s)"
| "run_handler L (HWrite p k) s =
     (case rw_Write L p s of None \<Rightarrow> None | Some (res, s') \<Rightarrow> run_handler L (k res) s')"
| "run_handler L (HRead n k) s =
     (case read_wait n (rw_stream (w_rw s)) (w_in s) (w_mem s) of
        None \<Rightarrow> None
      | Some (r, ins, m) \<Rightarrow> run_handler L (k r) (s\<lparr>w_in := ins, w_mem := m\<rparr>))"
| "run_handler L (HCloseBody h) s =
     run_handler L h (s\<lparr>w_mem := mem_Close (rw_stream (w_rw s)) (w_mem s)\<rparr>)"
| "run_handler L (HCtxDone k) s =
     run_handler L (k (case st_Ctx (w_stream s) of Some c \<Rightarrow> c \<in> m_cancelled (w_mem s) | None \<Rightarrow> False)) s"

subsection \<open>serveStream\<close>

definition stream_Reset :: "ErrCode \<Rightarrow> wstate \<Rightarrow> wstate" where
  "stream_Reset code s =
     s\<lparr>w_conn := SendRSTStream (w_ID s) code (w_conn s),
       w_sent := (if c_writeErr (w_conn s) = None then w_sent s @ [SReset code] else w_sent s)\<rparr>"

text \<open>The deferred function that recovers from a panic.\<close>

definition recover_panic :: "H2Lib \<Rightarrow> wstate \<Rightarrow> wstate" where
  "recover_panic L s =
     (if \<not> rw_wroteHeaders (w_rw s) then
        let s1 = upd_rw (\<lambda>rw. rw\<lparr>rw_status := 500\<rparr>) s;
            s2 = set_Header (Header_Del (rw_Header s1) ContentLength) s1;
            s3 = upd_rw (\<lambda>rw. rw\<lparr>rw_declaredCL := - 1\<rparr>) s2
        in snd (writeHeaders L True s3)
      else stream_Reset ErrCodeInternal s)"

text \<open>What follows a handler that returned: closing the response half (whether END_STREAM was sent), then
  the request half. What arrives for the body in between is the next batch of \<open>w_in\<close>.\<close>

definition close_response :: "H2Lib \<Rightarrow> wstate \<Rightarrow> bool \<times> wstate" where
  "close_response L s =
     (if rw_clViolated (w_rw s) then (False, stream_Reset ErrCodeInternal s)
      else if rw_err (w_rw s) = None then
        (case endStream L s of
           (None, s') \<Rightarrow> (True, s')
         | (Some e, s') \<Rightarrow>
             (False, if e = ErrShortContentLength then stream_Reset ErrCodeInternal s' else s'))
      else (False, s))"

definition arrivals :: "wstate \<Rightarrow> wstate" where
  "arrivals s =
     s\<lparr>w_mem := arrive (rw_stream (w_rw s)) (concat (take 1 (w_in s))) (w_mem s), w_in := drop 1 (w_in s)\<rparr>"

definition finish_stream :: "H2Lib \<Rightarrow> wstate \<Rightarrow> wstate" where
  "finish_stream L s =
     (let (completed, s1) = close_response L s;
          s2 = arrivals s1;
          s3 = (if completed \<and> \<not> DataDone (w_stream s2) then stream_Reset ErrCodeNo s2 else s2)
      in s3\<lparr>w_mem := mem_CloseData (rw_stream (w_rw s3)) (w_mem s3)\<rparr>)"

text \<open>The deferred clean-up, which runs last.\<close>

definition cleanup :: "nat \<Rightarrow> wstate \<Rightarrow> wstate" where
  "cleanup now s =
     s\<lparr>w_conn := RemoveStream now (w_ID s) (w_conn s), w_mem := Release (rw_stream (w_rw s)) (w_mem s)\<rparr>"

definition serveStream ::
  "H2Lib \<Rightarrow> nat \<Rightarrow> (Request \<Rightarrow> handler) \<Rightarrow> ptr \<Rightarrow> DecodedHeaders \<Rightarrow> credit_event list \<Rightarrow> inbound list list
     \<Rightarrow> Conn \<Rightarrow> mem \<Rightarrow> wstate option" where
  "serveStream L now hdl p decoded env ins c m =
     (let s = \<lparr>w_rw = new_responseWriter p (dh_Method decoded = ''HEAD''), w_conn = c, w_mem = m,
               w_env = env, w_in = ins, w_sent = []\<rparr>
      in case parseRequestURI (dh_Path decoded) of
           None \<Rightarrow> Some (cleanup now (stream_Reset ErrCodeProtocol s))
         | Some uri \<Rightarrow>
             let req = \<lparr>rq_Method = dh_Method decoded, rq_URL = uri, rq_RequestURI = dh_Path decoded,
                        rq_Header = dh_Header decoded, rq_Host = dh_Authority decoded\<rparr>
             in case run_handler L (hdl req) s of
                  None \<Rightarrow> None
                | Some (panicked, s1) \<Rightarrow>
                    Some (cleanup now (if panicked then recover_panic L s1 else finish_stream L s1)))"

section \<open>Request URIs\<close>

lemma Cut_spec:
  assumes "Cut sep s = (b, a, ok)"
  shows "sep \<notin> set b" "s = b @ (if ok then sep # a else [])"
proof -
  have "sep \<notin> set b \<and> s = b @ (if ok then sep # a else [])"
    using assms
  proof (induction s arbitrary: b a ok)
    case (Cons c s)
    show ?case
    proof (cases "c = sep")
      case True
      then show ?thesis using Cons.prems by auto
    next
      case False
      obtain b1 a1 ok1 where e: "Cut sep s = (b1, a1, ok1)" by (metis prod.exhaust)
      then have "b = c # b1" "a = a1" "ok = ok1" using Cons.prems False by auto
      moreover have "sep \<notin> set b1" "s = b1 @ (if ok1 then sep # a1 else [])" using Cons.IH [OF e] by blast+
      ultimately show ?thesis using False by simp
    qed
  qed simp
  then show "sep \<notin> set b" "s = b @ (if ok then sep # a else [])" by blast+
qed

lemma PathUnescape_Nil: "PathUnescape p = Some [] \<Longrightarrow> p = []"
  by (cases p) (auto split: if_splits list.splits option.splits)

section \<open>The response\<close>

lemma arrive_frame:
  "st_ID (m_stream (arrive p xs m) q) = st_ID (m_stream m q)"
proof (induction xs arbitrary: m)
  case (Cons x xs)
  have "st_ID (m_stream (arrive1 p x m) q) = st_ID (m_stream m q)"
    by (cases x) (auto simp: mem_PushData_def mem_CloseData_def mem_FailBody_def PushData_def CloseData_def
        FailBody_def cancel_ctx_def split: option.splits)
  then show ?case using Cons.IH [of "arrive1 p x m"] by (simp add: arrive_def)
qed (simp add: arrive_def)

lemma read_wait_frame:
  "read_wait n p bs m = Some (r, bs', m') \<Longrightarrow> st_ID (m_stream m' q) = st_ID (m_stream m q)"
proof (induction bs arbitrary: m)
  case Nil
  then show ?case using mem_op_frames(1) [of n p m q]
    by (auto split: prod.splits read_result.splits)
next
  case (Cons b bs)
  have "st_ID (m_stream (snd (mem_Read n p (arrive p b m))) q) = st_ID (m_stream m q)"
    by (simp add: mem_op_frames arrive_frame)
  then show ?case using Cons.prems Cons.IH [of "arrive p b m"]
    by (auto simp: arrive_frame Let_def split: prod.splits read_result.splits)
qed

lemma inv_cong:
  assumes "w_rw s' = w_rw s" "w_sent s' = w_sent s" "w_conn s' = w_conn s" "w_ID s' = w_ID s"
  shows "rw_inv s' = rw_inv s" "wire_inv L c0 sid s' = wire_inv L c0 sid s" "settled s' = settled s"
    "evolves s0 s' = evolves s0 s"
  using assms by (simp_all only: rw_inv_def wire_inv_def settled_def evolves_def)

text \<open>Whatever the handler does, the invariants of the response writer hold when it returns or panics.\<close>

lemma run_handler_inv:
  assumes "rw_inv s" "wire_inv L c0 sid s" "settled s" "run_handler L h s = Some (b, s')"
  shows "rw_inv s' \<and> wire_inv L c0 sid s' \<and> settled s' \<and> evolves s s'"
  using assms
proof (induction h arbitrary: s)
  case (HHeader f h)
  note c = inv_cong [of "set_Header (f (rw_Header s)) s" s, OF set_Header_simps(1,5,2)] 
  have "w_ID (set_Header (f (rw_Header s)) s) = w_ID s" by (rule set_Header_simps(7))
  note c = c [OF this]
  show ?case using HHeader.IH [of "set_Header (f (rw_Header s)) s"] HHeader.prems c
    by (auto simp: evolves_def)
next
  case (HWriteHeader st h)
  note w = WriteHeader_inv [OF HWriteHeader.prems(1-3), of st]
  from HWriteHeader.IH [OF w(1-3)] HWriteHeader.prems(4) w(4) show ?case by (auto dest: evolves_trans)
next
  case (HFlush h)
  note w = Flush_inv [OF HFlush.prems(1-3)]
  from HFlush.IH [OF w(1-3)] HFlush.prems(4) w(4) show ?case by (auto dest: evolves_trans)
next
  case (HWrite p k)
  then obtain n e s1 where w: "rw_Write L p s = Some ((n, e), s1)" "run_handler L (k (n, e)) s1 = Some (b, s')"
    by (auto split: option.splits prod.splits)
  note i = rw_Write_inv [OF HWrite.prems(1-3) w(1)]
  from HWrite.IH [OF rangeI i(1-3) w(2)] i(4) show ?case by (auto dest: evolves_trans)
next
  case (HRead n k)
  then obtain r ins m where w: "read_wait n (rw_stream (w_rw s)) (w_in s) (w_mem s) = Some (r, ins, m)"
    "run_handler L (k r) (s\<lparr>w_in := ins, w_mem := m\<rparr>) = Some (b, s')"
    by (auto split: option.splits prod.splits)
  note c = inv_cong [of "s\<lparr>w_in := ins, w_mem := m\<rparr>" s, simplified, OF read_wait_frame [OF w(1)]]
  from HRead.IH [OF rangeI _ _ _ w(2)] HRead.prems(1-3) c show ?case by (auto simp: evolves_def)
next
  case (HCloseBody h)
  note c = inv_cong [of "s\<lparr>w_mem := mem_Close (rw_stream (w_rw s)) (w_mem s)\<rparr>" s, simplified, OF mem_op_frames(3)]
  from HCloseBody.IH [of "s\<lparr>w_mem := mem_Close (rw_stream (w_rw s)) (w_mem s)\<rparr>"] HCloseBody.prems c
  show ?case by (auto simp: evolves_def)
next
  case (HCtxDone k)
  then show ?case using HCtxDone.IH [OF rangeI] by auto
qed auto

section \<open>The end of the stream\<close>

lemma stream_Reset_spec:
  assumes "wire_inv L c0 sid s"
  shows "wire_inv L c0 sid (stream_Reset code s)" "evolves s (stream_Reset code s)"
    "failed (w_conn (stream_Reset code s)) = failed (w_conn s)" "w_rw (stream_Reset code s) = w_rw s"
    "\<not> failed (w_conn s) \<Longrightarrow> w_sent (stream_Reset code s) = w_sent s @ [SReset code]"
proof -
  have c: "w_conn (stream_Reset code s) = submitAsync (rst_intent (w_ID s) code) (w_conn s)"
    by (simp add: stream_Reset_def SendRSTStream_def rst_intent_def)
  show "w_rw (stream_Reset code s) = w_rw s" by (simp add: stream_Reset_def)
  show "\<not> failed (w_conn s) \<Longrightarrow> w_sent (stream_Reset code s) = w_sent s @ [SReset code]"
    by (simp add: stream_Reset_def failed_def)
  show f: "failed (w_conn (stream_Reset code s)) = failed (w_conn s)"
    unfolding c failed_def by (simp add: conn_frame)
  show "evolves s (stream_Reset code s)"
    using f by (simp add: evolves_def stream_Reset_def SendRSTStream_def conn_frame)
  have sid: "w_ID s = sid" using assms by (simp add: wire_inv_def)
  show "wire_inv L c0 sid (stream_Reset code s)"
  proof (cases "c_writeErr (w_conn s)")
    case None
    then show ?thesis
      using assms submitAsync_outgoing(1) [OF None, of L "rst_intent sid code"]
        submitAsync_outgoing(2) [OF None, of "rst_intent sid code"] unfolding wire_inv_def c
      by (simp add: stream_Reset_def conn_frame frames_of_append comp_def sid)
  next
    case (Some e)
    then show ?thesis using assms unfolding wire_inv_def c by (simp add: stream_Reset_def conn_frame)
  qed
qed

lemma writeHeaders_final:
  assumes "wire_inv L c0 sid s" "\<not> rw_wroteHeaders (w_rw s)" "writeHeaders L True s = (r, s')"
  shows "wire_inv L c0 sid s'" "evolves s s'" "r \<noteq> None \<Longrightarrow> failed (w_conn s')"
    "r = None \<Longrightarrow> w_sent s' = w_sent s @ [SHeaders (rw_status (w_rw (prepare s))) (rw_Header (prepare s)) True]"
proof -
  let ?s1 = "upd_rw (\<lambda>rw. rw\<lparr>rw_wroteHeaders := True\<rparr>) (prepare s)"
  let ?x = "SHeaders (rw_status (w_rw (prepare s))) (rw_Header (prepare s)) True"
  have w1: "wire_inv L c0 sid ?s1" using assms(1) by (simp add: wire_inv_def)
  obtain s2 where s2: "send L ?x ?s1 = (r, s2)"
    "s' = (case r of Some e \<Rightarrow> upd_rw (\<lambda>rw. rw\<lparr>rw_err := Some e\<rparr>) s2 | None \<Rightarrow> s2)"
    using assms(2,3)
    by (auto simp: writeHeaders_def rw_SendHeaders_send Let_def split: prod.splits option.splits)
  note sp = send_spec [OF w1 s2(1)] and fr = send_frame [OF s2(1)]
  have e1: "evolves s ?s1" by (simp add: evolves_def)
  show "wire_inv L c0 sid s'" using sp(1) s2(2) by (cases r) (simp_all add: err_latched)
  show "evolves s s'" using evolves_trans [OF e1 sp(3)] s2(2) by (cases r) (simp_all add: err_latched)
  show "r \<noteq> None \<Longrightarrow> failed (w_conn s')" using sp(2) s2(2) by (cases r) simp_all
  show "r = None \<Longrightarrow> w_sent s' = w_sent s @ [?x]" using fr(5) s2(2) by simp
qed

lemma endStream_spec:
  assumes "rw_inv s" "wire_inv L c0 sid s" "settled s" "rw_err (w_rw s) = None" "endStream L s = (r, s')"
  shows "wire_inv L c0 sid s'" "evolves s s'"
    "\<not> failed (w_conn s') \<Longrightarrow> (r = None \<and> resp_run (rw_isHead (w_rw s)) (w_sent s') = REnd)
       \<or> (r = Some ErrShortContentLength \<and> resp_step (rw_isHead (w_rw s)) (resp_run (rw_isHead (w_rw s)) (w_sent s')) (SReset ErrCodeInternal) = RReset)"
proof -
  let ?p = "prepare s"
  note p = prepare_inv [OF assms(1,2)]
  have main: "wire_inv L c0 sid s' \<and> evolves s s' \<and> (\<not> failed (w_conn s') \<longrightarrow>
      (r = None \<and> resp_run (rw_isHead (w_rw s)) (w_sent s') = REnd)
       \<or> (r = Some ErrShortContentLength \<and> resp_step (rw_isHead (w_rw s)) (resp_run (rw_isHead (w_rw s)) (w_sent s')) (SReset ErrCodeInternal) = RReset))"
  proof (cases "\<not> rw_noBody (w_rw ?p) \<and> rw_declaredCL (w_rw ?p) \<ge> 0 \<and> rw_written (w_rw ?p) < rw_declaredCL (w_rw ?p)")
    case True
    then have "r = Some ErrShortContentLength" "s' = ?p" using assms(5) by (auto simp: endStream_def)
    moreover have "resp_step isHead (resp_run isHead (w_sent ?p)) (SReset ErrCodeInternal) = RReset"
      if "\<not> failed (w_conn ?p)" "isHead = rw_isHead (w_rw ?p)" for isHead
      using p(1) that unfolding rw_inv_def Let_def by (cases "rw_wroteHeaders (w_rw ?p)") auto
    ultimately show ?thesis using p(2,3) by simp
  next
    case len: False
    show ?thesis
    proof (cases "rw_wroteHeaders (w_rw s)")
      case False
      then have w: "writeHeaders L True ?p = (r, s')" using assms(5) len by (auto simp: endStream_def Let_def)
      note f = writeHeaders_final [OF p(2) _ w]
      have "resp_step (rw_isHead (w_rw s)) RPre (SHeaders (rw_status (w_rw ?p)) (rw_Header ?p) True) = REnd"
        if "\<not> failed (w_conn ?p)"
      proof (cases "rw_noBody (w_rw ?p)")
        case True
        then show ?thesis using p(1) unfolding rw_inv_def Let_def by auto
      next
        case nb: False
        have "\<not> rw_prepared (w_rw s)" using False nb assms(3) by (auto simp: settled_def)
        then have "declared (rw_Header ?p) \<le> 0"
          using p(4) len nb p(1) that False unfolding rw_inv_def Let_def by auto
        then show ?thesis using p(1) unfolding rw_inv_def Let_def by auto
      qed
      moreover have "resp_run (rw_isHead (w_rw s)) (w_sent ?p) = RPre" if "\<not> failed (w_conn ?p)"
        using p(1) that False unfolding rw_inv_def Let_def by simp
      ultimately show ?thesis
        using f False evolves_trans [OF p(3) f(2)] by (cases r) (auto simp: evolves_def simp del: resp_step.simps)
    next
      case True
      obtain s2 where s2: "send L (SData [] True) ?p = (r, s2)"
        "s' = (case r of Some e \<Rightarrow> upd_rw (\<lambda>rw. rw\<lparr>rw_err := Some e\<rparr>) s2 | None \<Rightarrow> s2)"
        using assms(5) len True
        by (auto simp: endStream_def rw_SendData_send Let_def split: prod.splits option.splits if_splits)
      note sp = send_spec [OF p(2) s2(1)] and fr = send_frame [OF s2(1)]
      have "resp_step (rw_isHead (w_rw s)) (resp_run (rw_isHead (w_rw s)) (w_sent ?p)) (SData [] True) = REnd"
        if "\<not> failed (w_conn ?p)"
        using p(1) that len True unfolding rw_inv_def Let_def by auto
      then have "\<not> failed (w_conn s') \<Longrightarrow> r = None \<and> resp_run (rw_isHead (w_rw s)) (w_sent s') = REnd"
        using sp(2,3) fr(5) s2(2) by (cases r) (auto simp: evolves_def simp del: resp_step.simps)
      moreover have "wire_inv L c0 sid s' \<and> evolves s s'"
        using sp(1) evolves_trans [OF p(3) sp(3)] s2(2) by (cases r) (simp_all add: err_latched)
      ultimately show ?thesis by blast
    qed
  qed
  then show "wire_inv L c0 sid s'" "evolves s s'"
    "\<not> failed (w_conn s') \<Longrightarrow> (r = None \<and> resp_run (rw_isHead (w_rw s)) (w_sent s') = REnd)
       \<or> (r = Some ErrShortContentLength \<and> resp_step (rw_isHead (w_rw s)) (resp_run (rw_isHead (w_rw s)) (w_sent s')) (SReset ErrCodeInternal) = RReset)"
    by auto
qed

text \<open>A stream that is over on the wire.\<close>

definition stream_over :: "wstate \<Rightarrow> bool" where
  "stream_over s \<longleftrightarrow> resp_run (rw_isHead (w_rw s)) (w_sent s) \<in> {REnd, RReset}"

lemma stream_Reset_over:
  assumes "rw_inv s" "wire_inv L c0 sid s" "\<not> failed (w_conn (stream_Reset code s))"
  shows "stream_over (stream_Reset code s)"
proof -
  note r = stream_Reset_spec [OF assms(2), of code]
  have "\<not> failed (w_conn s)" using assms(3) r(3) by simp
  then show ?thesis
    using assms(1) r(4,5) unfolding stream_over_def rw_inv_def Let_def by (auto split: if_splits)
qed

lemma recover_panic_spec:
  assumes "rw_inv s" "wire_inv L c0 sid s" "settled s"
  shows "wire_inv L c0 sid (recover_panic L s)" "evolves s (recover_panic L s)"
    "\<not> failed (w_conn (recover_panic L s)) \<Longrightarrow> stream_over (recover_panic L s)"
proof -
  let ?s3 = "upd_rw (\<lambda>rw. rw\<lparr>rw_declaredCL := - 1\<rparr>)
    (set_Header (Header_Del (rw_Header s) ContentLength) (upd_rw (\<lambda>rw. rw\<lparr>rw_status := 500\<rparr>) s))"
  have "wire_inv L c0 sid (recover_panic L s) \<and> evolves s (recover_panic L s) \<and>
    (\<not> failed (w_conn (recover_panic L s)) \<longrightarrow> stream_over (recover_panic L s))"
  proof (cases "rw_wroteHeaders (w_rw s)")
    case True
    then have "recover_panic L s = stream_Reset ErrCodeInternal s" by (simp add: recover_panic_def)
    then show ?thesis
      using stream_Reset_spec [OF assms(2)] stream_Reset_over [OF assms(1,2)] by auto
  next
    case False
    obtain r s' where w: "writeHeaders L True ?s3 = (r, s')" by (metis prod.exhaust)
    have s': "recover_panic L s = s'" using False w by (simp add: recover_panic_def rw_Header_def)
    have w3: "wire_inv L c0 sid ?s3" using assms(2) by (simp add: wire_inv_def set_Header_def)
    have e3: "evolves s ?s3" by (simp add: evolves_def)
    have h3: "rw_Header ?s3 = Header_Del (rw_Header s) ContentLength" by (simp add: rw_Header_def set_Header_def)
    have h: "rw_Header (prepare ?s3) = Header_Del (rw_Header s) ContentLength" "rw_status (w_rw (prepare ?s3)) = 500"
      using h3 by (cases "rw_prepared (w_rw s)"; simp add: prepare_eq prepared_rw_def cl_header_def)+
    note f = writeHeaders_final [OF w3 _ w]
    have e: "evolves s s'" using evolves_trans [OF e3 f(2)] False by simp
    have "stream_over s'" if nf: "\<not> failed (w_conn s')"
    proof -
      have "\<not> failed (w_conn s)" "rw_isHead (w_rw s') = rw_isHead (w_rw s)" using e nf by (auto simp: evolves_def)
      moreover from this(1) have "resp_run (rw_isHead (w_rw s)) (w_sent s) = RPre"
        using assms(1) False unfolding rw_inv_def Let_def by simp
      moreover have "r = None" using f(3) nf False by (cases r) auto
      ultimately show ?thesis using f(4) False h by (simp add: stream_over_def)
    qed
    then show ?thesis using s' f(1) e False by simp
  qed
  then show "wire_inv L c0 sid (recover_panic L s)" "evolves s (recover_panic L s)"
    "\<not> failed (w_conn (recover_panic L s)) \<Longrightarrow> stream_over (recover_panic L s)" by auto
qed

lemma wroteHeaders_wire:
  "wire_inv L c0 sid s \<Longrightarrow> wire_inv L c0 sid (upd_rw (\<lambda>rw. rw\<lparr>rw_wroteHeaders := True\<rparr>) (prepare s))"
  by (simp add: wire_inv_def)

lemma recover_panic_ok:
  assumes "\<And>w f. frWrite L w f = None" "\<not> failed (w_conn s)" "wire_inv L c0 sid s"
  shows "\<not> failed (w_conn (recover_panic L s))"
proof (cases "rw_wroteHeaders (w_rw s)")
  case True
  then show ?thesis using assms(2) stream_Reset_spec(3) [OF assms(3)] by (simp add: recover_panic_def)
next
  case False
  let ?s3 = "upd_rw (\<lambda>rw. rw\<lparr>rw_declaredCL := - 1\<rparr>)
    (set_Header (Header_Del (rw_Header s) ContentLength) (upd_rw (\<lambda>rw. rw\<lparr>rw_status := 500\<rparr>) s))"
  let ?s4 = "upd_rw (\<lambda>rw. rw\<lparr>rw_wroteHeaders := True\<rparr>) (prepare ?s3)"
  have "wire_inv L c0 sid ?s3" using assms(3) by (simp add: wire_inv_def set_Header_def)
  then have w: "wire_inv L c0 sid ?s4" by (rule wroteHeaders_wire)
  have n: "c_writeErr (w_conn ?s4) = None" using assms(2) by (simp add: failed_def)
  obtain s' where s': "send L (SHeaders (rw_status (w_rw (prepare ?s3))) (rw_Header (prepare ?s3)) True) ?s4 = (None, s')"
    "c_writeErr (w_conn s') = None" by (rule send_ok [OF assms(1) n w])
  have "recover_panic L s = s'"
    using False s'(1) by (simp add: recover_panic_def writeHeaders_def rw_SendHeaders_send rw_Header_def Let_def)
  then show ?thesis using s'(2) send_spec(4) [OF w s'(1)] assms(2) by (simp add: failed_def)
qed

lemma close_response_spec:
  assumes "rw_inv s" "wire_inv L c0 sid s" "settled s" "close_response L s = (b, s')"
  shows "wire_inv L c0 sid s' \<and> evolves s s' \<and> (\<not> failed (w_conn s') \<longrightarrow>
      (if b then resp_run (rw_isHead (w_rw s)) (w_sent s') = REnd else stream_over s'))"
proof -
  consider (over) "rw_clViolated (w_rw s)" | (err) "\<not> rw_clViolated (w_rw s)" "rw_err (w_rw s) \<noteq> None"
    | (fin) "\<not> rw_clViolated (w_rw s)" "rw_err (w_rw s) = None" by blast
  then show ?thesis
  proof cases
    case over
    then have "s' = stream_Reset ErrCodeInternal s" "\<not> b" using assms(4) by (auto simp: close_response_def)
    then show ?thesis using stream_Reset_spec(1,2) [OF assms(2)] stream_Reset_over [OF assms(1,2)] by simp
  next
    case err
    then have "failed (w_conn s)" "s' = s" using assms(1,4) unfolding rw_inv_def Let_def
      by (auto simp: close_response_def)
    then show ?thesis using assms(2) by (simp add: evolves_def)
  next
    case fin
    obtain r s1 where e: "endStream L s = (r, s1)" by (metis prod.exhaust)
    note es = endStream_spec [OF assms(1-3) fin(2) e]
    have ih: "rw_isHead (w_rw s1) = rw_isHead (w_rw s)" using es(2) by (simp add: evolves_def)
    note r = stream_Reset_spec [OF es(1), of ErrCodeInternal]
    consider "r = None" | "r = Some ErrShortContentLength" | x where "r = Some x" "x \<noteq> ErrShortContentLength"
      by (cases r) auto
    then show ?thesis
    proof cases
      case 1
      then show ?thesis using fin es e assms(4) by (auto simp: close_response_def)
    next
      case 2
      then have "s' = stream_Reset ErrCodeInternal s1" "\<not> b"
        using fin e assms(4) by (auto simp: close_response_def)
      then show ?thesis using r es 2 evolves_trans [OF es(2) r(2)] ih
        by (auto simp: stream_over_def simp del: resp_step.simps)
    next
      case 3
      then have "failed (w_conn s1)" "s' = s1" using es(3) fin e assms(4) by (auto simp: close_response_def)
      then show ?thesis using es(1,2) by simp
    qed
  qed
qed

lemma finish_stream_spec:
  assumes "rw_inv s" "wire_inv L c0 sid s" "settled s"
  shows "wire_inv L c0 sid (finish_stream L s)" "evolves s (finish_stream L s)"
    "\<not> failed (w_conn (finish_stream L s)) \<Longrightarrow> stream_over (finish_stream L s)"
proof -
  obtain b s1 where c: "close_response L s = (b, s1)" by (metis prod.exhaust)
  let ?s2 = "arrivals s1"
  let ?s3 = "if b \<and> \<not> DataDone (w_stream ?s2) then stream_Reset ErrCodeNo ?s2 else ?s2"
  let ?s4 = "?s3\<lparr>w_mem := mem_CloseData (rw_stream (w_rw ?s3)) (w_mem ?s3)\<rparr>"
  have eq: "finish_stream L s = ?s4" by (simp add: finish_stream_def c Let_def)
  note s1 = close_response_spec [OF assms c]
  have f2: "w_rw ?s2 = w_rw s1" "w_sent ?s2 = w_sent s1" "w_conn ?s2 = w_conn s1" "w_ID ?s2 = w_ID s1"
    by (simp_all add: arrivals_def arrive_frame)
  have s2: "wire_inv L c0 sid ?s2" "evolves s ?s2" using s1 inv_cong(2,4) [OF f2] by blast+
  have o2: "\<not> failed (w_conn ?s2) \<Longrightarrow>
      (if b then resp_run (rw_isHead (w_rw ?s2)) (w_sent ?s2) = REnd else stream_over ?s2)"
    using s1 by (auto simp: f2(1-3) stream_over_def evolves_def split: if_splits)
  note r = stream_Reset_spec [OF s2(1), of ErrCodeNo]
  have s3: "wire_inv L c0 sid ?s3" "evolves s ?s3" using s2 r(1) evolves_trans [OF s2(2) r(2)] by simp_all
  have o3: "\<not> failed (w_conn ?s3) \<Longrightarrow> stream_over ?s3"
    using o2 r(3-5) by (auto simp: stream_over_def split: if_splits)
  have f4: "w_rw ?s4 = w_rw ?s3" "w_sent ?s4 = w_sent ?s3" "w_conn ?s4 = w_conn ?s3" "w_ID ?s4 = w_ID ?s3"
    using arrive_frame [of "rw_stream (w_rw ?s3)" "[InClose]" "w_mem ?s3" "rw_stream (w_rw ?s3)"]
    by (simp_all add: arrive_def)
  show "wire_inv L c0 sid (finish_stream L s)" "evolves s (finish_stream L s)"
    unfolding eq inv_cong(2,4) [OF f4] by (fact s3)+
  show "\<not> failed (w_conn (finish_stream L s)) \<Longrightarrow> stream_over (finish_stream L s)"
    unfolding eq stream_over_def f4(1-3) using o3 unfolding stream_over_def .
qed

lemma cleanup_spec:
  "w_sent (cleanup now s) = w_sent s" "failed (w_conn (cleanup now s)) = failed (w_conn s)"
  "outgoing L (w_conn (cleanup now s)) = outgoing L (w_conn s)"
  "c_writeErr (w_conn (cleanup now s)) = c_writeErr (w_conn s)"
  "c_streams (w_conn (cleanup now s)) = AList.delete (w_ID s) (c_streams (w_conn s))"
  "rw_isHead (w_rw (cleanup now s)) = rw_isHead (w_rw s)"
  by (simp_all add: cleanup_def RemoveStream_def finishDrain_def failed_def outgoing_def Let_def)

section \<open>Properties\<close>

text \<open>
  C3. Every request gets a well-formed response, whatever the handler does. If the stream goroutine ends and
  the connection did not fail, then what it sent is a response RFC 9113 allows (interim headers, final
  headers, a body that respects the declared Content-Length, END_STREAM) or ends in RST_STREAM;
  exactly these frames were committed to the connection, in this order, under the stream's identifier;
  and the stream is no longer registered while the other streams still are. It covers a handler that
  panics before or after its headers, one that writes too much or too little, and a malformed \<open>:path\<close>.
\<close>

theorem response_wellformed:
  assumes "st_ID (m_stream m p) = sid" "cache_ok ToLower (c_lowerNames c)"
    "serveStream L now hdl p decoded env ins c m = Some s'" "\<not> failed (w_conn s')"
  shows "resp_run (dh_Method decoded = ''HEAD'') (w_sent s') \<in> {REnd, RReset} \<and>
    outgoing L (w_conn s') = outgoing L c @ frames_of L (enc_after c) (map (sent_intent sid) (w_sent s')) \<and>
    c_streams (w_conn s') = AList.delete sid (c_streams c)"
proof -
  let ?s = "\<lparr>w_rw = new_responseWriter p (dh_Method decoded = ''HEAD''), w_conn = c, w_mem = m,
               w_env = env, w_in = ins, w_sent = []\<rparr>"
  have s: "rw_inv ?s" "wire_inv L c sid ?s" "settled ?s"
    using assms(1,2) by (simp_all add: rw_inv_def wire_inv_def settled_def new_responseWriter_def Let_def)
  have "\<exists>s1. s' = cleanup now s1 \<and> wire_inv L c sid s1 \<and> evolves ?s s1 \<and> (\<not> failed (w_conn s1) \<longrightarrow> stream_over s1)"
  proof (cases "parseRequestURI (dh_Path decoded)")
    case None
    then have "s' = cleanup now (stream_Reset ErrCodeProtocol ?s)" using assms(3) by (simp add: serveStream_def)
    then show ?thesis using stream_Reset_spec(1,2) [OF s(2)] stream_Reset_over [OF s(1,2)] by blast
  next
    case (Some uri)
    then obtain h b s1 where r: "run_handler L h ?s = Some (b, s1)"
      "s' = cleanup now (if b then recover_panic L s1 else finish_stream L s1)"
      using assms(3) by (auto simp: serveStream_def Let_def split: option.splits)
    then have i: "rw_inv s1" "wire_inv L c sid s1" "settled s1" "evolves ?s s1"
      using run_handler_inv [OF s r(1)] by blast+
    show ?thesis
    proof (cases b)
      case True
      then show ?thesis using r(2) recover_panic_spec [OF i(1-3)] evolves_trans [OF i(4)] by auto
    next
      case False
      then show ?thesis using r(2) finish_stream_spec [OF i(1-3)] evolves_trans [OF i(4)] by auto
    qed
  qed
  then obtain s1 where s1: "s' = cleanup now s1" "wire_inv L c sid s1" "evolves ?s s1"
    "\<not> failed (w_conn s1) \<Longrightarrow> stream_over s1" by blast
  have "rw_isHead (w_rw s1) = (dh_Method decoded = ''HEAD'')" "c_streams (w_conn s1) = c_streams c"
    using s1(3) by (simp_all add: evolves_def new_responseWriter_def)
  moreover have "\<not> failed (w_conn s1)" using s1(1) assms(4) by (simp add: cleanup_spec)
  moreover from this have "c_writeErr (w_conn s1) = None" by (simp add: failed_def)
  ultimately show ?thesis using s1(1,2,4) by (simp add: cleanup_spec stream_over_def wire_inv_def)
qed

text \<open>A request for the witness below.\<close>

definition sample_request :: DecodedHeaders where
  "sample_request = \<lparr>dh_Header = [], dh_Method = ''GET'', dh_Path = ''/a%20b?q'', dh_Authority = [],
     dh_Status = [], dh_StreamID = 1, dh_EndStream = False\<rparr>"

theorem response_wellformed_witness:
  "\<exists>s'. serveStream literal_lib 0 (\<lambda>_. HPanic) 7 sample_request [] [] (w_conn (start_state False)) (w_mem (start_state False)) = Some s' \<and>
     resp_run False (w_sent s') \<in> {REnd, RReset} \<and> c_streams (w_conn s') = []"
proof -
  let ?d = "(w_conn (start_state False))" and ?m = "(w_mem (start_state False))"
  let ?s = "\<lparr>w_rw = new_responseWriter 7 False, w_conn = ?d, w_mem = ?m, w_env = [], w_in = [], w_sent = []\<rparr>"
  have s: "?s = start_state False" by (simp add: start_state_def)
  have p: "parseRequestURI (dh_Path sample_request) \<noteq> None" "dh_Method sample_request \<noteq> ''HEAD''"
    by code_simp+
  then have r: "serveStream literal_lib 0 (\<lambda>_. HPanic) 7 sample_request [] [] ?d ?m =
      Some (cleanup 0 (recover_panic literal_lib (start_state False)))"
    using s by (auto simp: serveStream_def)
  have "\<not> failed (w_conn (cleanup 0 (recover_panic literal_lib (start_state False))))"
    using recover_panic_ok [OF frWrite_literal start_state_ok(4,2)] by (simp add: cleanup_spec)
  moreover have "cache_ok ToLower (c_lowerNames ?d)" "st_ID (m_stream ?m 7) = 1" "c_streams ?d = [(1, 7)]"
    by (simp_all add: start_state_def fresh_stream_def init_Conn_def CommonNames_ok)
  ultimately show ?thesis using response_wellformed [OF _ _ r] p(2) r by simp
qed

text \<open>
  \<open>parseRequestURI\<close> loses nothing. It accepts exactly the values that start with a slash, or the lone
  asterisk, and whose path has no malformed escape; the value is the path, escaped as it came, with the
  query after the first question mark, and \<open>Path\<close> is the path with its escapes decoded.
\<close>

lemma parseRequestURI_faithful:
  "case parseRequestURI raw of
     Some u \<Rightarrow> (raw = ''*'' \<or> (\<exists>cs. raw = CHR ''/'' # cs)) \<and>
       (let path = (if u_RawPath u = [] then u_Path u else u_RawPath u)
        in PathUnescape path = Some (u_Path u) \<and> CHR ''?'' \<notin> set path \<and>
           (raw = path \<and> u_RawQuery u = [] \<or> raw = path @ CHR ''?'' # u_RawQuery u))
   | None \<Rightarrow> (raw \<noteq> ''*'' \<and> (\<forall>cs. raw \<noteq> CHR ''/'' # cs)) \<or>
       PathUnescape (takeWhile (\<lambda>c. c \<noteq> CHR ''?'') raw) = None"
proof (cases "raw = [] \<or> (hd raw \<noteq> CHR ''/'' \<and> raw \<noteq> ''*'')")
  case True
  then have "parseRequestURI raw = None" by (simp add: parseRequestURI_def)
  then show ?thesis using True by auto
next
  case False
  obtain b a ok where cut: "Cut (CHR ''?'') raw = (b, a, ok)" by (metis prod.exhaust)
  define path where "path = (if ok then b else raw)"
  note c = Cut_spec [OF cut]
  have raw: "raw = path @ (if ok then CHR ''?'' # a else [])" "CHR ''?'' \<notin> set path"
    using c unfolding path_def by (cases ok; simp)+
  then have tw: "takeWhile (\<lambda>c. c \<noteq> CHR ''?'') raw = path"
    by (cases ok) (simp_all add: takeWhile_append takeWhile_eq_all_conv, auto)
  have st: "raw = ''*'' \<or> (\<exists>cs. raw = CHR ''/'' # cs)" using False by (cases raw) auto
  have eq: "parseRequestURI raw = (case PathUnescape path of None \<Rightarrow> None
    | Some d \<Rightarrow> Some (if d \<noteq> path then \<lparr>u_Path = d, u_RawPath = path, u_RawQuery = (if ok then a else [])\<rparr>
        else \<lparr>u_Path = path, u_RawPath = [], u_RawQuery = (if ok then a else [])\<rparr>))"
    using False cut by (auto simp: parseRequestURI_def path_def Let_def split: option.splits)
  show ?thesis
  proof (cases "PathUnescape path")
    case None
    then show ?thesis using eq tw by simp
  next
    case (Some d)
    have "path = [] \<Longrightarrow> d = []" using Some by simp
    then show ?thesis using eq Some st raw by (cases ok; cases "d = path") (auto simp: Let_def)
  qed
qed

end
