(* ===== verification/W_Serve.thy ===== *)
theory W_Serve
  imports W_Stream
begin

text \<open>
  The worker's frame loop (\<open>handler.go\<close>): \<open>serve\<close>, \<open>handleFrame\<close> and \<open>dispatchInboundHeaders\<close>.

  The goroutines \<open>serve\<close> starts are recorded in \<open>wl_go\<close> with the arguments of their \<open>serveStream\<close>; what they do
  is in theory \<open>W_Stream\<close> and appears here as operations of the other goroutines.
\<close>

section \<open>Definitions\<close>

record wlink = link +
  wl_ready :: bool
  wl_go :: "(ptr \<times> DecodedHeaders) list"

definition dispatchInboundHeaders :: "nat \<Rightarrow> DecodedHeaders \<Rightarrow> wlink \<Rightarrow> wlink" where
  "dispatchInboundHeaders k decoded s =
     (let c = lk_conn s;
          (p, m1) = Acquire k (dh_StreamID decoded) (c_self c) (InitialStreamWindow (c_Send c)) (lk_mem s);
          c1 = Conn_AddStream p m1 c;
          m2 = (if dh_EndStream decoded then mem_CloseData p m1 else m1)
      in s\<lparr>lk_conn := c1, lk_mem := m2, wl_go := wl_go s @ [(p, decoded)]\<rparr>)"

text \<open>What both callers of the header decoder do with its result.\<close>

definition take_headers ::
  "nat \<Rightarrow> (gerr + DecodedHeaders option) \<times> Conn \<Rightarrow> wlink \<Rightarrow> gerr option \<times> wlink" where
  "take_headers k res s =
     (let s1 = s\<lparr>lk_conn := snd res\<rparr> in
      case fst res of
        Inl e \<Rightarrow> (Some e, s1)
      | Inr None \<Rightarrow> (None, s1)
      | Inr (Some decoded) \<Rightarrow> (None, dispatchInboundHeaders k decoded s1))"

definition handleFrame :: "H2Lib \<Rightarrow> nat \<Rightarrow> nat \<Rightarrow> frame \<Rightarrow> wlink \<Rightarrow> gerr option \<times> wlink" where
  "handleFrame L k now f s =
     (case f of
        FSettings ack xs \<Rightarrow>
          if ack then (None, s)
          else (case ApplyPeerSettings xs (lk_conn s, lk_mem s) of
                  (Some e, c, m) \<Rightarrow> (Some e, s\<lparr>lk_conn := c, lk_mem := m\<rparr>)
                | (None, c, m) \<Rightarrow> (None, s\<lparr>lk_conn := SendSettingsAck c, lk_mem := m\<rparr>))
      | FWindowUpdate sid inc \<Rightarrow> (None, on_link (HandleWindowUpdate sid inc) s)
      | FHeaders sid frag headersEnded streamEnded \<Rightarrow>
          if GetStream sid (lk_conn s) \<noteq> None then (None, s)
          else take_headers k (StartHeaders L sid frag headersEnded streamEnded (lk_conn s)) s
      | FData sid data flowLen streamEnded \<Rightarrow>
          (None, on_link (HandleInboundData k sid data flowLen streamEnded) s)
      | FPing ack data \<Rightarrow>
          if ack then (None, on_conn (HandlePingAck data) s) else (None, on_conn (SendPing True data) s)
      | FGoAway _ code \<Rightarrow>
          if code \<noteq> ErrCodeNo then (Some ErrGoaway, s) else (None, on_conn (BeginDrain now) s)
      | FRSTStream sid _ \<Rightarrow> (None, on_link (HandleRSTStream sid) s)
      | _ \<Rightarrow> (None, s))"

text \<open>A frame inside or outside a header block that is still being received.\<close>

definition serve_frame :: "H2Lib \<Rightarrow> nat \<Rightarrow> nat \<Rightarrow> frame \<Rightarrow> wlink \<Rightarrow> gerr option \<times> wlink" where
  "serve_frame L k now f s =
     (if InContinuation (lk_conn s) then
        (case f of
           FContinuation sid frag headersEnded \<Rightarrow>
             if sid \<noteq> ContStreamID (lk_conn s) then (Some ErrContInterleaved, s)
             else take_headers k (ConsumeContinuation L frag headersEnded (lk_conn s)) s
         | _ \<Rightarrow> (Some ErrContInterleaved, s))
      else handleFrame L k now f s)"

text \<open>One turn of the loop of \<open>serve\<close>: \<open>None\<close> to go on, \<open>Some r\<close> to return \<open>r\<close>.\<close>

definition serve_turn :: "H2Lib \<Rightarrow> env_op list tick \<Rightarrow> wlink \<Rightarrow> gerr option option \<times> wlink" where
  "serve_turn L t s =
     (let s1 = env_run L (tk_before t) s in
      if tk_shut t then (Some None, s1)
      else if DrainComplete (lk_conn s1) then (Some (Some ErrGoaway), s1)
      else
        let s2 = env_run L (tk_during t) (on_conn (SetIdleDeadline (tk_now t)) s1) in
        case tk_read t of
          Inl err \<Rightarrow>
            if IsNetTimeout (Some err) then
              (if tk_shut_timeout t then (Some None, s2)
               else if DrainComplete (lk_conn s2) then (Some (Some ErrGoaway), s2)
               else case SendOrCheckPing (tk_later t) (lk_conn s2) of
                      (Some e, c) \<Rightarrow> (Some (Some e), s2\<lparr>lk_conn := c\<rparr>)
                    | (None, c) \<Rightarrow> (None, s2\<lparr>lk_conn := c\<rparr>))
            else (Some (Some err), s2)
        | Inr f \<Rightarrow>
            (case serve_frame L (tk_choice t) (tk_later t) f s2 of
               (Some e, s3) \<Rightarrow> (Some (Some e), s3)
             | (None, s3) \<Rightarrow> (None, s3)))"

text \<open>The deferred function of \<open>serve\<close>. \<open>n\<close> is how many queued intents the writer still picks before it sees
  the shutdown.\<close>

definition serve_teardown :: "H2Lib \<Rightarrow> nat \<Rightarrow> wlink \<Rightarrow> wlink" where
  "serve_teardown L n s =
     (let c1 = (lk_conn s)\<lparr>c_Send := snd (MarkDead (c_Send (lk_conn s)))\<rparr>;
          m1 = FailAllStreams ErrConnClosed c1 (lk_mem s);
          c2 = snd (SendGoAway L (c_LastStreamID c1) ErrCodeNo c1)
      in s\<lparr>lk_conn := Conn_Close (ShutdownWriter L n c2), lk_mem := m1\<rparr>)"

definition serve ::
  "H2Lib \<Rightarrow> (env_op list \<times> (gerr + frame)) list \<Rightarrow> env_op list tick list \<Rightarrow> nat \<Rightarrow> wlink
     \<Rightarrow> (gerr option \<times> wlink) option" where
  "serve L reads ts n s =
     (case await_settings (env_run L) reads s of
        None \<Rightarrow> None
      | Some (Some e, s1) \<Rightarrow> Some (Some e, serve_teardown L n s1)
      | Some (None, s1) \<Rightarrow>
          (case run_loop (serve_turn L) ts (s1\<lparr>wl_ready := True\<rparr>) of
             None \<Rightarrow> None
           | Some (r, s2) \<Rightarrow> Some (r, serve_teardown L n s2)))"

section \<open>The invariant of the loop\<close>

definition serve_inv :: "wlink \<Rightarrow> bool" where
  "serve_inv s \<longleftrightarrow> (let c = lk_conn s in
     cm_ok (c, lk_mem s) \<and> (\<forall>(p, d) \<in> set (wl_go s). dh_StreamID d \<le> c_LastStreamID c) \<and>
     c_contStreamID c \<le> c_LastStreamID c \<and>
     (c_contStreamID c \<noteq> 0 \<longrightarrow> GetStream (c_contStreamID c) c = None))"

lemma env_run_wl [simp]: "wl_go (env_run L es s) = wl_go s" "wl_ready (env_run L es s) = wl_ready s"
  by (simp_all add: env_run_def on_link_def split_beta)

lemma GetStream_subset:
  "GetStream sid c = None \<Longrightarrow> set (c_streams c') \<subseteq> set (c_streams c) \<Longrightarrow> GetStream sid c' = None"
  by (auto simp: GetStream_def map_of_eq_None_iff)

text \<open>Whatever keeps the reader's fields, adds no stream and starts no goroutine keeps the invariant.\<close>

lemma serve_inv_frame:
  assumes "serve_inv s" "cm_ok (lk_conn s', lk_mem s')" "reader_part (lk_conn s') = reader_part (lk_conn s)"
    "set (c_streams (lk_conn s')) \<subseteq> set (c_streams (lk_conn s))" "wl_go s' = wl_go s"
  shows "serve_inv s'"
  using assms GetStream_subset [OF _ assms(4)] by (auto simp: serve_inv_def reader_part_def Let_def)

lemma serve_inv_cm: "serve_inv s \<Longrightarrow> cm_ok (lk_conn s, lk_mem s)"
  by (simp add: serve_inv_def Let_def)

lemma env_run_inv:
  assumes "serve_inv s"
  shows "serve_inv (env_run L es s)"
proof -
  have "cm_ok (lk_conn s, lk_mem s)" using assms by (simp add: serve_inv_def Let_def)
  from env_run_link [OF this, of L es] show ?thesis by (intro serve_inv_frame [OF assms]) simp_all
qed

lemma dispatch_inv:
  assumes "serve_inv s" "GetStream (dh_StreamID d) (lk_conn s) = None" "dh_StreamID d \<le> c_LastStreamID (lk_conn s)"
    "c_contStreamID (lk_conn s) = 0"
  shows "serve_inv (dispatchInboundHeaders k d s)"
proof -
  let ?c = "lk_conn s"
  obtain p m1 where a: "Acquire k (dh_StreamID d) (c_self ?c) (InitialStreamWindow (c_Send ?c)) (lk_mem s) = (p, m1)"
    by (metis prod.exhaust)
  have "cm_ok (?c, lk_mem s)" using assms(1) by (simp add: serve_inv_def Let_def)
  note ad = add_cm_ok [OF this a assms(2)]
  let ?m2 = "if dh_EndStream d then mem_CloseData p m1 else m1"
  have "cm_ok (Conn_AddStream p m1 ?c, ?m2)" using cm_ok_mem [OF ad(1)] ad(1) by (simp add: mem_op_frames)
  moreover have "reader_part (Conn_AddStream p m1 ?c) = reader_part ?c" by simp
  ultimately show ?thesis using assms
    by (auto simp: serve_inv_def dispatchInboundHeaders_def a reader_part_def Let_def)
qed

lemma take_headers_inv:
  assumes "serve_inv (s\<lparr>lk_conn := c\<rparr>)" "c_contStreamID c = 0 \<or> fst res = Inr None \<or> (\<exists>e. fst res = Inl e)"
    "\<And>d. fst res = Inr (Some d) \<Longrightarrow> GetStream (dh_StreamID d) c = None \<and> dh_StreamID d \<le> c_LastStreamID c"
    "snd res = c"
  shows "serve_inv (snd (take_headers k res s))"
proof (cases "fst res")
  case (Inr r)
  then show ?thesis
    using assms dispatch_inv [of "s\<lparr>lk_conn := c\<rparr>"] by (cases r) (auto simp: take_headers_def Let_def)
qed (use assms in \<open>simp add: take_headers_def\<close>)

lemma handleFrame_inv:
  assumes "serve_inv s" "c_contStreamID (lk_conn s) = 0"
  shows "serve_inv (snd (handleFrame L k now f s))"
proof -
  let ?c = "lk_conn s" and ?m = "lk_mem s"
  have cm: "cm_ok (?c, ?m)" using assms(1) by (simp add: serve_inv_def Let_def)
  have conn: "serve_inv (on_conn g s)" if "cm_ok (g ?c, ?m)" "reader_part (g ?c) = reader_part ?c" "c_streams (g ?c) = c_streams ?c" for g
    using serve_inv_frame [OF assms(1), of "on_conn g s"] that by (simp add: on_conn_def)
  have lnk: "serve_inv (on_link g s)" if "cm_ok (g (?c, ?m))" "reader_part (fst (g (?c, ?m))) = reader_part ?c"
    "c_streams (fst (g (?c, ?m))) = c_streams ?c" for g
    using serve_inv_frame [OF assms(1), of "on_link g s"] that by (simp add: on_link_def split_beta)
  show ?thesis
  proof (cases f)
    case (FSettings ack xs)
    obtain r c m where a: "ApplyPeerSettings xs (?c, ?m) = (r, c, m)" by (metis prod.exhaust)
    note l = ApplyPeerSettings_link [OF cm a]
    have "serve_inv (s\<lparr>lk_conn := c, lk_mem := m\<rparr>)" "serve_inv (s\<lparr>lk_conn := SendSettingsAck c, lk_mem := m\<rparr>)"
      using l submitAsync_cm_ok [OF l(1)]
      by (auto intro!: serve_inv_frame [OF assms(1)] simp: SendSettingsAck_def conn_frame)
    then show ?thesis using FSettings a assms(1) by (cases r) (simp_all add: handleFrame_def)
  next
    case (FWindowUpdate sid inc)
    have "c_streams (fst (HandleWindowUpdate sid inc (?c, ?m))) = c_streams ?c"
      by (simp add: HandleWindowUpdate_def split: option.splits)
    with FWindowUpdate show ?thesis using HandleWindowUpdate_link [OF cm prod.collapse [symmetric]]
      by (auto simp: handleFrame_def intro!: lnk)
  next
    case (FHeaders sid frag eh es)
    show ?thesis
    proof (cases "GetStream sid ?c")
      case None
      obtain r c where st: "StartHeaders L sid frag eh es ?c = (r, c)" by (metis prod.exhaust)
      note l = StartHeaders_link [OF cm st]
      have "serve_inv (s\<lparr>lk_conn := c\<rparr>)"
        using assms None l by (auto simp: serve_inv_def GetStream_def Let_def le_max_iff_disj)
      moreover have "eh \<or> r = Inr None" using st by (cases eh) (auto simp: StartHeaders_def Let_def)
      ultimately have "serve_inv (snd (take_headers k (r, c) s))"
        using assms(2) None l by (intro take_headers_inv) (auto simp: GetStream_def le_max_iff_disj)
      then show ?thesis using None FHeaders st by (simp add: handleFrame_def)
    qed (use FHeaders assms(1) in \<open>simp add: handleFrame_def\<close>)
  next
    case (FData sid data fl es)
    have "c_streams (fst (HandleInboundData k sid data fl es (?c, ?m))) = c_streams ?c"
      by (simp add: HandleInboundData_def SendWindowUpdate_def SendRSTStream_def conn_frame Let_def split: option.splits)
    with FData show ?thesis using HandleInboundData_link [OF cm prod.collapse [symmetric]]
      by (auto simp: handleFrame_def intro!: lnk)
  next
    case (FPing ack data)
    then show ?thesis using HandlePingAck_link [OF cm] submitAsync_cm_ok [OF cm]
      by (auto simp: handleFrame_def SendPing_def conn_frame HandlePingAck_def intro!: conn)
  next
    case (FGoAway last code)
    have "c_streams (BeginDrain now ?c) = c_streams ?c" by (simp add: BeginDrain_def Let_def)
    with FGoAway show ?thesis using BeginDrain_link [OF cm] assms(1)
      by (auto simp: handleFrame_def intro!: conn)
  next
    case (FRSTStream sid code)
    obtain c m where h: "HandleRSTStream sid (?c, ?m) = (c, m)" by (metis prod.exhaust)
    with FRSTStream show ?thesis using HandleRSTStream_link [OF cm h] by (auto simp: handleFrame_def intro!: lnk)
  qed (use assms(1) in \<open>simp_all add: handleFrame_def\<close>)
qed

lemma serve_frame_inv:
  assumes "serve_inv s"
  shows "serve_inv (snd (serve_frame L k now f s))"
proof (cases "InContinuation (lk_conn s)")
  case True
  have cm: "cm_ok (lk_conn s, lk_mem s)" using assms by (simp add: serve_inv_def Let_def)
  have "serve_inv (snd (take_headers k (ConsumeContinuation L frag eh (lk_conn s)) s))" for frag eh
  proof -
    obtain x c where x: "ConsumeContinuation L frag eh (lk_conn s) = (x, c)" by (metis prod.exhaust)
    note l = ConsumeContinuation_link [OF cm x]
    have n: "GetStream (c_contStreamID (lk_conn s)) c = None" "c_contStreamID (lk_conn s) \<le> c_LastStreamID c"
      using assms True l by (auto simp: serve_inv_def InContinuation_def GetStream_def Let_def)
    have "serve_inv (s\<lparr>lk_conn := c\<rparr>)" using assms l n by (auto simp: serve_inv_def Let_def)
    moreover have "c_contStreamID c = 0 \<or> x = Inr None \<or> (\<exists>e. x = Inl e)"
      using l(8) by (cases x; cases "projr x") auto
    ultimately show ?thesis using n l(4) unfolding x by (intro take_headers_inv) auto
  qed
  then show ?thesis using True assms by (auto simp: serve_frame_def split: frame.splits)
next
  case False
  then show ?thesis using handleFrame_inv [OF assms] by (simp add: serve_frame_def InContinuation_def)
qed

lemma serve_turn_inv:
  assumes "serve_inv s" "serve_turn L t s = (r, s')"
  shows "serve_inv s'"
proof -
  define s1 where "s1 = env_run L (tk_before t) s"
  define s2 where "s2 = env_run L (tk_during t) (on_conn (SetIdleDeadline (tk_now t)) s1)"
  have i1: "serve_inv s1" unfolding s1_def by (rule env_run_inv [OF assms(1)])
  have "serve_inv (on_conn (SetIdleDeadline (tk_now t)) s1)"
    using i1 SetReadDeadline_link by (intro serve_inv_frame [OF i1])
      (auto simp: on_conn_def SetIdleDeadline_def SetReadDeadline_def serve_inv_def Let_def reader_part_def)
  then have i2: "serve_inv s2" unfolding s2_def by (rule env_run_inv)
  have cm: "cm_ok (lk_conn s2, lk_mem s2)" using i2 by (simp add: serve_inv_def Let_def)
  have ping: "serve_inv (s2\<lparr>lk_conn := c\<rparr>)" if "SendOrCheckPing (tk_later t) (lk_conn s2) = (e, c)" for e c
    using SendOrCheckPing_link [OF cm that] that
    by (intro serve_inv_frame [OF i2])
      (auto simp: SendOrCheckPing_def SendPing_def conn_frame Let_def split: if_splits)
  have fr: "serve_inv s3" if "serve_frame L (tk_choice t) (tk_later t) f s2 = (e, s3)" for f e s3
    using serve_frame_inv [OF i2, of L "tk_choice t" "tk_later t" f] that by simp
  show ?thesis
    using assms(2) i1 i2 ping fr
    unfolding serve_turn_def Let_def s1_def [symmetric] s2_def [symmetric]
    by (auto split: if_splits sum.splits option.splits prod.splits)
qed

lemma take_headers_writeErr:
  "c_writeErr (snd res) = c_writeErr (lk_conn s) \<Longrightarrow> c_writeErr (lk_conn (snd (take_headers k res s))) = c_writeErr (lk_conn s)"
  by (auto simp: take_headers_def dispatchInboundHeaders_def writeErr_frames Let_def split: sum.splits option.splits prod.splits)

lemma serve_frame_writeErr: "c_writeErr (lk_conn (snd (serve_frame L k now f s))) = c_writeErr (lk_conn s)"
proof -
  have "c_writeErr (fst (snd (ApplyPeerSettings xs (lk_conn s, lk_mem s)))) = c_writeErr (lk_conn s)" for xs
    by (simp add: settings_writeErr)
  then show ?thesis
    by (cases f) (auto simp: serve_frame_def handleFrame_def on_link_def on_conn_def split_beta writeErr_frames
        take_headers_writeErr SendSettingsAck_def SendPing_def conn_frame split: option.splits prod.splits)
qed

definition loop_ok :: "H2Lib \<Rightarrow> wlink \<Rightarrow> bool" where
  "loop_ok L s \<longleftrightarrow> serve_inv s \<and> werr_ok L (lk_conn s)"

lemma env_run_loop_ok: "loop_ok L s \<Longrightarrow> loop_ok L (env_run L es s)"
  by (simp add: loop_ok_def env_run_inv env_run_werr serve_inv_cm)

lemma serve_turn_loop_ok:
  assumes "loop_ok L s" "serve_turn L t s = (r, s')"
  shows "loop_ok L s'"
proof -
  define s1 where "s1 = env_run L (tk_before t) s"
  define s2 where "s2 = env_run L (tk_during t) (on_conn (SetIdleDeadline (tk_now t)) s1)"
  have w1: "loop_ok L s1" unfolding s1_def by (rule env_run_loop_ok [OF assms(1)])
  then have "werr_ok L (lk_conn (on_conn (SetIdleDeadline (tk_now t)) s1))"
    "cm_ok (lk_conn (on_conn (SetIdleDeadline (tk_now t)) s1), lk_mem (on_conn (SetIdleDeadline (tk_now t)) s1))"
    by (simp_all add: loop_ok_def serve_inv_def werr_ok_def on_conn_def SetIdleDeadline_def writeErr_frames
        SetReadDeadline_link Let_def)
  then have w2: "werr_ok L (lk_conn s2)" unfolding s2_def by (rule env_run_werr)
  have "c_writeErr (lk_conn s') = c_writeErr (lk_conn s1) \<or> c_writeErr (lk_conn s') = c_writeErr (lk_conn s2)"
    using assms(2) serve_frame_writeErr [of L "tk_choice t" "tk_later t" _ s2] writeErr_frames(7) [of "tk_later t" "lk_conn s2"]
    unfolding serve_turn_def Let_def s1_def [symmetric] s2_def [symmetric]
    by (auto split: if_splits sum.splits option.splits prod.splits) (metis snd_conv)+
  then show ?thesis using w1 w2 serve_turn_inv [OF _ assms(2)] assms(1) by (auto simp: loop_ok_def werr_ok_def)
qed

interpretation sl: reader_loop "serve_turn L" "loop_ok L" for L
  by unfold_locales (rule serve_turn_loop_ok)

lemma await_settings_ok:
  assumes "loop_ok L s" "await_settings (env_run L) reads s = Some (r, s')"
  shows "loop_ok L s'"
  using assms
proof (induction "env_run L :: env_op list \<Rightarrow> wlink \<Rightarrow> wlink" reads s rule: await_settings.induct)
  case (3 e ack xs rs s)
  let ?s1 = "env_run L e s"
  have i: "loop_ok L ?s1" using env_run_loop_ok [OF 3(2)] .
  obtain x c m where a: "ApplyPeerSettings xs (lk_conn ?s1, lk_mem ?s1) = (x, c, m)" by (metis prod.exhaust)
  have "serve_inv ?s1" using i by (simp add: loop_ok_def)
  note l = ApplyPeerSettings_link [OF serve_inv_cm [OF this] a]
  have "serve_inv (?s1\<lparr>lk_conn := c, lk_mem := m\<rparr>)" "serve_inv (?s1\<lparr>lk_conn := SendSettingsAck c, lk_mem := m\<rparr>)"
    using l submitAsync_cm_ok [OF l(1)]
    by (auto intro!: serve_inv_frame [OF \<open>serve_inv ?s1\<close>] simp: SendSettingsAck_def conn_frame)
  moreover have "c_writeErr c = c_writeErr (lk_conn ?s1)" using settings_writeErr [of xs "(lk_conn ?s1, lk_mem ?s1)"] a by simp
  ultimately have "loop_ok L (?s1\<lparr>lk_conn := c, lk_mem := m\<rparr>)" "loop_ok L (?s1\<lparr>lk_conn := SendSettingsAck c, lk_mem := m\<rparr>)"
    using i by (simp_all add: loop_ok_def werr_ok_def SendSettingsAck_def conn_frame)
  then show ?case using 3(1) [OF refl _ i] 3(3) a by (cases ack; cases x) simp_all
qed (auto simp: env_run_loop_ok)

section \<open>Tear-down\<close>

lemma teardown_spec:
  assumes "loop_ok L s" "s' = serve_teardown L n s"
  shows "sc_dead (c_Send (lk_conn s'))" "c_closed (lk_conn s')" "c_writeErr (lk_conn s') \<noteq> None"
    "c_streams (lk_conn s') = c_streams (lk_conn s)" "c_LastStreamID (lk_conn s') = c_LastStreamID (lk_conn s)"
    "wl_go s' = wl_go s"
    "(\<exists>w. c_wire (lk_conn s') = w @ [OGoAway (c_LastStreamID (lk_conn s)) ErrCodeNo]) \<or> (\<exists>e w f. frWrite L w f = Some e)"
proof -
  let ?c1 = "(lk_conn s)\<lparr>c_Send := snd (MarkDead (c_Send (lk_conn s)))\<rparr>"
  let ?i = "zeroIntent\<lparr>wi_kind := wkGoAway, wi_streamID := c_LastStreamID (lk_conn s), wi_code := ErrCodeNo\<rparr>"
  obtain r c2 where g: "submit L ?i ?c1 = (r, c2)" by (metis prod.exhaust)
  have s': "s' = s\<lparr>lk_conn := Conn_Close (ShutdownWriter L n c2), lk_mem := FailAllStreams ErrConnClosed ?c1 (lk_mem s)\<rparr>"
    using assms(2) g by (simp add: serve_teardown_def SendGoAway_def Let_def)
  have k: "cache_ok ToLower (c_lowerNames ?c1)" and w: "werr_ok L ?c1"
    using assms(1) by (simp_all add: loop_ok_def serve_inv_def cm_ok_def conn_ok_def werr_ok_def Let_def)
  from k g have "unowned c2 = unowned ?c1 \<and> cache_ok ToLower (c_lowerNames c2) \<and> c_writeErr c2 = r \<and>
    (r = None \<longrightarrow> c_writeQ c2 = [] \<and> (\<exists>w. c_wire c2 = w @ [OGoAway (c_LastStreamID (lk_conn s)) ErrCodeNo])) \<and>
    (c_writeErr ?c1 \<noteq> None \<or> r \<noteq> None \<longrightarrow> (\<exists>e w f. frWrite L w f = Some e))"
  proof (cases rule: submit_cases)
    case (dead e)
    then show ?thesis using k w by (auto simp: werr_ok_def)
  next
    case (run j)
    have "r = None \<or> (\<exists>e w f. frWrite L w f = Some e)"
      using submit_werr(2) [OF w k g] by blast
    moreover have "r = None \<longrightarrow> (\<exists>w. c_wire c2 = w @ [OGoAway (c_LastStreamID (lk_conn s)) ErrCodeNo])"
      using run(7,8) by (auto simp: frames_of_append intent_frames_def zeroIntent_def)
    ultimately show ?thesis using run by auto
  qed
  then have c2: "unowned c2 = unowned ?c1" "cache_ok ToLower (c_lowerNames c2)" "c_writeErr c2 = r"
    "r = None \<Longrightarrow> c_writeQ c2 = [] \<and> (\<exists>w. c_wire c2 = w @ [OGoAway (c_LastStreamID (lk_conn s)) ErrCodeNo])"
    "r \<noteq> None \<Longrightarrow> \<exists>e w f. frWrite L w f = Some e" by blast+
  obtain x c3 where wl: "writer_loop L (take n (c_writeQ c2)) c2 = (x, c3)" by (metis prod.exhaust)
  note sp = writer_loop_spec [OF c2(2) wl]
  have sh: "unowned (ShutdownWriter L n c2) = unowned c2" "c_writeErr (ShutdownWriter L n c2) \<noteq> None"
    using sp wl by (auto simp: ShutdownWriter_def unowned_def split: option.splits)
  note u = unowned_fields [OF trans [OF sh(1) c2(1)]]
  show "sc_dead (c_Send (lk_conn s'))" "c_closed (lk_conn s')" "c_writeErr (lk_conn s') \<noteq> None"
    "c_streams (lk_conn s') = c_streams (lk_conn s)" "c_LastStreamID (lk_conn s') = c_LastStreamID (lk_conn s)"
    "wl_go s' = wl_go s"
    using sh(2) u by (simp_all add: s' Conn_Close_def MarkDead_def)
  have "r = None \<Longrightarrow> c_wire (ShutdownWriter L n c2) = c_wire c2"
    using c2(3,4) by (simp add: ShutdownWriter_def)
  then show "(\<exists>w. c_wire (lk_conn s') = w @ [OGoAway (c_LastStreamID (lk_conn s)) ErrCodeNo]) \<or> (\<exists>e w f. frWrite L w f = Some e)"
    using c2(4,5) by (cases r) (auto simp: s' Conn_Close_def)
qed

lemma teardown_streams:
  assumes "loop_ok L s" "GetStream sid (lk_conn s) = Some p"
  shows "st_end (m_stream (lk_mem (serve_teardown L n s)) p) \<noteq> None"
    "\<forall>ctx. st_Cancel (m_stream (lk_mem (serve_teardown L n s)) p) = Some ctx \<longrightarrow>
       ctx \<in> m_cancelled (lk_mem (serve_teardown L n s))"
proof -
  have cm: "cm_ok (lk_conn s, lk_mem s)" using assms(1) by (simp add: loop_ok_def serve_inv_cm)
  let ?c = "(lk_conn s)\<lparr>c_Send := snd (MarkDead (c_Send (lk_conn s)))\<rparr>"
  have c: "cm_ok (?c, lk_mem s)" using cm by (simp add: cm_ok_def conn_ok_def registry_ok_def drain_ok_def MarkDead_def)
  have p: "p \<in> snd ` set (c_streams ?c)" using registered_ptr [of "lk_conn s" "lk_mem s"] cm assms(2) by (force simp: cm_ok_def)
  have m: "lk_mem (serve_teardown L n s) = FailAllStreams ErrConnClosed ?c (lk_mem s)"
    by (simp add: serve_teardown_def Let_def)
  show "st_end (m_stream (lk_mem (serve_teardown L n s)) p) \<noteq> None"
    "\<forall>ctx. st_Cancel (m_stream (lk_mem (serve_teardown L n s)) p) = Some ctx \<longrightarrow>
       ctx \<in> m_cancelled (lk_mem (serve_teardown L n s))"
    unfolding m by (rule fail_all_stream [OF c p])+
qed

lemma serve_exit:
  assumes "loop_ok L s" "serve L reads ts n s = Some (r, s')"
  obtains s0 where "loop_ok L s0" "s' = serve_teardown L n s0"
proof -
  obtain x s1 where a: "await_settings (env_run L) reads s = Some (x, s1)"
    using assms(2) by (auto simp: serve_def split: option.splits)
  note i = await_settings_ok [OF assms(1) a]
  show thesis
  proof (cases x)
    case None
    then obtain s2 where l: "run_loop (serve_turn L) ts (s1\<lparr>wl_ready := True\<rparr>) = Some (r, s2)" "s' = serve_teardown L n s2"
      using assms(2) a by (auto simp: serve_def split: option.splits)
    have "loop_ok L (s1\<lparr>wl_ready := True\<rparr>)" using i by (simp add: loop_ok_def serve_inv_def Let_def)
    from sl.loop_inv [OF this l(1)] l(2) show thesis by (rule that)
  next
    case (Some e)
    then show thesis using assms(2) a i by (intro that [of s1]) (auto simp: serve_def)
  qed
qed

text \<open>A complete header block on a new stream starts one goroutine on a fresh stream.\<close>

lemma dispatch_new:
  assumes "serve_inv s" "\<not> InContinuation (lk_conn s)" "GetStream sid (lk_conn s) = None"
    "StartHeaders L sid block True es (lk_conn s) = (Inr (Some d), c')" "dh_EndStream d = es"
  shows "\<exists>p s'. serve_frame L k now (FHeaders sid block True es) s = (None, s') \<and>
    wl_go s' = wl_go s @ [(p, d)] \<and> c_streams (lk_conn s') = c_streams (lk_conn s) @ [(sid, p)] \<and>
    p \<notin> snd ` set (c_streams (lk_conn s)) \<and> c_dec (lk_conn s') = c_dec c' \<and>
    (let st = fresh_stream sid (c_self (lk_conn s)) (InitialStreamWindow (c_Send (lk_conn s))) (m_nextCtx (lk_mem s))
     in m_stream (lk_mem s') p = (if es then CloseData st else st))"
proof -
  have cm: "cm_ok (lk_conn s, lk_mem s)" by (rule serve_inv_cm [OF assms(1)])
  note l = StartHeaders_link [OF cm assms(4)]
  obtain p m1 where a: "Acquire k sid (c_self c') (InitialStreamWindow (c_Send c')) (lk_mem s) = (p, m1)"
    by (metis prod.exhaust)
  have n: "GetStream sid c' = None" using assms(3) l(2) by (simp add: GetStream_def)
  note ad = add_cm_ok [OF l(1) a n] and ac = Acquire_cm_ok [OF l(1) a]
  have d: "dh_StreamID d = sid" using l(4) by simp
  let ?m2 = "if es then mem_CloseData p m1 else m1"
  let ?s' = "s\<lparr>lk_conn := Conn_AddStream p m1 c', lk_mem := ?m2, wl_go := wl_go s @ [(p, d)]\<rparr>"
  have "serve_frame L k now (FHeaders sid block True es) s = (None, ?s')"
    using assms(2,3,4,5) a d
    by (simp add: serve_frame_def handleFrame_def take_headers_def dispatchInboundHeaders_def Let_def)
  moreover have "m_stream ?m2 p = (if es then CloseData (m_stream m1 p) else m_stream m1 p)"
    by (simp add: mem_CloseData_def)
  ultimately show ?thesis
    using ad(2) ac(1,4) l(2,6,7) by (intro exI [of _ p] exI [of _ ?s']) (simp add: Conn_AddStream_def Let_def)
qed

section \<open>Properties\<close>


definition start_link :: wlink where
  "start_link = \<lparr>lk_conn = init_Conn 0 [], lk_mem = empty_mem, wl_ready = False, wl_go = []\<rparr>"

lemma start_link_ok: "loop_ok L start_link"
  using conn_ok_init [of 0 "[]"]
  by (simp add: loop_ok_def serve_inv_def start_link_def cm_ok_def registry_ok_def drain_ok_def pool_ok_def werr_ok_def
      empty_mem_def init_Conn_def Let_def)


text \<open>
  C8. The worker's connection state stays well-typed. However frames, timeouts and the operations of the other
  goroutines interleave, after every turn of the loop: the peer's settings in force are legal and the
  name caches agree with the functions they cache; each registered stream is registered once, under its
  own identifier; a drain with no stream left is complete; and no registered stream is in the pool of
  free streams.
\<close>

theorem serve_keeps_types:
  assumes "loop_ok L s"
  shows "let s' = fold (\<lambda>t s. snd (serve_turn L t s)) ts s in
    conn_ok (lk_conn s') \<and> registry_ok (lk_conn s') (lk_mem s') \<and> drain_ok (lk_conn s') \<and>
    pool_ok (snd ` set (c_streams (lk_conn s'))) (m_streamPool (lk_mem s'))"
  using sl.turns_inv [OF assms] by (simp add: loop_ok_def serve_inv_def cm_ok_def Let_def)

theorem serve_keeps_types_witness:
  "let s' = fold (\<lambda>t s. snd (serve_turn literal_lib t s))
      [\<lparr>tk_before = [EnvWriter], tk_shut = False, tk_now = 0, tk_during = [EnvFinish 3 1],
        tk_read = Inr (FSettings False [(SettingMaxFrameSize, 20000)]), tk_shut_timeout = False, tk_later = 1, tk_choice = 0\<rparr>]
      start_link in
    conn_ok (lk_conn s') \<and> registry_ok (lk_conn s') (lk_mem s') \<and> drain_ok (lk_conn s') \<and>
    pool_ok (snd ` set (c_streams (lk_conn s'))) (m_streamPool (lk_mem s'))"
  by (rule serve_keeps_types [OF start_link_ok])

text \<open>
  C40. Trailers are lost. A second HEADERS frame on a stream that is being served is dropped with its END_STREAM flag:
  a handler waiting for the end of the request body stays blocked, and the HPACK decoder does not see the
  block although the peer's encoder has moved on.
\<close>

theorem trailers_dropped:
  assumes "GetStream sid (lk_conn s) = Some p" "\<not> InContinuation (lk_conn s)"
    "stream_ok (m_stream (lk_mem s) p)" "st_pending (m_stream (lk_mem s) p) = []" "st_end (m_stream (lk_mem s) p) = None"
  shows "\<exists>s'. serve_frame L k now (FHeaders sid frag True True) s = (None, s') \<and>
    fst (mem_Read n p (lk_mem s')) = RBlock \<and> c_dec (lk_conn s') = c_dec (lk_conn s)"
proof -
  have "fst (bodyReader_Read n (m_stream (lk_mem s) p)) = RBlock"
    using Read_empty [OF pending_empty [OF assms(3,4)], of n] assms(5) by simp
  then show ?thesis using assms(1,2)
    by (auto simp: serve_frame_def handleFrame_def mem_Read_def split_beta)
qed

theorem trailers_dropped_witness:
  "\<exists>s'. serve_frame literal_lib 0 0 (FHeaders 1 [0] True True)
      (start_link\<lparr>lk_conn := w_conn (start_state False), lk_mem := w_mem (start_state False)\<rparr>) = (None, s') \<and>
    fst (mem_Read 4 7 (lk_mem s')) = RBlock"
proof -
  let ?s = "start_link\<lparr>lk_conn := w_conn (start_state False), lk_mem := w_mem (start_state False)\<rparr>"
  have "GetStream 1 (lk_conn ?s) = Some 7" "\<not> InContinuation (lk_conn ?s)"
    by (simp_all add: start_state_def GetStream_def InContinuation_def init_Conn_def)
  moreover have "m_stream (lk_mem ?s) 7 = fresh_stream 1 0 65535 0" by (simp add: start_state_def)
  moreover have "st_end (fresh_stream 1 0 65535 0) = None" by (simp add: fresh_stream_def st_end_def)
  ultimately show ?thesis using trailers_dropped [of 1 ?s 7 literal_lib 0 0 "[0]" 4] by auto
qed

end
