(* ===== verification/W_Pool.thy ===== *)
theory W_Pool
  imports H2_Headers Rhttp_Steps
begin

text \<open>
  The worker's connection pool (\<open>pool.go\<close> and \<open>connection.go\<close>): options, dialling, the goroutine that keeps one slot
  connected, the reaper of a draining connection, and \<open>Shutdown\<close>.

  Setting up one connection (\<open>dial\<close> up to \<open>startConnection\<close>) is a function of what TLS and the transport answer. The
  goroutines are a transition system: \<open>slot_step\<close> is one action of the goroutine of a slot, with the \<open>select\<close> case it
  takes as an argument, and \<open>pool_trans\<close> adds the reapers, the frame loops of the connections (\<open>serve\<close>, which only
  matter here by being ready and by ending) and \<open>Shutdown\<close>. The wait groups are integers, so that a negative counter,
  on which \<open>sync.WaitGroup\<close> panics, can be stated. \<open>wp_reached\<close> records the slots that have had a connection ready.
\<close>

section \<open>Definitions\<close>

subsection \<open>Options and dialling\<close>

record ServerOptions =
  so_certs :: nat                 \<comment> \<open>\<open>len(TLSCert.Certificate)\<close>\<close>
  so_key :: bool                  \<comment> \<open>\<open>TLSCert.PrivateKey != nil\<close>\<close>
  so_Handler :: bool              \<comment> \<open>\<open>Handler != nil\<close>\<close>
  so_CACertPool :: "nat option"
  so_SNIServerName :: string
  so_Addr :: string
  so_NBConn :: int
  so_MaxConcurrentStreams :: uint32

definition validateOptions :: "ServerOptions \<Rightarrow> gerr option" where
  "validateOptions opts =
     (if so_Addr opts = [] then Some ErrAddrRequired
      else if \<not> so_Handler opts then Some ErrHandlerRequired
      else if so_certs opts = 0 \<or> \<not> so_key opts then Some ErrMTLSRequired
      else None)"

record dial_config =
  dc_RootCAs :: "nat option"
  dc_NextProtos :: "string list"
  dc_ServerName :: string
  dc_certs :: nat
  dc_MinVersion :: nat

definition dial_conf :: "ServerOptions \<Rightarrow> dial_config" where
  "dial_conf opts =
     \<lparr>dc_RootCAs = so_CACertPool opts, dc_NextProtos = [''h2''], dc_ServerName = so_SNIServerName opts,
      dc_certs = so_certs opts, dc_MinVersion = 0x0303\<rparr>"

text \<open>\<open>startConnection\<close>: the preface, then \<open>h2.New\<close>. \<open>wr\<close> is what writing the preface to the socket returns.\<close>

definition startConnection :: "H2Lib \<Rightarrow> ptr \<Rightarrow> gerr option \<Rightarrow> ServerOptions \<Rightarrow> gerr + Conn" where
  "startConnection L self wr opts =
     (case wr of
        Some e \<Rightarrow> Inl e
      | None \<Rightarrow> New L self (so_MaxConcurrentStreams opts))"

text \<open>\<open>dial\<close> until it has a connection, for what \<open>tls.Dial\<close>, \<open>Handshake\<close> and the negotiated protocol are. The second component
  says whether a socket was opened and is still open.\<close>

definition dial_setup ::
  "H2Lib \<Rightarrow> ptr \<Rightarrow> (dial_config \<Rightarrow> string \<Rightarrow> gerr option) \<Rightarrow> gerr option \<Rightarrow> string \<Rightarrow> gerr option \<Rightarrow> ServerOptions
     \<Rightarrow> (gerr + Conn) \<times> bool" where
  "dial_setup L self tlsDial handshake proto wr opts =
     (case tlsDial (dial_conf opts) (so_Addr opts) of
        Some e \<Rightarrow> (Inl e, False)
      | None \<Rightarrow>
          (case handshake of
             Some e \<Rightarrow> (Inl e, True)
           | None \<Rightarrow>
               if proto \<noteq> ''h2'' then (Inl ErrALPN, False)
               else (startConnection L self wr opts, True)))"

subsection \<open>The pool\<close>

record Pool =
  pl_ready :: int
  pl_maintainers :: int
  pl_shutdown :: bool
  pl_conns :: "ptr set"
  pl_woken :: "ptr set"

definition registerConn :: "ptr \<Rightarrow> Pool \<Rightarrow> Pool" where
  "registerConn c p = p\<lparr>pl_conns := insert c (pl_conns p)\<rparr>"

definition deregisterConn :: "ptr \<Rightarrow> Pool \<Rightarrow> Pool" where
  "deregisterConn c p = p\<lparr>pl_conns := pl_conns p - {c}\<rparr>"

definition Ready :: "Pool \<Rightarrow> bool" where
  "Ready p \<longleftrightarrow> pl_ready p = 0"

text \<open>\<open>NewConnectionPool\<close> with the number of slots it starts. \<open>WaitGroup.Add\<close> panics when the counter becomes negative.\<close>

datatype new_pool = PoolError gerr | PoolPanic | PoolStarted Pool nat

definition NewConnectionPool :: "ServerOptions \<Rightarrow> new_pool" where
  "NewConnectionPool opts =
     (case validateOptions opts of
        Some e \<Rightarrow> PoolError e
      | None \<Rightarrow>
          let n = (if so_NBConn opts = 0 then 1 else so_NBConn opts)
          in if n < 0 then PoolPanic
             else PoolStarted \<lparr>pl_ready = n, pl_maintainers = n, pl_shutdown = False, pl_conns = {}, pl_woken = {}\<rparr> (nat n))"

definition pool_shutdown_once :: "Pool \<Rightarrow> Pool" where
  "pool_shutdown_once p =
     (if pl_shutdown p then p else p\<lparr>pl_shutdown := True, pl_woken := pl_woken p \<union> pl_conns p\<rparr>)"

text \<open>The rest of \<open>Shutdown\<close>: \<open>ctx\<close> is the error of a context that is done.\<close>

definition pool_Shutdown_wait :: "gerr option \<Rightarrow> bool \<Rightarrow> Pool \<Rightarrow> gerr option option" where
  "pool_Shutdown_wait ctx prefer_done p =
     (if pl_maintainers p = 0 \<and> (ctx = None \<or> prefer_done) then Some None
      else case ctx of Some e \<Rightarrow> Some (Some e) | None \<Rightarrow> None)"

subsection \<open>The goroutines\<close>

text \<open>Where the goroutine of a slot is: at the top of its loop, in \<open>dial\<close> before it has a connection, in the first or in the
  second \<open>select\<close> of \<open>dial\<close>, in the pause after \<open>dial\<close>, or returned.\<close>

datatype sphase = SLoop | SDialing | SStarted ptr | SServing ptr | SPause | SDone

record wpool =
  wp_pool :: Pool
  wp_n :: nat
  wp_slot :: "nat \<Rightarrow> sphase"
  wp_once :: "nat \<Rightarrow> bool"
  wp_reapers :: "ptr set"
  wp_used :: "ptr set"
  wp_ended :: "ptr set"
  wp_reached :: "nat set"

abbreviation upd_pool :: "(Pool \<Rightarrow> Pool) \<Rightarrow> wpool \<Rightarrow> wpool" where
  "upd_pool f s \<equiv> s\<lparr>wp_pool := f (wp_pool s)\<rparr>"

abbreviation slot_to :: "nat \<Rightarrow> sphase \<Rightarrow> wpool \<Rightarrow> wpool" where
  "slot_to i ph s \<equiv> s\<lparr>wp_slot := (wp_slot s)(i := ph)\<rparr>"

text \<open>\<open>once.Do(p.ready.Done)\<close>, and returning from \<open>maintainConnection\<close>, which runs \<open>maintainers.Done\<close>.\<close>

definition fire_once :: "nat \<Rightarrow> wpool \<Rightarrow> wpool" where
  "fire_once i s =
     (if wp_once s i then s
      else s\<lparr>wp_once := (wp_once s)(i := True), wp_pool := (wp_pool s)\<lparr>pl_ready := pl_ready (wp_pool s) - 1\<rparr>\<rparr>)"

definition slot_return :: "nat \<Rightarrow> wpool \<Rightarrow> wpool" where
  "slot_return i s =
     slot_to i SDone (upd_pool (\<lambda>p. p\<lparr>pl_maintainers := pl_maintainers p - 1\<rparr>) (fire_once i s))"

text \<open>The case a slot's goroutine takes: a closed shutdown channel or not, how dialling ended (with the address of the new
  connection), \<open>readyCh\<close>, \<open>errCh\<close>, \<open>DrainStarted\<close>, or the timer.\<close>

datatype slot_event = EvShut | EvGo | EvDial "gerr + ptr" | EvReady | EvErr | EvDrain | EvTimer

fun slot_step :: "nat \<Rightarrow> slot_event \<Rightarrow> wpool \<Rightarrow> wpool option" where
  "slot_step i ev s =
     (case (wp_slot s i, ev) of
        (SLoop, EvShut) \<Rightarrow> if pl_shutdown (wp_pool s) then Some (slot_return i s) else None
      | (SLoop, EvGo) \<Rightarrow> if pl_shutdown (wp_pool s) then None else Some (slot_to i SDialing s)
      | (SDialing, EvDial (Inl e)) \<Rightarrow> Some (slot_to i SPause s)
      | (SDialing, EvDial (Inr c)) \<Rightarrow>
          if c \<in> wp_used s then None
          else Some (slot_to i (SStarted c) (upd_pool (registerConn c) (s\<lparr>wp_used := insert c (wp_used s)\<rparr>)))
      | (SStarted c, EvErr) \<Rightarrow>
          if c \<in> wp_ended s then Some (slot_to i SPause (upd_pool (deregisterConn c) s)) else None
      | (SStarted c, EvReady) \<Rightarrow>
          Some (slot_to i (SServing c) (fire_once i (s\<lparr>wp_reached := insert i (wp_reached s)\<rparr>)))
      | (SServing c, EvErr) \<Rightarrow>
          if c \<in> wp_ended s then Some (slot_to i SPause (upd_pool (deregisterConn c) s)) else None
      | (SServing c, EvDrain) \<Rightarrow>
          Some (slot_to i SPause (upd_pool (\<lambda>p. p\<lparr>pl_maintainers := pl_maintainers p + 1\<rparr>)
            (s\<lparr>wp_reapers := insert c (wp_reapers s)\<rparr>)))
      | (SPause, EvShut) \<Rightarrow> if pl_shutdown (wp_pool s) then Some (slot_return i s) else None
      | (SPause, EvTimer) \<Rightarrow> Some (slot_to i SLoop s)
      | _ \<Rightarrow> None)"

definition reap :: "ptr \<Rightarrow> wpool \<Rightarrow> wpool" where
  "reap c s = upd_pool (\<lambda>p. (deregisterConn c p)\<lparr>pl_maintainers := pl_maintainers p - 1\<rparr>) (s\<lparr>wp_reapers := wp_reapers s - {c}\<rparr>)"

inductive pool_trans :: "wpool \<Rightarrow> wpool \<Rightarrow> bool" where
  slot: "i < wp_n s \<Longrightarrow> slot_step i ev s = Some s' \<Longrightarrow> pool_trans s s'"
| reaped: "c \<in> wp_reapers s \<Longrightarrow> c \<in> wp_ended s \<Longrightarrow> pool_trans s (reap c s)"
| ended: "c \<in> wp_used s \<Longrightarrow> c \<notin> wp_ended s \<Longrightarrow> pool_trans s (s\<lparr>wp_ended := insert c (wp_ended s)\<rparr>)"
| shut: "\<not> pl_shutdown (wp_pool s) \<Longrightarrow> pool_trans s (upd_pool pool_shutdown_once s)"

definition init_pool :: "Pool \<Rightarrow> nat \<Rightarrow> wpool" where
  "init_pool p n = \<lparr>wp_pool = p, wp_n = n, wp_slot = (\<lambda>_. SLoop), wp_once = (\<lambda>_. False), wp_reapers = {}, wp_used = {},
     wp_ended = {}, wp_reached = {}\<rparr>"

section \<open>The invariant\<close>

fun holds_conn :: "sphase \<Rightarrow> ptr \<Rightarrow> bool" where
  "holds_conn (SStarted c) d \<longleftrightarrow> c = d"
| "holds_conn (SServing c) d \<longleftrightarrow> c = d"
| "holds_conn ph d \<longleftrightarrow> False"

text \<open>The wait groups count what they are meant to count.\<close>

definition counts_ok :: "wpool \<Rightarrow> bool" where
  "counts_ok s \<longleftrightarrow>
     pl_ready (wp_pool s) = int (card {i. i < wp_n s \<and> \<not> wp_once s i}) \<and>
     pl_maintainers (wp_pool s) = int (card {i. i < wp_n s \<and> wp_slot s i \<noteq> SDone}) + int (card (wp_reapers s)) \<and>
     finite (wp_reapers s)"

text \<open>The registry holds the connections of the slots and of the reapers, each with one owner.\<close>

definition owned :: "nat \<Rightarrow> (nat \<Rightarrow> ptr \<Rightarrow> bool) \<Rightarrow> ptr set \<Rightarrow> ptr set \<Rightarrow> ptr set \<Rightarrow> bool" where
  "owned n H R C U \<longleftrightarrow>
     (\<forall>c. c \<in> C \<longleftrightarrow> (\<exists>i < n. H i c) \<or> c \<in> R) \<and> C \<subseteq> U \<and>
     (\<forall>i < n. \<forall>c. H i c \<longrightarrow> c \<notin> R \<and> (\<forall>j < n. H j c \<longrightarrow> i = j))"

definition conns_ok :: "wpool \<Rightarrow> bool" where
  "conns_ok s \<longleftrightarrow>
     owned (wp_n s) (\<lambda>i. holds_conn (wp_slot s i)) (wp_reapers s) (pl_conns (wp_pool s)) (wp_used s) \<and>
     finite (wp_used s) \<and> wp_ended s \<subseteq> wp_used s"

text \<open>A slot that has fired has had a connection ready, or the pool is shutting down; only a shutdown ends one.\<close>

definition slots_ok :: "wpool \<Rightarrow> bool" where
  "slots_ok s \<longleftrightarrow>
     (\<forall>i < wp_n s. (wp_slot s i = SDone \<longrightarrow> wp_once s i \<and> pl_shutdown (wp_pool s)) \<and>
        (wp_once s i \<longrightarrow> i \<in> wp_reached s \<or> pl_shutdown (wp_pool s)) \<and> (i \<in> wp_reached s \<longrightarrow> wp_once s i))"

definition pool_inv :: "wpool \<Rightarrow> bool" where
  "pool_inv s \<longleftrightarrow> counts_ok s \<and> conns_ok s \<and> slots_ok s"

lemma slot_step_cases:
  assumes "slot_step i ev s = Some s'"
  obtains (returns) "wp_slot s i \<in> {SLoop, SPause}" "pl_shutdown (wp_pool s)" "s' = slot_return i s"
  | (dials) "wp_slot s i = SLoop" "\<not> pl_shutdown (wp_pool s)" "s' = slot_to i SDialing s"
  | (fails) "wp_slot s i = SDialing" "s' = slot_to i SPause s"
  | (starts) c where "wp_slot s i = SDialing" "c \<notin> wp_used s"
      "s' = slot_to i (SStarted c) (upd_pool (registerConn c) (s\<lparr>wp_used := insert c (wp_used s)\<rparr>))"
  | (ends) c where "holds_conn (wp_slot s i) c" "c \<in> wp_ended s" "s' = slot_to i SPause (upd_pool (deregisterConn c) s)"
  | (ready) c where "wp_slot s i = SStarted c"
      "s' = slot_to i (SServing c) (fire_once i (s\<lparr>wp_reached := insert i (wp_reached s)\<rparr>))"
  | (drains) c where "wp_slot s i = SServing c"
      "s' = slot_to i SPause (upd_pool (\<lambda>p. p\<lparr>pl_maintainers := pl_maintainers p + 1\<rparr>)
            (s\<lparr>wp_reapers := insert c (wp_reapers s)\<rparr>))"
  | (pauses) "wp_slot s i = SPause" "s' = slot_to i SLoop s"
  using assms by (cases "wp_slot s i"; cases ev) (auto split: if_splits sum.splits)

lemma card_step:
  assumes "i < (n :: nat)"
  shows "int (card {j. j < n \<and> (if j = i then b else P j)}) =
    int (card {j. j < n \<and> P j}) + (if b then 1 else 0) - (if P i then 1 else 0)"
proof -
  define A where "A = {j. j < n \<and> P j} - {i}"
  have A: "finite A" "i \<notin> A" by (simp_all add: A_def)
  have a: "{j. j < n \<and> P j} = (if P i then insert i A else A)"
    "{j. j < n \<and> (if j = i then b else P j)} = (if b then insert i A else A)"
    using assms by (auto simp: A_def split: if_splits)
  show ?thesis unfolding a using A by simp
qed

lemma upd_slot_card:
  assumes "i < (n :: nat)"
  shows "int (card {j. j < n \<and> (f(i := ph)) j \<noteq> SDone}) =
    int (card {j. j < n \<and> f j \<noteq> SDone}) + (if ph = SDone then 0 else 1) - (if f i = SDone then 0 else 1)"
proof -
  have "{j. j < n \<and> (f(i := ph)) j \<noteq> SDone} = {j. j < n \<and> (if j = i then ph \<noteq> SDone else f j \<noteq> SDone)}" by auto
  then show ?thesis using card_step [OF assms, of "ph \<noteq> SDone" "\<lambda>j. f j \<noteq> SDone"] by simp
qed

lemma fire_once_fields [simp]:
  "wp_slot (fire_once i s) = wp_slot s" "wp_n (fire_once i s) = wp_n s" "wp_reapers (fire_once i s) = wp_reapers s"
  "wp_used (fire_once i s) = wp_used s" "wp_ended (fire_once i s) = wp_ended s" "wp_reached (fire_once i s) = wp_reached s"
  "wp_once (fire_once i s) = (wp_once s)(i := True)" "pl_shutdown (wp_pool (fire_once i s)) = pl_shutdown (wp_pool s)"
  "pl_conns (wp_pool (fire_once i s)) = pl_conns (wp_pool s)"
  "pl_maintainers (wp_pool (fire_once i s)) = pl_maintainers (wp_pool s)"
  by (auto simp: fire_once_def fun_upd_idem)

lemma fire_once_ready:
  assumes "i < wp_n s" "pl_ready (wp_pool s) = int (card {j. j < wp_n s \<and> \<not> wp_once s j})"
  shows "pl_ready (wp_pool (fire_once i s)) = int (card {j. j < wp_n s \<and> \<not> ((wp_once s)(i := True)) j})"
proof -
  have "{j. j < wp_n s \<and> \<not> ((wp_once s)(i := True)) j} = {j. j < wp_n s \<and> (if j = i then False else \<not> wp_once s j)}" by auto
  then show ?thesis using card_step [OF assms(1), of False "\<lambda>j. \<not> wp_once s j"] assms(2) by (simp add: fire_once_def)
qed

lemma slot_step_n: "slot_step i ev s = Some s' \<Longrightarrow> wp_n s' = wp_n s"
  by (erule slot_step_cases) (simp_all add: slot_return_def)

lemma slot_counts:
  assumes "counts_ok s" "conns_ok s" "i < wp_n s" "slot_step i ev s = Some s'"
  shows "counts_ok s'"
  using assms(4)
proof (cases rule: slot_step_cases)
  case returns
  then show ?thesis using assms(1) fire_once_ready [OF assms(3)] upd_slot_card [OF assms(3), of "wp_slot s" SDone]
    by (auto simp: counts_ok_def slot_return_def)
next
  case (ready c)
  then show ?thesis using assms(1,3) upd_slot_card [OF assms(3), of "wp_slot s" "SServing c"]
      fire_once_ready [of i "s\<lparr>wp_reached := insert i (wp_reached s)\<rparr>"]
    by (simp add: counts_ok_def)
next
  case (drains c)
  then have "c \<notin> wp_reapers s" using assms(2,3) by (force simp: conns_ok_def owned_def)
  then show ?thesis using drains assms(1) upd_slot_card [OF assms(3), of "wp_slot s" SPause]
    by (simp add: counts_ok_def)
next
  case (ends c)
  then have "wp_slot s i \<noteq> SDone" by auto
  then show ?thesis using ends assms(1) upd_slot_card [OF assms(3), of "wp_slot s" SPause]
    by (simp add: counts_ok_def deregisterConn_def)
qed (use assms(1) upd_slot_card [OF assms(3), of "wp_slot s"] in \<open>simp_all add: counts_ok_def registerConn_def\<close>)

lemma slot_slots:
  assumes "slots_ok s" "i < wp_n s" "slot_step i ev s = Some s'"
  shows "slots_ok s'"
  using assms(3)
proof (cases rule: slot_step_cases)
  case returns
  then show ?thesis using assms(1) by (auto simp: slots_ok_def slot_return_def)
next
  case (ends c)
  then show ?thesis using assms(1) by (auto simp: slots_ok_def deregisterConn_def)
qed (use assms(1) in \<open>auto simp: slots_ok_def registerConn_def\<close>)

text \<open>A connection that gets an owner, that loses its slot, that goes from its slot to a reaper, and that is reaped.\<close>

lemma ownedD:
  assumes "owned n H R C U"
  shows "c \<in> C \<longleftrightarrow> (\<exists>i < n. H i c) \<or> c \<in> R" "C \<subseteq> U" "i < n \<Longrightarrow> H i c \<Longrightarrow> c \<notin> R"
    "i < n \<Longrightarrow> H i c \<Longrightarrow> j < n \<Longrightarrow> H j c \<Longrightarrow> i = j"
  using assms unfolding owned_def by blast+

lemma ownedI:
  assumes "\<And>c. c \<in> C \<longleftrightarrow> (\<exists>i < n. H i c) \<or> c \<in> R" "C \<subseteq> U" "\<And>i c. i < n \<Longrightarrow> H i c \<Longrightarrow> c \<notin> R"
    "\<And>i j c. i < n \<Longrightarrow> H i c \<Longrightarrow> j < n \<Longrightarrow> H j c \<Longrightarrow> i = j"
  shows "owned n H R C U"
  unfolding owned_def by (intro conjI allI impI) (use assms in \<open>assumption | blast\<close>)+

lemma owned_add:
  assumes "owned n H R C U" "i < n" "\<And>d. \<not> H i d" "c \<notin> U"
  shows "owned n (\<lambda>j d. if j = i then d = c else H j d) R (insert c C) (insert c U)"
proof -
  have n: "c \<notin> R" "\<And>j. j < n \<Longrightarrow> \<not> H j c" using ownedD(1,2) [OF assms(1)] assms(4) by blast+
  have m: "d \<in> insert c C \<longleftrightarrow> (\<exists>j < n. if j = i then d = c else H j d) \<or> d \<in> R" for d
  proof -
    have "(if j = i then d = c else H j d) \<longleftrightarrow> (j = i \<and> d = c) \<or> H j d" for j using assms(3) by auto
    then show ?thesis unfolding ownedD(1) [OF assms(1), of d] insert_iff using assms(2) by auto
  qed
  show ?thesis
    by (rule ownedI [OF m]) (use n ownedD(2-4) [OF assms(1)] assms(2) in \<open>auto split: if_splits\<close>)
qed

lemma owned_leaves:
  assumes "owned n H R C U" "i < n" "\<And>d. H i d \<longleftrightarrow> d = c"
  shows "(\<exists>j < n. j \<noteq> i \<and> H j d) \<longleftrightarrow> d \<noteq> c \<and> (\<exists>j < n. H j d)" "c \<in> C" "c \<notin> R"
proof -
  have c: "H i c" using assms(3) by simp
  then show "c \<in> C" "c \<notin> R" using ownedD(1,3) [OF assms(1)] assms(2) by blast+
  show "(\<exists>j < n. j \<noteq> i \<and> H j d) \<longleftrightarrow> d \<noteq> c \<and> (\<exists>j < n. H j d)"
    using ownedD(4) [OF assms(1,2) c] assms(3) by blast
qed

lemma owned_drop:
  assumes "owned n H R C U" "i < n" "\<And>d. H i d \<longleftrightarrow> d = c"
  shows "owned n (\<lambda>j d. j \<noteq> i \<and> H j d) R (C - {c}) U"
proof -
  note l = owned_leaves [OF assms]
  have "d \<in> C - {c} \<longleftrightarrow> (\<exists>j < n. j \<noteq> i \<and> H j d) \<or> d \<in> R" for d
    using ownedD(1) [OF assms(1), of d] l by auto
  then show ?thesis by (rule ownedI) (use ownedD(2-4) [OF assms(1)] in auto)
qed

lemma owned_move:
  assumes "owned n H R C U" "i < n" "\<And>d. H i d \<longleftrightarrow> d = c"
  shows "owned n (\<lambda>j d. j \<noteq> i \<and> H j d) (insert c R) C U"
proof -
  note l = owned_leaves [OF assms]
  have "d \<in> C \<longleftrightarrow> (\<exists>j < n. j \<noteq> i \<and> H j d) \<or> d \<in> insert c R" for d
    using ownedD(1) [OF assms(1), of d] l by auto
  moreover have "d \<notin> insert c R" if "j < n" "j \<noteq> i" "H j d" for j d
    using ownedD(3,4) [OF assms(1)] that assms(2,3) by blast
  ultimately show ?thesis using ownedD(2,4) [OF assms(1)] by (intro ownedI) auto
qed

lemma owned_reap:
  assumes "owned n H R C U" "c \<in> R"
  shows "owned n H (R - {c}) (C - {c}) U"
proof -
  have "d \<in> C - {c} \<longleftrightarrow> (\<exists>j < n. H j d) \<or> d \<in> R - {c}" for d
    using ownedD(1) [OF assms(1), of d] ownedD(3) [OF assms(1), of _ c] assms(2) by auto
  then show ?thesis by (rule ownedI) (use ownedD(2-4) [OF assms(1)] in auto)
qed

text \<open>Which slot holds which connection after one slot has moved.\<close>

lemma holds_upd:
  "(\<lambda>j. holds_conn (if j = i then SStarted c else f j)) = (\<lambda>j d. if j = i then d = c else holds_conn (f j) d)"
  "(\<lambda>j. holds_conn (if j = i then SPause else f j)) = (\<lambda>j d. j \<noteq> i \<and> holds_conn (f j) d)"
  by (auto intro!: ext split: if_splits)

lemma holds_same:
  "holds_conn (f i) = holds_conn ph \<Longrightarrow> (\<lambda>j. holds_conn (if j = i then ph else f j)) = (\<lambda>j. holds_conn (f j))"
  by (rule ext) simp

lemma holds_none: "holds_conn SLoop = (\<lambda>_. False)" "holds_conn SDialing = (\<lambda>_. False)" "holds_conn SPause = (\<lambda>_. False)"
  "holds_conn SDone = (\<lambda>_. False)" "holds_conn (SServing c) = holds_conn (SStarted c)"
  by (auto intro!: ext)

lemma slot_conns:
  assumes "conns_ok s" "i < wp_n s" "slot_step i ev s = Some s'"
  shows "conns_ok s'"
proof -
  have o: "owned (wp_n s) (\<lambda>i. holds_conn (wp_slot s i)) (wp_reapers s) (pl_conns (wp_pool s)) (wp_used s)"
    and u: "finite (wp_used s)" "wp_ended s \<subseteq> wp_used s" using assms(1) by (simp_all add: conns_ok_def)
  from assms(3) show ?thesis
  proof (cases rule: slot_step_cases)
    case returns
    then have "holds_conn (wp_slot s i) = holds_conn SDone" by (auto simp: holds_none)
    with returns o u show ?thesis by (simp add: conns_ok_def slot_return_def holds_same)
  next
    case (starts c)
    then show ?thesis using owned_add [OF o assms(2), of c] u
      by (auto simp: conns_ok_def registerConn_def holds_upd)
  next
    case (ends c)
    then have "holds_conn (wp_slot s i) d \<longleftrightarrow> d = c" for d by (cases "wp_slot s i") auto
    with ends show ?thesis using owned_drop [OF o assms(2), of c] u
      by (simp add: conns_ok_def deregisterConn_def holds_upd)
  next
    case (ready c)
    then show ?thesis using o u by (simp add: conns_ok_def holds_same holds_none)
  next
    case (drains c)
    then have "holds_conn (wp_slot s i) d \<longleftrightarrow> d = c" for d by auto
    with drains show ?thesis using owned_move [OF o assms(2), of c] u
      by (simp add: conns_ok_def holds_upd)
  qed (use o u in \<open>simp_all add: conns_ok_def holds_same holds_none\<close>)
qed

lemma pool_trans_inv:
  assumes "pool_inv s" "pool_trans s s'"
  shows "pool_inv s'"
  using assms(2)
proof cases
  case (slot i ev)
  then show ?thesis using assms(1) slot_counts slot_conns slot_slots by (auto simp: pool_inv_def)
next
  case (reaped c)
  have "owned (wp_n s) (\<lambda>i. holds_conn (wp_slot s i)) (wp_reapers s - {c}) (pl_conns (wp_pool s) - {c}) (wp_used s)"
    using assms(1) reaped by (intro owned_reap) (simp_all add: pool_inv_def conns_ok_def)
  moreover have "0 < card (wp_reapers s)" using assms(1) reaped by (auto simp: pool_inv_def counts_ok_def card_gt_0_iff)
  ultimately show ?thesis using assms(1) reaped
    by (auto simp: pool_inv_def counts_ok_def conns_ok_def slots_ok_def reap_def deregisterConn_def)
next
  case (ended c)
  then show ?thesis using assms(1) by (auto simp: pool_inv_def counts_ok_def conns_ok_def slots_ok_def)
next
  case shut
  then show ?thesis using assms(1) by (auto simp: pool_inv_def counts_ok_def conns_ok_def slots_ok_def pool_shutdown_once_def)
qed

interpretation pl: step_system pool_trans pool_inv
  by unfold_locales (rule pool_trans_inv)

lemma init_pool_inv:
  assumes "NewConnectionPool opts = PoolStarted p n"
  shows "pool_inv (init_pool p n)" "\<not> pl_shutdown p"
  using assms
  by (auto simp: NewConnectionPool_def Let_def pool_inv_def counts_ok_def conns_ok_def slots_ok_def init_pool_def
      owned_def split: option.splits if_splits)

section \<open>Shutting down\<close>

text \<open>What is left to do once the shutdown channel is closed.\<close>

fun weight :: "sphase \<Rightarrow> nat" where
  "weight SDone = 0"
| "weight SLoop = 1"
| "weight SPause = 2"
| "weight (SServing c) = 4"
| "weight (SStarted c) = 5"
| "weight SDialing = 7"

definition work :: "wpool \<Rightarrow> nat" where
  "work s = (\<Sum>i < wp_n s. weight (wp_slot s i)) + card (wp_reapers s) + card (wp_used s - wp_ended s)"

lemma weight_upd:
  assumes "i < (n :: nat)"
  shows "(\<Sum>j < n. weight ((f(i := ph)) j)) + weight (f i) = (\<Sum>j < n. weight (f j)) + weight ph"
proof -
  have "i \<in> {..<n}" using assms by simp
  then have d: "(\<Sum>j < n. weight (g j)) = weight (g i) + (\<Sum>j \<in> {..<n} - {i}. weight (g j))" for g
    by (intro sum.remove) simp_all
  have "(\<Sum>j \<in> {..<n} - {i}. weight ((f(i := ph)) j)) = (\<Sum>j \<in> {..<n} - {i}. weight (f j))" by (rule sum.cong) auto
  with d [of "f(i := ph)"] d [of f] show ?thesis by simp
qed

lemma work_less:
  assumes "pool_inv s" "pl_shutdown (wp_pool s)" "pool_trans s s'"
  shows "work s' < work s"
proof -
  have f: "finite (wp_reapers s)" "finite (wp_used s)" using assms(1) by (simp_all add: pool_inv_def counts_ok_def conns_ok_def)
  from assms(3) show ?thesis
  proof cases
    case (slot i ev)
    note w = weight_upd [OF slot(1), of "wp_slot s"]
    from slot(2) show ?thesis
    proof (cases rule: slot_step_cases)
      case returns
      then show ?thesis using w [of SDone] by (auto simp: work_def slot_return_def)
    next
      case (starts c)
      have "insert c (wp_used s) - wp_ended s \<subseteq> insert c (wp_used s - wp_ended s)" by blast
      then have "card (insert c (wp_used s) - wp_ended s) \<le> Suc (card (wp_used s - wp_ended s))"
        using f(2) card_mono [of "insert c (wp_used s - wp_ended s)"] card_insert_le_m1
        by (metis card_insert_if finite_Diff finite_insert le_SucI)
      then show ?thesis using starts w [of "SStarted c"] by (simp add: work_def registerConn_def)
    next
      case (ends c)
      then have "weight (wp_slot s i) \<ge> 4" by (cases "wp_slot s i") auto
      then show ?thesis using ends w [of SPause] by (simp add: work_def deregisterConn_def)
    next
      case (drains c)
      then show ?thesis using w [of SPause] f(1) by (simp add: work_def card_insert_if)
    next
      case (ready c)
      then show ?thesis using w [of "SServing c"] by (simp add: work_def)
    qed (use w [of SPause] w [of SLoop] assms(2) in \<open>simp_all add: work_def\<close>)
  next
    case (reaped c)
    have "card (wp_reapers s - {c}) < card (wp_reapers s)" by (rule card_Diff1_less [OF f(1) reaped(2)])
    then show ?thesis using reaped by (simp add: work_def reap_def)
  next
    case (ended c)
    have "wp_used s - insert c (wp_ended s) \<subset> wp_used s - wp_ended s" using ended by blast
    then have "card (wp_used s - insert c (wp_ended s)) < card (wp_used s - wp_ended s)"
      using f(2) by (intro psubset_card_mono) simp_all
    then show ?thesis unfolding ended(1) work_def by (simp del: card_Diff_insert)
  next
    case shut
    then show ?thesis using assms(2) by simp
  qed
qed

lemma slot_enabled:
  assumes "pl_shutdown (wp_pool s)" "wp_slot s i \<noteq> SDone"
  shows "\<exists>ev s'. slot_step i ev s = Some s'"
proof (cases "wp_slot s i")
  case SLoop
  then show ?thesis using assms(1) by (intro exI [of _ EvShut]) simp
next
  case SDialing
  then show ?thesis by (intro exI [of _ "EvDial (Inl EOF)"]) simp
next
  case (SStarted c)
  then show ?thesis by (intro exI [of _ EvReady]) simp
next
  case (SServing c)
  then show ?thesis by (intro exI [of _ EvDrain]) simp
next
  case SPause
  then show ?thesis by (intro exI [of _ EvTimer]) simp
next
  case SDone
  then show ?thesis using assms(2) by simp
qed

lemma drained_pool:
  assumes "pool_inv s" "pl_maintainers (wp_pool s) = 0"
  shows "Ready (wp_pool s)" "pl_conns (wp_pool s) = {}"
proof -
  have f: "finite {i. i < wp_n s \<and> wp_slot s i \<noteq> SDone}" by simp
  have r: "finite (wp_reapers s)" using assms(1) by (simp add: pool_inv_def counts_ok_def)
  have "card {i. i < wp_n s \<and> wp_slot s i \<noteq> SDone} = 0" "card (wp_reapers s) = 0"
    using assms unfolding pool_inv_def counts_ok_def by linarith+
  then have d: "\<And>i. i < wp_n s \<Longrightarrow> wp_slot s i = SDone" "wp_reapers s = {}" using f r by auto
  have "\<And>i. i < wp_n s \<Longrightarrow> wp_once s i" using d(1) assms(1) by (auto simp: pool_inv_def slots_ok_def)
  then have "{i. i < wp_n s \<and> \<not> wp_once s i} = {}" by blast
  then show "Ready (wp_pool s)" using assms(1) by (simp add: Ready_def pool_inv_def counts_ok_def)
  show "pl_conns (wp_pool s) = {}" using d assms(1) by (auto simp: pool_inv_def conns_ok_def owned_def)
qed

lemma stuck_pool:
  assumes "pool_inv s" "pl_shutdown (wp_pool s)" "\<And>s'. \<not> pool_trans s s'"
  shows "pl_maintainers (wp_pool s) = 0"
proof -
  have "wp_slot s i = SDone" if "i < wp_n s" for i
    using slot_enabled [OF assms(2), of i] pool_trans.slot [OF that] assms(3) by blast
  then have "{i. i < wp_n s \<and> wp_slot s i \<noteq> SDone} = {}" by blast
  moreover have "wp_reapers s = {}"
  proof (rule ccontr)
    assume "wp_reapers s \<noteq> {}"
    then obtain c where c: "c \<in> wp_reapers s" by blast
    then have "c \<in> wp_used s" using assms(1) by (auto simp: pool_inv_def conns_ok_def owned_def)
    then show False using c pool_trans.reaped [of c s] pool_trans.ended [of c s] assms(3) by blast
  qed
  ultimately show ?thesis using assms(1) by (simp add: pool_inv_def counts_ok_def)
qed

text \<open>A pool of one slot.\<close>

definition sample_options :: ServerOptions where
  "sample_options = \<lparr>so_certs = 1, so_key = True, so_Handler = True, so_CACertPool = None, so_SNIServerName = [],
     so_Addr = ''proxy:8443'', so_NBConn = 0, so_MaxConcurrentStreams = 0\<rparr>"

definition sample_pool :: "Pool \<times> nat" where
  "sample_pool = (\<lparr>pl_ready = 1, pl_maintainers = 1, pl_shutdown = False, pl_conns = {}, pl_woken = {}\<rparr>, 1)"

lemma sample_pool_new: "NewConnectionPool sample_options = PoolStarted (fst sample_pool) (snd sample_pool)"
  by (simp add: NewConnectionPool_def validateOptions_def sample_options_def sample_pool_def)

section \<open>Properties\<close>

text \<open>
  C19. \<open>Ready\<close> is a sound and complete start-up gate. However the slots, the connections and \<open>Shutdown\<close> interleave, neither
  wait group ever becomes negative, which would panic; the registry holds exactly the connections some slot or
  reaper still has; and as long as the pool is not shut down, the ready counter is zero exactly when every slot has
  had a connection whose handshake completed.
\<close>

theorem ready_gate_exact:
  assumes "NewConnectionPool opts = PoolStarted p n" "pool_trans\<^sup>*\<^sup>* (init_pool p n) s"
  shows "0 \<le> pl_ready (wp_pool s) \<and> 0 \<le> pl_maintainers (wp_pool s) \<and>
    pl_conns (wp_pool s) = {c. (\<exists>i < wp_n s. holds_conn (wp_slot s i) c) \<or> c \<in> wp_reapers s} \<and>
    (\<not> pl_shutdown (wp_pool s) \<longrightarrow> (Ready (wp_pool s) \<longleftrightarrow> {i. i < wp_n s} \<subseteq> wp_reached s))"
proof -
  have inv: "pool_inv s" by (rule pl.reach_good [OF assms(2) init_pool_inv(1) [OF assms(1)]])
  have "Ready (wp_pool s) \<longleftrightarrow> {i. i < wp_n s \<and> \<not> wp_once s i} = {}"
    using inv by (simp add: Ready_def pool_inv_def counts_ok_def card_eq_0_iff del: card_0_eq)
  moreover have "pl_conns (wp_pool s) = {c. (\<exists>i < wp_n s. holds_conn (wp_slot s i) c) \<or> c \<in> wp_reapers s}"
    using inv by (auto simp: pool_inv_def conns_ok_def owned_def)
  moreover have "\<not> pl_shutdown (wp_pool s) \<Longrightarrow> i < wp_n s \<Longrightarrow> wp_once s i \<longleftrightarrow> i \<in> wp_reached s" for i
    using inv by (auto simp: pool_inv_def slots_ok_def)
  ultimately show ?thesis using inv by (auto simp: pool_inv_def counts_ok_def)
qed

theorem ready_gate_exact_witness:
  "\<exists>s. pool_trans\<^sup>*\<^sup>* (init_pool (fst sample_pool) (snd sample_pool)) s \<and> wp_reached s = {0} \<and> Ready (wp_pool s)"
proof -
  let ?s0 = "init_pool (fst sample_pool) (snd sample_pool)"
  define s1 where "s1 = slot_to 0 SDialing ?s0"
  define s2 where "s2 = slot_to 0 (SStarted 4) (upd_pool (registerConn 4) (s1\<lparr>wp_used := insert 4 (wp_used s1)\<rparr>))"
  define s3 where "s3 = slot_to 0 (SServing 4) (fire_once 0 (s2\<lparr>wp_reached := insert 0 (wp_reached s2)\<rparr>))"
  have n: "wp_n s1 = 1" "wp_n s2 = 1" "wp_n s3 = 1" by (simp_all add: s1_def s2_def s3_def init_pool_def sample_pool_def)
  have "pool_trans ?s0 s1" by (rule pool_trans.slot [of 0 _ EvGo]) (simp_all add: s1_def init_pool_def sample_pool_def)
  moreover have "pool_trans s1 s2"
    by (rule pool_trans.slot [of 0 _ "EvDial (Inr 4)"]) (simp_all add: s2_def s1_def init_pool_def sample_pool_def)
  moreover have "pool_trans s2 s3" by (rule pool_trans.slot [of 0 _ EvReady]) (simp_all add: s3_def s2_def n(1))
  ultimately have r: "pool_trans\<^sup>*\<^sup>* ?s0 s3" by simp
  have "wp_reached s3 = {0}" "\<not> pl_shutdown (wp_pool s3)"
    by (simp_all add: s3_def s2_def s1_def init_pool_def sample_pool_def registerConn_def)
  with ready_gate_exact [OF sample_pool_new r] n r show ?thesis by (intro exI [of _ s3]) auto
qed

text \<open>
  C20. \<open>Shutdown\<close> of the pool completes. Once the shutdown channel is closed, every action of any goroutine brings the pool
  nearer to its end, so only finitely many are left; and when none is left, that is when the dials in progress have
  come to an end and the connections have closed, \<open>Shutdown\<close> returns without an error. Whenever it does, the ready
  gate is open and no connection is registered.
\<close>

theorem pool_shutdown_completes:
  assumes "NewConnectionPool opts = PoolStarted p n" "pool_trans\<^sup>*\<^sup>* (init_pool p n) s" "pl_shutdown (wp_pool s)"
  shows "(\<forall>s'. pool_trans s s' \<longrightarrow> work s' < work s) \<and>
    ((\<forall>s'. \<not> pool_trans s s') \<longrightarrow> pool_Shutdown_wait None b (wp_pool s) = Some None) \<and>
    (pool_Shutdown_wait None b (wp_pool s) = Some None \<longrightarrow> Ready (wp_pool s) \<and> pl_conns (wp_pool s) = {})"
proof -
  have inv: "pool_inv s" by (rule pl.reach_good [OF assms(2) init_pool_inv(1) [OF assms(1)]])
  have "pool_Shutdown_wait None b (wp_pool s) = Some None \<longleftrightarrow> pl_maintainers (wp_pool s) = 0"
    by (simp add: pool_Shutdown_wait_def)
  then show ?thesis
    using work_less [OF inv assms(3)] stuck_pool [OF inv assms(3)] drained_pool [OF inv] by blast
qed

text \<open>In this run the connection is registered after \<open>Shutdown\<close> has woken the others: it ends only when its peer lets it.\<close>

theorem pool_shutdown_completes_witness:
  "\<exists>s. pool_trans\<^sup>*\<^sup>* (init_pool (fst sample_pool) (snd sample_pool)) s \<and> pl_shutdown (wp_pool s) \<and>
     4 \<in> pl_conns (wp_pool s) - pl_woken (wp_pool s) \<and> (\<forall>s'. pool_trans s s' \<longrightarrow> work s' < work s)"
proof -
  let ?s0 = "init_pool (fst sample_pool) (snd sample_pool)"
  define s1 where "s1 = slot_to 0 SDialing ?s0"
  define s2 where "s2 = upd_pool pool_shutdown_once s1"
  define s3 where "s3 = slot_to 0 (SStarted 4) (upd_pool (registerConn 4) (s2\<lparr>wp_used := insert 4 (wp_used s2)\<rparr>))"
  have n: "wp_n s1 = 1" "wp_n s2 = 1" by (simp_all add: s1_def s2_def init_pool_def sample_pool_def)
  have "pool_trans ?s0 s1" by (rule pool_trans.slot [of 0 _ EvGo]) (simp_all add: s1_def init_pool_def sample_pool_def)
  moreover have "pool_trans s1 s2" unfolding s2_def
    by (rule pool_trans.shut) (simp add: s1_def init_pool_def sample_pool_def)
  moreover have "pool_trans s2 s3"
    by (rule pool_trans.slot [of 0 _ "EvDial (Inr 4)"]) (simp_all add: s3_def s2_def s1_def init_pool_def sample_pool_def)
  ultimately have r: "pool_trans\<^sup>*\<^sup>* ?s0 s3" by simp
  have f: "pl_shutdown (wp_pool s3)" "4 \<in> pl_conns (wp_pool s3) - pl_woken (wp_pool s3)"
    by (simp_all add: s3_def s2_def s1_def init_pool_def sample_pool_def registerConn_def pool_shutdown_once_def)
  from pool_shutdown_completes [OF sample_pool_new r f(1), of True] r f show ?thesis by blast
qed

end
