(* ===== verification/P_Worker.thy ===== *)
theory P_Worker
  imports H2_Link "HOL-Library.Sublist"
begin

text \<open>
  An attached worker as the proxy sees it (\<open>internal/proxy/worker.go\<close>): the tunnel's connection, the client
  streams that wait for responses on it, and how a stream is opened, answered, failed and given up.

  A client stream lives in \<open>w.streams\<close> from \<open>openStream\<close> to \<open>deregisterStream\<close>, and its forwarder uses it in
  that time only, so it is a value of the map here. \<open>respOnce\<close> has fired exactly when \<open>respCh\<close> is closed; both
  are \<open>cs_done\<close>. The goroutines in \<open>streamsMu\<close> exclude one another, so each operation is one step.
\<close>

section \<open>Definitions\<close>

record clientStream =
  cs_h2 :: ptr
  cs_respErr :: "gerr option"
  cs_respHeader :: header
  cs_respStatus :: int
  cs_done :: bool

record Worker = link +
  wk_streams :: "(uint32 \<times> clientStream) list"
  wk_down :: bool
  wk_inFlight :: int

definition InFlight :: "Worker \<Rightarrow> int" where
  "InFlight w = wk_inFlight w"

definition Worker_Draining :: "Worker \<Rightarrow> bool" where
  "Worker_Draining w = Draining (lk_conn w)"

definition saturated :: "Worker \<Rightarrow> bool" where
  "saturated w \<longleftrightarrow>
     (let limit = PeerMaxStreams (lk_conn w); n = length (wk_streams w) in (of_nat n :: uint32) \<ge> limit)"

definition Worker_detach :: "Worker \<Rightarrow> Worker" where
  "Worker_detach w = w\<lparr>wk_down := True\<rparr>"

definition deregisterStream :: "uint32 \<Rightarrow> Worker \<Rightarrow> Worker" where
  "deregisterStream sid w = w\<lparr>wk_streams := AList.delete sid (wk_streams w)\<rparr>"

definition getStream :: "uint32 \<Rightarrow> Worker \<Rightarrow> clientStream option" where
  "getStream sid w = map_of (wk_streams w) sid"

definition cs_deliver :: "int \<Rightarrow> header \<Rightarrow> clientStream \<Rightarrow> clientStream" where
  "cs_deliver status h cs =
     (if cs_done cs then cs else cs\<lparr>cs_respStatus := status, cs_respHeader := h, cs_done := True\<rparr>)"

definition deliverHeaders :: "int \<Rightarrow> header \<Rightarrow> uint32 \<Rightarrow> Worker \<Rightarrow> Worker" where
  "deliverHeaders status h sid w =
     (case getStream sid w of
        None \<Rightarrow> w
      | Some cs \<Rightarrow> w\<lparr>wk_streams := AList.update sid (cs_deliver status h cs) (wk_streams w)\<rparr>)"

definition cs_fail :: "gerr \<Rightarrow> clientStream \<Rightarrow> clientStream" where
  "cs_fail err cs = (if cs_done cs then cs else cs\<lparr>cs_respErr := Some err, cs_done := True\<rparr>)"

text \<open>\<open>cs.fail(err)\<close> on one stream, and on all.\<close>

definition fail :: "gerr \<Rightarrow> uint32 \<Rightarrow> Worker \<Rightarrow> Worker" where
  "fail err sid w =
     (case getStream sid w of
        None \<Rightarrow> w
      | Some cs \<Rightarrow>
          w\<lparr>wk_streams := AList.update sid (cs_fail err cs) (wk_streams w), lk_mem := mem_FailBody err (cs_h2 cs) (lk_mem w)\<rparr>)"

definition failAllStreams :: "gerr \<Rightarrow> Worker \<Rightarrow> Worker" where
  "failAllStreams err w =
     w\<lparr>wk_streams := map (\<lambda>(sid, cs). (sid, cs_fail err cs)) (wk_streams w),
       lk_mem := fold (\<lambda>(sid, cs). mem_FailBody err (cs_h2 cs)) (wk_streams w) (lk_mem w)\<rparr>"

text \<open>\<open>openStream\<close> gives back the identifier under which the new client stream is registered. \<open>k\<close> is the choice of
  the stream pool and \<open>now\<close> the clock a completed drain would read.\<close>

definition openStream ::
  "nat \<Rightarrow> nat \<Rightarrow> int32 \<Rightarrow> (uint32 \<Rightarrow> Conn \<Rightarrow> gerr option \<times> Conn) \<Rightarrow> Worker \<Rightarrow> (gerr + uint32) \<times> Worker" where
  "openStream k now initialWindow sendHeaders w =
     (let c = lk_conn w in
      if Draining c then (Inl ErrTunnelDraining, w)
      else if (of_nat (length (wk_streams w)) :: uint32) \<ge> PeerMaxStreams c then (Inl ErrTunnelSaturated, w)
      else
        let (sid, c1) = NextStreamID c;
            (p, m1) = Acquire k sid (c_self c1) initialWindow (lk_mem w);
            c2 = Conn_AddStream p m1 c1;
            cs = \<lparr>cs_h2 = p, cs_respErr = None, cs_respHeader = [], cs_respStatus = 0, cs_done = False\<rparr>;
            streams1 = AList.update sid cs (wk_streams w);
            (r, c3) = sendHeaders sid c2
        in case r of
             Some err \<Rightarrow>
               (Inl err, w\<lparr>wk_streams := AList.delete sid streams1, lk_conn := RemoveStream now sid c3, lk_mem := Release p m1\<rparr>)
           | None \<Rightarrow> (Inr sid, w\<lparr>wk_streams := streams1, lk_conn := c3, lk_mem := m1\<rparr>))"

section \<open>Well-formed workers\<close>

text \<open>The proxy's registry and the connection's agree; and no identifier is ahead of the counter.\<close>

definition regs_ok :: "Worker \<Rightarrow> bool" where
  "regs_ok w \<longleftrightarrow> cm_ok (lk_conn w, lk_mem w) \<and>
     map (\<lambda>(sid, cs). (sid, cs_h2 cs)) (wk_streams w) = c_streams (lk_conn w)"

definition worker_ok :: "Worker \<Rightarrow> bool" where
  "worker_ok w \<longleftrightarrow> regs_ok w \<and>
     (\<forall>sid \<in> fst ` set (wk_streams w). sid \<noteq> 0 \<and> sid \<le> c_nextStreamID (lk_conn w))"

lemma registries_agree:
  assumes "regs_ok w"
  shows "map fst (wk_streams w) = map fst (c_streams (lk_conn w))" "length (wk_streams w) = length (c_streams (lk_conn w))"
    "GetStream sid (lk_conn w) = map_option cs_h2 (getStream sid w)" "keys_distinct (wk_streams w)"
proof -
  have e: "c_streams (lk_conn w) = map (\<lambda>(sid, cs). (sid, cs_h2 cs)) (wk_streams w)"
    using assms by (simp add: regs_ok_def)
  show k: "map fst (wk_streams w) = map fst (c_streams (lk_conn w))" unfolding e by (simp add: case_prod_unfold)
  show "length (wk_streams w) = length (c_streams (lk_conn w))" unfolding e by simp
  show "GetStream sid (lk_conn w) = map_option cs_h2 (getStream sid w)"
    by (simp add: GetStream_def getStream_def e map_of_map)
  show "keys_distinct (wk_streams w)" unfolding k using assms by (simp add: regs_ok_def cm_ok_def registry_ok_def)
qed

lemma next_id:
  assumes "NextStreamID c = (n, c')" "unat (c_nextStreamID c) < 2 ^ 32 - 2"
  shows "c' = c\<lparr>c_nextStreamID := n\<rparr>" "n \<noteq> 0" "c_nextStreamID c < n" "unat n \<le> unat (c_nextStreamID c) + 2"
proof -
  have n: "n = (if c_nextStreamID c = 0 then 1 else c_nextStreamID c + 2)" "c' = c\<lparr>c_nextStreamID := n\<rparr>"
    using assms(1) by (auto simp: NextStreamID_def Let_def)
  have "unat (c_nextStreamID c + 2) = unat (c_nextStreamID c) + 2"
    using assms(2) by (simp add: unat_word_ariths)
  then have "n \<noteq> 0 \<and> c_nextStreamID c < n \<and> unat n \<le> unat (c_nextStreamID c) + 2"
    using n(1) by (auto simp: word_less_nat_alt unat_gt_0)
  then show "c' = c\<lparr>c_nextStreamID := n\<rparr>" "n \<noteq> 0" "c_nextStreamID c < n" "unat n \<le> unat (c_nextStreamID c) + 2"
    using n(2) by auto
qed

text \<open>The state in which \<open>openStream\<close> sends its headers, once it is past its two guards.\<close>

definition open_attempt :: "nat \<Rightarrow> int32 \<Rightarrow> Worker \<Rightarrow> uint32 \<times> ptr \<times> Worker" where
  "open_attempt k initialWindow w =
     (let (sid, c1) = NextStreamID (lk_conn w);
          (p, m1) = Acquire k sid (c_self c1) initialWindow (lk_mem w);
          cs = \<lparr>cs_h2 = p, cs_respErr = None, cs_respHeader = [], cs_respStatus = 0, cs_done = False\<rparr>
      in (sid, p, w\<lparr>wk_streams := AList.update sid cs (wk_streams w), lk_conn := Conn_AddStream p m1 c1, lk_mem := m1\<rparr>))"

definition admitted :: "Worker \<Rightarrow> bool" where
  "admitted w \<longleftrightarrow> \<not> Worker_Draining w \<and> (of_nat (length (wk_streams w)) :: uint32) < PeerMaxStreams (lk_conn w)"

lemma openStream_eq:
  "openStream k now iw send w =
     (if Worker_Draining w then (Inl ErrTunnelDraining, w)
      else if \<not> admitted w then (Inl ErrTunnelSaturated, w)
      else let (sid, p, w1) = open_attempt k iw w; (r, c3) = send sid (lk_conn w1) in
        case r of Some err \<Rightarrow> (Inl err, w1\<lparr>wk_streams := AList.delete sid (wk_streams w1),
              lk_conn := RemoveStream now sid c3, lk_mem := Release p (lk_mem w1)\<rparr>)
        | None \<Rightarrow> (Inr sid, w1\<lparr>lk_conn := c3\<rparr>))"
  by (auto simp: openStream_def open_attempt_def admitted_def Worker_Draining_def Let_def not_le split: prod.splits option.splits)

lemma open_attempt_ok:
  assumes "worker_ok w" "open_attempt k iw w = (sid, p, w1)" "unat (c_nextStreamID (lk_conn w)) < 2 ^ 32 - 2"
  shows "worker_ok w1" "c_nextStreamID (lk_conn w) < sid" "c_nextStreamID (lk_conn w1) = sid"
    "unat sid \<le> unat (c_nextStreamID (lk_conn w)) + 2" "getStream sid w = None"
    "wk_streams w1 = wk_streams w @ [(sid, \<lparr>cs_h2 = p, cs_respErr = None, cs_respHeader = [], cs_respStatus = 0, cs_done = False\<rparr>)]"
    "c_streams (lk_conn w1) = c_streams (lk_conn w) @ [(sid, p)]"
    "m_stream (lk_mem w1) p = fresh_stream sid (c_self (lk_conn w)) iw (m_nextCtx (lk_mem w))"
    "outgoing L (lk_conn w1) = outgoing L (lk_conn w)" "enc_after (lk_conn w1) = enc_after (lk_conn w)"
    "c_writeErr (lk_conn w1) = c_writeErr (lk_conn w)" "p \<notin> snd ` set (c_streams (lk_conn w))"
proof -
  let ?c = "lk_conn w"
  obtain n c1 where n: "NextStreamID ?c = (n, c1)" by (metis prod.exhaust)
  note ni = next_id [OF n assms(3)]
  obtain q m1 where a: "Acquire k n (c_self c1) iw (lk_mem w) = (q, m1)" by (metis prod.exhaust)
  let ?cs = "\<lparr>cs_h2 = q, cs_respErr = None, cs_respHeader = [], cs_respStatus = 0, cs_done = False\<rparr>"
  have w1: "sid = n" "p = q" "w1 = w\<lparr>wk_streams := AList.update n ?cs (wk_streams w), lk_conn := Conn_AddStream q m1 c1, lk_mem := m1\<rparr>"
    using assms(2) n a by (auto simp: open_attempt_def)
  have r: "regs_ok w" using assms(1) by (simp add: worker_ok_def)
  have cm: "cm_ok (c1, lk_mem w)"
    using assms(1) ni(1) by (simp add: worker_ok_def regs_ok_def cm_ok_def conn_ok_def registry_ok_def drain_ok_def)
  have "\<forall>i \<in> fst ` set (wk_streams w). i < n" using assms(1) ni(3) by (auto simp: worker_ok_def)
  then have nk: "n \<notin> fst ` set (wk_streams w)" by blast
  then show "getStream sid w = None" unfolding w1 by (simp add: getStream_def map_of_eq_None_iff)
  have g: "GetStream n c1 = None"
    using registries_agree(1) [OF r] nk ni(1) by (simp add: GetStream_def map_of_eq_None_iff) (metis list.set_map)
  note ad = add_cm_ok [OF cm a g] and ac = Acquire_cm_ok [OF cm a]
  show st: "wk_streams w1 = wk_streams w @ [(sid, \<lparr>cs_h2 = p, cs_respErr = None, cs_respHeader = [], cs_respStatus = 0, cs_done = False\<rparr>)]"
    using nk by (simp add: w1 alist_update_absent)
  show cst: "c_streams (lk_conn w1) = c_streams ?c @ [(sid, p)]" using ad(2) ni(1) by (simp add: w1)
  show nx: "c_nextStreamID (lk_conn w1) = sid" using ni(1) by (simp add: w1 Conn_AddStream_def)
  show "c_nextStreamID ?c < sid" "unat sid \<le> unat (c_nextStreamID ?c) + 2" using ni by (simp_all add: w1)
  show "m_stream (lk_mem w1) p = fresh_stream sid (c_self ?c) iw (m_nextCtx (lk_mem w))" using ac(4) ni(1) by (simp add: w1)
  show "outgoing L (lk_conn w1) = outgoing L ?c" "enc_after (lk_conn w1) = enc_after ?c"
    "c_writeErr (lk_conn w1) = c_writeErr ?c" "p \<notin> snd ` set (c_streams ?c)"
    using ni(1) ac(1) by (simp_all add: w1 Conn_AddStream_def outgoing_def enc_after_def)
  have "cm_ok (lk_conn w1, lk_mem w1)" using ad(1) by (simp add: w1)
  then show "worker_ok w1" using assms(1) ni(2,3) st cst nx unfolding worker_ok_def regs_ok_def by (auto simp: w1)
qed

text \<open>Sending a frame, and giving a stream up.\<close>

lemma regs_ok_conn:
  "regs_ok w \<Longrightarrow> cm_ok (c, lk_mem w) \<Longrightarrow> c_streams c = c_streams (lk_conn w) \<Longrightarrow> regs_ok (w\<lparr>lk_conn := c\<rparr>)"
  by (simp add: regs_ok_def)

lemma worker_ok_conn:
  assumes "worker_ok w" "cm_ok (c, lk_mem w)" "c_streams c = c_streams (lk_conn w)" "c_nextStreamID c = c_nextStreamID (lk_conn w)"
  shows "worker_ok (w\<lparr>lk_conn := c\<rparr>)"
  using assms by (simp add: worker_ok_def regs_ok_def)

lemma submit_worker:
  assumes "cm_ok (lk_conn w, lk_mem w)" "submit L i (lk_conn w) = (r, c)"
  shows "cm_ok (c, lk_mem w)" "c_streams c = c_streams (lk_conn w)" "c_nextStreamID c = c_nextStreamID (lk_conn w)"
proof -
  have "cache_ok ToLower (c_lowerNames (lk_conn w))" using assms(1) by (simp add: cm_ok_def conn_ok_def)
  from this assms(2) have "c_streams c = c_streams (lk_conn w) \<and> c_nextStreamID c = c_nextStreamID (lk_conn w)"
    by (cases rule: submit_cases) (auto dest: unowned_fields)
  then show "c_streams c = c_streams (lk_conn w)" "c_nextStreamID c = c_nextStreamID (lk_conn w)" by auto
  show "cm_ok (c, lk_mem w)" by (rule submit_link(1) [OF assms])
qed

definition give_up :: "nat \<Rightarrow> uint32 \<Rightarrow> Worker \<Rightarrow> Worker" where
  "give_up now sid w =
     (case getStream sid w of
        None \<Rightarrow> w
      | Some cs \<Rightarrow> (deregisterStream sid w)\<lparr>lk_conn := RemoveStream now sid (lk_conn w), lk_mem := Release (cs_h2 cs) (lk_mem w)\<rparr>)"

lemma give_up_regs:
  assumes "regs_ok w"
  shows "regs_ok (give_up now sid w)"
proof (cases "getStream sid w")
  case (Some cs)
  have cm: "cm_ok (lk_conn w, lk_mem w)" using assms by (simp add: regs_ok_def)
  have "GetStream sid (lk_conn w) = Some (cs_h2 cs)" using registries_agree(3) [OF assms, of sid] Some by simp
  from finish_cm_ok [OF cm this, of now]
  have "cm_ok (RemoveStream now sid (lk_conn w), Release (cs_h2 cs) (lk_mem w))" .
  moreover have "c_streams (RemoveStream now sid (lk_conn w)) = AList.delete sid (c_streams (lk_conn w))"
    "c_nextStreamID (RemoveStream now sid (lk_conn w)) = c_nextStreamID (lk_conn w)"
    by (simp_all add: RemoveStream_def finishDrain_def Let_def)
  moreover have "map (\<lambda>(sid, cs). (sid, cs_h2 cs)) (AList.delete sid xs) = AList.delete sid (map (\<lambda>(sid, cs). (sid, cs_h2 cs)) xs)" for xs :: "(uint32 \<times> clientStream) list"
    by (simp add: alist_delete_filter filter_map comp_def case_prod_unfold)
  then have "map (\<lambda>(sid, cs). (sid, cs_h2 cs)) (AList.delete sid (wk_streams w)) = AList.delete sid (c_streams (lk_conn w))"
    using assms by (simp add: regs_ok_def)
  ultimately show ?thesis using assms Some
    by (auto simp: give_up_def deregisterStream_def regs_ok_def)
qed (use assms in \<open>simp add: give_up_def\<close>)

lemma give_up_ok:
  assumes "worker_ok w"
  shows "worker_ok (give_up now sid w)"
proof -
  have "\<forall>x \<in> set (AList.delete sid (wk_streams w)). x \<in> set (wk_streams w)" by (simp add: alist_delete_filter)
  moreover have "c_nextStreamID (RemoveStream now sid (lk_conn w)) = c_nextStreamID (lk_conn w)"
    by (simp add: RemoveStream_def finishDrain_def Let_def)
  ultimately show ?thesis
    using assms give_up_regs [of w now sid] unfolding worker_ok_def
    by (auto simp: give_up_def deregisterStream_def split: option.splits)
qed

lemma writer_loop_prefix:
  assumes "cache_ok ToLower (c_lowerNames c)" "writer_loop L is c = (r, c')"
  shows "prefix (c_wire c') (c_wire c @ frames_of L (c_enc c) is)"
proof -
  from writer_loop_spec [OF assms] obtain k where
    "c_wire c' = c_wire c @ frames_of L (c_enc c) (take k is)" by blast
  moreover have "frames_of L (c_enc c) is = frames_of L (c_enc c) (take k is) @
      frames_of L (c_enc c @ concat (map intent_ops (take k is))) (drop k is)"
    by (metis append_take_drop_id frames_of_append)
  ultimately show ?thesis by (metis append_assoc prefixI)
qed

lemma runWriter_prefix:
  assumes "cache_ok ToLower (c_lowerNames c)"
  shows "prefix (outgoing L (runWriter L c)) (outgoing L c)"
proof (cases "c_writeErr c")
  case None
  obtain r c' where w: "writer_loop L (c_writeQ c) c = (r, c')" by (metis prod.exhaust)
  show ?thesis using writer_loop_prefix [OF assms w] None w
    by (cases r) (simp_all add: runWriter_def outgoing_def)
qed (simp add: runWriter_def)

lemma submit_prefix:
  assumes "cache_ok ToLower (c_lowerNames c)" "submit L i c = (r, c')"
  shows "prefix (outgoing L c') (outgoing L c @ intent_frames L (enc_after c) i)"
proof (cases "c_writeErr c")
  case None
  let ?c = "c\<lparr>c_writeQ := c_writeQ c @ [i]\<rparr>"
  have "c' = runWriter L ?c" using assms(2) None by (auto simp: submit_def Let_def)
  moreover have "outgoing L ?c = outgoing L c @ intent_frames L (enc_after c) i"
    by (simp add: outgoing_def enc_after_def frames_of_append)
  ultimately show ?thesis using runWriter_prefix [of ?c L] assms(1) by simp
next
  case (Some e)
  then show ?thesis using assms(2) by (auto simp: submit_def)
qed

section \<open>Opening a stream\<close>

lemma delete_snoc: "k \<notin> fst ` set xs \<Longrightarrow> AList.delete k (xs @ [(k, v)]) = xs"
  by (induction xs) auto

lemma openStream_spec:
  assumes "worker_ok w" "unat (c_nextStreamID (lk_conn w)) < 2 ^ 32 - 2"
    "openStream k now iw (\<lambda>sid. submit L (i sid)) w = (res, w')"
  shows "worker_ok w'"
    "\<not> admitted w \<Longrightarrow> w' = w \<and> res = Inl (if Worker_Draining w then ErrTunnelDraining else ErrTunnelSaturated)"
    "admitted w \<Longrightarrow> res = Inl e \<Longrightarrow> wk_streams w' = wk_streams w \<and> c_streams (lk_conn w') = c_streams (lk_conn w) \<and> c_writeErr (lk_conn w') = Some e"
    "res = Inr sid \<Longrightarrow> admitted w \<and> c_nextStreamID (lk_conn w) < sid \<and> c_nextStreamID (lk_conn w') = sid \<and>
       (\<exists>p. wk_streams w' = wk_streams w @ [(sid, \<lparr>cs_h2 = p, cs_respErr = None, cs_respHeader = [], cs_respStatus = 0, cs_done = False\<rparr>)] \<and>
          m_stream (lk_mem w') p = fresh_stream sid (c_self (lk_conn w)) iw (m_nextCtx (lk_mem w)) \<and> p \<notin> snd ` set (c_streams (lk_conn w))) \<and>
       outgoing L (lk_conn w') = outgoing L (lk_conn w) @ intent_frames L (enc_after (lk_conn w)) (i sid)"
    "admitted w \<Longrightarrow> \<exists>n. c_nextStreamID (lk_conn w) < n \<and> c_nextStreamID (lk_conn w') = n \<and>
       unat n \<le> unat (c_nextStreamID (lk_conn w)) + 2 \<and>
       prefix (outgoing L (lk_conn w')) (outgoing L (lk_conn w) @ intent_frames L (enc_after (lk_conn w)) (i n))"
proof -
  show na: "\<not> admitted w \<Longrightarrow> w' = w \<and> res = Inl (if Worker_Draining w then ErrTunnelDraining else ErrTunnelSaturated)"
    using assms(3) by (auto simp: openStream_eq admitted_def split: if_splits)
  obtain n p w1 where o: "open_attempt k iw w = (n, p, w1)" by (metis prod.exhaust)
  note op = open_attempt_ok [OF assms(1) o assms(2)]
  obtain r c3 where s: "submit L (i n) (lk_conn w1) = (r, c3)" by (metis prod.exhaust)
  have cm1: "cm_ok (lk_conn w1, lk_mem w1)" using op(1) by (simp add: worker_ok_def regs_ok_def)
  note sw = worker_ok_conn [OF op(1) submit_worker [OF cm1 s]] submit_worker(2,3) [OF cm1 s]
  have k1: "cache_ok ToLower (c_lowerNames (lk_conn w1))" using cm1 by (simp add: cm_ok_def conn_ok_def)
  have nk: "n \<notin> fst ` set (wk_streams w)" using op(5) by (simp add: getStream_def map_of_eq_None_iff)
  let ?wf = "w1\<lparr>wk_streams := AList.delete n (wk_streams w1), lk_conn := RemoveStream now n c3, lk_mem := Release p (lk_mem w1)\<rparr>"
  have "getStream n (w1\<lparr>lk_conn := c3\<rparr>) = Some \<lparr>cs_h2 = p, cs_respErr = None, cs_respHeader = [], cs_respStatus = 0, cs_done = False\<rparr>"
    using op(5,6) by (simp add: getStream_def map_add_def)
  then have f: "?wf = give_up now n (w1\<lparr>lk_conn := c3\<rparr>)" by (simp add: give_up_def deregisterStream_def)
  have a: "admitted w \<Longrightarrow> (res, w') = (case r of Some e \<Rightarrow> (Inl e, ?wf) | None \<Rightarrow> (Inr n, w1\<lparr>lk_conn := c3\<rparr>))"
    using assms(3) o s by (auto simp: openStream_eq admitted_def split: option.splits)
  show "worker_ok w'"
  proof (cases "admitted w")
    case True
    have "worker_ok ?wf" unfolding f by (rule give_up_ok [OF sw(1)])
    then show ?thesis using a [OF True] sw(1) by (cases r) auto
  next
    case False
    then show ?thesis using na assms(1) by simp
  qed
  have fs: "wk_streams ?wf = wk_streams w" "c_streams (lk_conn ?wf) = c_streams (lk_conn w)"
    "c_writeErr (lk_conn ?wf) = c_writeErr c3"
    using op(6,7) nk sw(2) registries_agree(1) [of w] assms(1) [unfolded worker_ok_def]
    by (simp_all add: delete_snoc RemoveStream_def finishDrain_def Let_def) (metis delete_snoc list.set_map)
  have "c_writeErr c3 = r" by (rule submit_link(3) [OF cm1 s])
  then show "admitted w \<Longrightarrow> res = Inl e \<Longrightarrow> wk_streams w' = wk_streams w \<and> c_streams (lk_conn w') = c_streams (lk_conn w) \<and> c_writeErr (lk_conn w') = Some e"
    using a fs by (cases r) auto
  have "outgoing L (RemoveStream now n c3) = outgoing L c3" "c_nextStreamID (RemoveStream now n c3) = c_nextStreamID c3"
    by (simp_all add: outgoing_def RemoveStream_def finishDrain_def Let_def)
  then have "prefix (outgoing L (lk_conn w')) (outgoing L (lk_conn w) @ intent_frames L (enc_after (lk_conn w)) (i n)) \<and>
      c_nextStreamID (lk_conn w') = n" if "admitted w"
    using submit_prefix [OF k1 s] a [OF that] op(3,9,10) sw(3) by (cases r) simp_all
  then show "admitted w \<Longrightarrow> \<exists>n. c_nextStreamID (lk_conn w) < n \<and> c_nextStreamID (lk_conn w') = n \<and>
       unat n \<le> unat (c_nextStreamID (lk_conn w)) + 2 \<and>
       prefix (outgoing L (lk_conn w')) (outgoing L (lk_conn w) @ intent_frames L (enc_after (lk_conn w)) (i n))"
    using op(2,4) by blast
  assume r: "res = Inr sid"
  then have ad: "admitted w" using na by auto
  then have e: "r = None" "sid = n" "w' = w1\<lparr>lk_conn := c3\<rparr>" using a r by (cases r; simp)+
  have "outgoing L c3 = outgoing L (lk_conn w1) @ intent_frames L (enc_after (lk_conn w1)) (i n)"
    using submit_outgoing(1) [OF k1] s e(1) by simp
  then show "admitted w \<and> c_nextStreamID (lk_conn w) < sid \<and> c_nextStreamID (lk_conn w') = sid \<and>
       (\<exists>p. wk_streams w' = wk_streams w @ [(sid, \<lparr>cs_h2 = p, cs_respErr = None, cs_respHeader = [], cs_respStatus = 0, cs_done = False\<rparr>)] \<and>
          m_stream (lk_mem w') p = fresh_stream sid (c_self (lk_conn w)) iw (m_nextCtx (lk_mem w)) \<and> p \<notin> snd ` set (c_streams (lk_conn w))) \<and>
       outgoing L (lk_conn w') = outgoing L (lk_conn w) @ intent_frames L (enc_after (lk_conn w)) (i sid)"
    using ad op e sw(3) by auto
qed

section \<open>Identifiers on the wire\<close>

text \<open>The stream identifiers of the HEADERS frames among frames.\<close>

fun hdr_ids :: "oframe list \<Rightarrow> uint32 list" where
  "hdr_ids [] = []"
| "hdr_ids (OHeaders sid block es eh # fs) = sid # hdr_ids fs"
| "hdr_ids (f # fs) = hdr_ids fs"

text \<open>What the goroutines of the proxy do to a tunnel: a forwarder opens a stream or gives it up, anyone
  queues a frame that is not HEADERS, and the writer runs.\<close>

datatype tunnel_op =
    TOpen nat nat int32 string string string string header bool
  | TControl writeIntent
  | TSend writeIntent
  | TWriter
  | TGiveUp nat uint32

definition not_headers :: "writeIntent \<Rightarrow> bool" where
  "not_headers i \<longleftrightarrow> wi_kind i \<noteq> wkReqHeaders \<and> wi_kind i \<noteq> wkRespHeaders"

fun tunnel_step :: "H2Lib \<Rightarrow> tunnel_op \<Rightarrow> Worker \<Rightarrow> Worker" where
  "tunnel_step L (TOpen k now iw meth schm authority path h es) w =
     snd (openStream k now iw (\<lambda>sid. SendRequestHeaders L sid meth schm authority path h es) w)"
| "tunnel_step L (TControl i) w = (if not_headers i then on_conn (submitAsync i) w else w)"
| "tunnel_step L (TSend i) w = (if not_headers i then on_conn (\<lambda>c. snd (submit L i c)) w else w)"
| "tunnel_step L TWriter w = on_conn (runWriter L) w"
| "tunnel_step L (TGiveUp now sid) w = give_up now sid w"

lemma hdr_ids_append [simp]: "hdr_ids (fs @ gs) = hdr_ids fs @ hdr_ids gs"
  by (induction fs rule: hdr_ids.induct) simp_all

lemma hdr_ids_prefix: "prefix fs gs \<Longrightarrow> prefix (hdr_ids fs) (hdr_ids gs)"
  by (auto simp: prefix_def)

lemma hdr_ids_not_headers: "not_headers i \<Longrightarrow> hdr_ids (intent_frames L hist i) = []"
  by (cases "wi_kind i") (simp_all add: not_headers_def intent_frames_def)

text \<open>Identifiers strictly ascend and none is ahead of the counter.\<close>

definition ids_ok :: "H2Lib \<Rightarrow> Conn \<Rightarrow> bool" where
  "ids_ok L c \<longleftrightarrow> sorted_wrt (<) (hdr_ids (outgoing L c)) \<and>
     (\<forall>sid \<in> set (hdr_ids (outgoing L c)). sid \<le> c_nextStreamID c)"

lemma ids_ok_prefix:
  assumes "ids_ok L c" "prefix (hdr_ids (outgoing L c')) (hdr_ids (outgoing L c))" "c_nextStreamID c \<le> c_nextStreamID c'"
  shows "ids_ok L c'"
proof -
  obtain zs where "hdr_ids (outgoing L c) = hdr_ids (outgoing L c') @ zs" using assms(2) by (auto simp: prefix_def)
  then show ?thesis using assms(1,3) unfolding ids_ok_def
    by (auto simp: sorted_wrt_append intro: order_trans)
qed

lemma tunnel_step_ok:
  assumes "worker_ok w" "ids_ok L (lk_conn w)" "unat (c_nextStreamID (lk_conn w)) < 2 ^ 32 - 2"
  shows "worker_ok (tunnel_step L e w) \<and> ids_ok L (lk_conn (tunnel_step L e w)) \<and>
    unat (c_nextStreamID (lk_conn (tunnel_step L e w))) \<le> unat (c_nextStreamID (lk_conn w)) + 2"
proof -
  let ?c = "lk_conn w"
  have cm: "cm_ok (?c, lk_mem w)" using assms(1) by (simp add: worker_ok_def regs_ok_def)
  have k: "cache_ok ToLower (c_lowerNames ?c)" using cm by (simp add: cm_ok_def conn_ok_def)
  have conn: ?thesis if "tunnel_step L e w = on_conn f w" "cm_ok (f ?c, lk_mem w)" "c_streams (f ?c) = c_streams ?c"
    "c_nextStreamID (f ?c) = c_nextStreamID ?c" "prefix (hdr_ids (outgoing L (f ?c))) (hdr_ids (outgoing L ?c))" for f
    using that worker_ok_conn [OF assms(1) that(2-4)] ids_ok_prefix [OF assms(2) that(5)] by (simp add: on_conn_def)
  show ?thesis
  proof (cases e)
    case (TOpen k now iw meth schm authority path h es)
    let ?i = "\<lambda>sid. zeroIntent\<lparr>wi_kind := wkReqHeaders, wi_streamID := sid, wi_method := meth,
       wi_scheme := schm, wi_authority := authority, wi_path := path, wi_header := h, wi_endStream := es\<rparr>"
    obtain res w' where o: "openStream k now iw (\<lambda>sid. submit L (?i sid)) w = (res, w')" by (metis prod.exhaust)
    have "(\<lambda>sid. SendRequestHeaders L sid meth schm authority path h es) = (\<lambda>sid. submit L (?i sid))"
      by (intro ext) (simp add: SendRequestHeaders_def)
    then have w': "tunnel_step L e w = w'" using o by (simp add: TOpen)
    note sp = openStream_spec [OF assms(1,3) o]
    show ?thesis
    proof (cases "admitted w")
      case True
      from sp(5) [OF True] obtain n where n: "c_nextStreamID ?c < n" "c_nextStreamID (lk_conn w') = n"
        "unat n \<le> unat (c_nextStreamID ?c) + 2"
        "prefix (outgoing L (lk_conn w')) (outgoing L ?c @ intent_frames L (enc_after ?c) (?i n))" by blast
      then have "prefix (hdr_ids (outgoing L (lk_conn w'))) (hdr_ids (outgoing L ?c) @ [n])"
        using hdr_ids_prefix [OF n(4)] by (simp add: intent_frames_def)
      then obtain zs where "hdr_ids (outgoing L ?c) @ [n] = hdr_ids (outgoing L (lk_conn w')) @ zs" by (auto simp: prefix_def)
      moreover have "sorted_wrt (<) (hdr_ids (outgoing L ?c) @ [n])" "\<forall>x \<in> set (hdr_ids (outgoing L ?c) @ [n]). x \<le> n"
        using assms(2) n(1) unfolding ids_ok_def by (auto simp: sorted_wrt_append)
      ultimately have "ids_ok L (lk_conn w')" using n(2) by (auto simp: ids_ok_def sorted_wrt_append)
      then show ?thesis using w' sp(1) n by simp
    next
      case False
      then show ?thesis using w' sp(2) assms by simp
    qed
  next
    case (TControl i)
    then show ?thesis
      using conn [of "submitAsync i"] submitAsync_cm_ok [OF cm, of i] submitAsync_outgoing(1) [of ?c L i] assms
      by (cases "not_headers i"; cases "c_writeErr ?c") (simp_all add: conn_frame hdr_ids_not_headers submitAsync_def)
  next
    case (TSend i)
    obtain r c' where s: "submit L i ?c = (r, c')" by (metis prod.exhaust)
    have "not_headers i \<Longrightarrow> prefix (hdr_ids (outgoing L c')) (hdr_ids (outgoing L ?c))"
      using hdr_ids_prefix [OF submit_prefix [OF k s]] by (simp add: hdr_ids_not_headers)
    then show ?thesis using TSend conn [of "\<lambda>c. snd (submit L i c)"] submit_worker [OF cm s] assms s
      by (cases "not_headers i") simp_all
  next
    case TWriter
    note w = runWriter_spec [OF k, of L]
    show ?thesis using TWriter conn [of "runWriter L"] unowned_cm_ok [OF cm w] unowned_fields [OF w(1)]
        hdr_ids_prefix [OF runWriter_prefix [OF k]] by simp
  next
    case (TGiveUp now sid)
    have "outgoing L (lk_conn (give_up now sid w)) = outgoing L ?c" "c_nextStreamID (lk_conn (give_up now sid w)) = c_nextStreamID ?c"
      by (simp_all add: give_up_def deregisterStream_def RemoveStream_def finishDrain_def outgoing_def Let_def split: option.splits)
    then show ?thesis using TGiveUp give_up_ok [OF assms(1)] assms(2) by (simp add: ids_ok_def)
  qed
qed

lemma tunnel_run_ok:
  assumes "worker_ok w" "ids_ok L (lk_conn w)" "unat (c_nextStreamID (lk_conn w)) + 2 * length es \<le> 2 ^ 32 - 2"
  shows "worker_ok (fold (tunnel_step L) es w) \<and> ids_ok L (lk_conn (fold (tunnel_step L) es w))"
  using assms
proof (induction es arbitrary: w)
  case (Cons e es)
  have "unat (c_nextStreamID (lk_conn w)) < 2 ^ 32 - 2" using Cons.prems(3) by simp
  note st = tunnel_step_ok [OF Cons.prems(1,2) this, of e]
  from Cons.IH [of "tunnel_step L e w"] st Cons.prems(3) show ?case by simp
qed simp

definition new_Worker :: Worker where
  "new_Worker = \<lparr>lk_conn = init_Conn 0 [], lk_mem = empty_mem, wk_streams = [], wk_down = False, wk_inFlight = 0\<rparr>"

lemma new_Worker_ok [simp]: "worker_ok new_Worker" "ids_ok L (lk_conn new_Worker)" "c_nextStreamID (lk_conn new_Worker) = 0"
proof -
  have "cm_ok (init_Conn 0 [], empty_mem)"
    using conn_ok_init [of 0 "[]"]
    by (simp add: cm_ok_def registry_ok_def drain_ok_def pool_ok_def empty_mem_def init_Conn_def)
  then show "worker_ok new_Worker" "ids_ok L (lk_conn new_Worker)" "c_nextStreamID (lk_conn new_Worker) = 0"
    by (simp_all add: worker_ok_def regs_ok_def new_Worker_def ids_ok_def outgoing_def init_Conn_def)
qed

section \<open>Properties\<close>



text \<open>
  C28. \<open>openStream\<close> admits a stream exactly when it may. A tunnel that drains or has as many streams as its peer
  allows is refused with the error that says which, and nothing changes. Otherwise the stream is opened, or the write
  failed and both registries are as before. An opened stream has an identifier above all earlier ones, its own
  stream object, no outcome yet, and the count of open streams is still within the peer's limit.
\<close>

theorem openStream_admits:
  assumes "worker_ok w" "unat (c_nextStreamID (lk_conn w)) < 2 ^ 32 - 2" "length (wk_streams w) < 2 ^ 32"
    "openStream k now iw (\<lambda>sid. submit L (i sid)) w = (res, w')"
  shows "case res of
      Inr sid \<Rightarrow> \<not> Worker_Draining w \<and> c_nextStreamID (lk_conn w) < sid \<and> getStream sid w = None \<and>
        (\<exists>p. wk_streams w' = wk_streams w @ [(sid, \<lparr>cs_h2 = p, cs_respErr = None, cs_respHeader = [], cs_respStatus = 0, cs_done = False\<rparr>)] \<and>
          p \<notin> snd ` set (c_streams (lk_conn w)) \<and> GetStream sid (lk_conn w') = Some p \<and> st_SendWindow (m_stream (lk_mem w') p) = iw) \<and>
        length (wk_streams w') \<le> unat (PeerMaxStreams (lk_conn w))
    | Inl e \<Rightarrow> wk_streams w' = wk_streams w \<and> c_streams (lk_conn w') = c_streams (lk_conn w) \<and>
        (if Worker_Draining w then e = ErrTunnelDraining \<and> w' = w
         else if saturated w then e = ErrTunnelSaturated \<and> w' = w
         else WriteErr (lk_conn w') = Some e)"
proof (cases res)
  case (Inl e)
  note sp = openStream_spec [OF assms(1,2,4)]
  have "admitted w \<longleftrightarrow> \<not> Worker_Draining w \<and> \<not> saturated w" by (simp add: admitted_def saturated_def not_le)
  then show ?thesis using sp(2) sp(3) [OF _ Inl] Inl by (cases "admitted w") (auto simp: WriteErr_def)
next
  case (Inr sid)
  note sp = openStream_spec [OF assms(1,2,4)]
  obtain p where p: "wk_streams w' = wk_streams w @ [(sid, \<lparr>cs_h2 = p, cs_respErr = None, cs_respHeader = [], cs_respStatus = 0, cs_done = False\<rparr>)]"
    "m_stream (lk_mem w') p = fresh_stream sid (c_self (lk_conn w)) iw (m_nextCtx (lk_mem w))" "p \<notin> snd ` set (c_streams (lk_conn w))"
    and a: "admitted w" "c_nextStreamID (lk_conn w) < sid" using sp(4) [OF Inr] by blast
  have "\<forall>i \<in> fst ` set (wk_streams w). i < sid" using assms(1) a(2) by (auto simp: worker_ok_def)
  then have n: "getStream sid w = None" by (auto simp: getStream_def map_of_eq_None_iff)
  then have "GetStream sid (lk_conn w') = Some p"
    using registries_agree(3) [of w' sid] sp(1) p(1) by (simp add: worker_ok_def getStream_def map_add_def)
  moreover have "unat (of_nat (length (wk_streams w)) :: uint32) = length (wk_streams w)"
    using assms(3) by (simp add: unat_of_nat)
  then have "Suc (length (wk_streams w)) \<le> unat (PeerMaxStreams (lk_conn w))"
    using a(1) by (simp add: admitted_def word_less_nat_alt)
  ultimately show ?thesis using Inr a n p by (auto simp: admitted_def fresh_stream_def)
qed

theorem openStream_admits_witness:
  "wk_streams (snd (openStream 0 0 65535 (\<lambda>sid. submit literal_lib zeroIntent)
     (new_Worker\<lparr>lk_conn := (init_Conn 0 [])\<lparr>c_peerMaxStreams := 0\<rparr>\<rparr>))) = []"
proof -
  let ?w = "new_Worker\<lparr>lk_conn := (init_Conn 0 [])\<lparr>c_peerMaxStreams := 0\<rparr>\<rparr>"
  obtain res w' where o: "openStream 0 0 65535 (\<lambda>sid. submit literal_lib zeroIntent) ?w = (res, w')" by (metis prod.exhaust)
  have "worker_ok ?w" using new_Worker_ok(1)
    by (auto simp: worker_ok_def regs_ok_def new_Worker_def cm_ok_def conn_ok_def registry_ok_def drain_ok_def)
  moreover have "unat (c_nextStreamID (lk_conn ?w)) < 2 ^ 32 - 2" "length (wk_streams ?w) < 2 ^ 32" "saturated ?w"
    by (simp_all add: init_Conn_def new_Worker_def saturated_def PeerMaxStreams_def)
  ultimately show ?thesis using openStream_admits [of ?w 0 0 65535 literal_lib "\<lambda>_. zeroIntent" res w'] o
    by (cases res) (auto simp: new_Worker_def openStream_def Draining_def init_Conn_def PeerMaxStreams_def)
qed

end
