(* ===== verification/P_Select.thy ===== *)
theory P_Select
  imports P_Worker
begin

text \<open>
  How the proxy picks a worker (\<open>internal/proxy/selector.go\<close>). A worker is a pointer; \<open>wks\<close> gives the worker it points
  to. A selector may keep state of its own, as the round-robin counter is.
\<close>

section \<open>Definitions\<close>

text \<open>One pass over the workers that keeps the least loaded one it has not skipped.\<close>

fun pick_loop :: "(Worker \<Rightarrow> bool) \<Rightarrow> (ptr \<Rightarrow> Worker) \<Rightarrow> ptr list \<Rightarrow> ptr option \<Rightarrow> int \<Rightarrow> ptr option \<times> int" where
  "pick_loop skip wks [] best bestN = (best, bestN)"
| "pick_loop skip wks (w # ws) best bestN =
     (if skip (wks w) then pick_loop skip wks ws best bestN
      else
        let n = InFlight (wks w) in
        if best = None \<or> n < bestN then pick_loop skip wks ws (Some w) n
        else pick_loop skip wks ws best bestN)"

definition leastInFlightPick :: "(ptr \<Rightarrow> Worker) \<Rightarrow> ptr list \<Rightarrow> ptr option" where
  "leastInFlightPick wks ws =
     (if length ws = 0 then None
      else case pick_loop saturated wks ws None (- 1) of
             (Some best, _) \<Rightarrow> Some best
           | (None, bestN) \<Rightarrow> fst (pick_loop (\<lambda>_. False) wks ws None bestN))"

definition LeastInFlight :: "unit \<Rightarrow> (ptr \<Rightarrow> Worker) \<Rightarrow> ptr list \<Rightarrow> ptr option \<times> unit" where
  "LeastInFlight q wks ws = (leastInFlightPick wks ws, q)"

text \<open>The length of a slice is below 2^63, so \<open>i % uint64(len(workers))\<close> is a remainder of natural numbers.\<close>

definition RoundRobin :: "uint64 \<Rightarrow> (ptr \<Rightarrow> Worker) \<Rightarrow> ptr list \<Rightarrow> ptr option \<times> uint64" where
  "RoundRobin seq wks ws =
     (if length ws = 0 then (None, seq)
      else let seq' = seq + 1; i = seq' - 1
           in (Some (ws ! (unat i mod length ws)), seq'))"

text \<open>A run of picks from the same workers.\<close>

fun rr_picks :: "nat \<Rightarrow> uint64 \<Rightarrow> (ptr \<Rightarrow> Worker) \<Rightarrow> ptr list \<Rightarrow> ptr option list" where
  "rr_picks 0 seq wks ws = []"
| "rr_picks (Suc n) seq wks ws = (let (r, seq') = RoundRobin seq wks ws in r # rr_picks n seq' wks ws)"

section \<open>The contract of a selector\<close>

locale selector =
  fixes pick :: "'q \<Rightarrow> (ptr \<Rightarrow> Worker) \<Rightarrow> ptr list \<Rightarrow> ptr option \<times> 'q"
  assumes pick_member: "pick q wks ws = (Some w, q') \<Longrightarrow> w \<in> set ws"
    and pick_some: "ws \<noteq> [] \<Longrightarrow> fst (pick q wks ws) \<noteq> None"
begin

lemma pick_None_iff: "fst (pick q wks ws) = None \<longleftrightarrow> ws = []"
proof
  assume "fst (pick q wks ws) = None"
  then show "ws = []" using pick_some by blast
next
  assume "ws = []"
  then show "fst (pick q wks ws) = None"
    using pick_member [of q wks ws _ "snd (pick q wks ws)"] by (metis empty_iff list.set(1) option.exhaust_sel prod.collapse)
qed

text \<open>A choice among the workers that satisfy \<open>P\<close> is one of them, and there is none only if there is no such worker.\<close>

lemma pick_filtered:
  "case fst (pick q wks (filter P ws)) of
     Some w \<Rightarrow> w \<in> set ws \<and> P w
   | None \<Rightarrow> (\<forall>w \<in> set ws. \<not> P w)"
proof (cases "fst (pick q wks (filter P ws))")
  case None
  then show ?thesis using pick_None_iff [of q wks "filter P ws"] by (simp add: filter_empty_conv)
next
  case (Some w)
  then have "pick q wks (filter P ws) = (Some w, snd (pick q wks (filter P ws)))" by (metis prod.collapse)
  from pick_member [OF this] Some show ?thesis by simp
qed

end

section \<open>Least in flight\<close>

text \<open>The pass keeps the first minimum of what it has seen.\<close>

definition first_least :: "(Worker \<Rightarrow> bool) \<Rightarrow> (ptr \<Rightarrow> Worker) \<Rightarrow> ptr list \<Rightarrow> ptr \<Rightarrow> bool" where
  "first_least skip wks ws w \<longleftrightarrow> (\<exists>i < length ws. ws ! i = w \<and> \<not> skip (wks w) \<and>
     (\<forall>j < length ws. \<not> skip (wks (ws ! j)) \<longrightarrow>
        InFlight (wks w) \<le> InFlight (wks (ws ! j)) \<and> (j < i \<longrightarrow> InFlight (wks w) < InFlight (wks (ws ! j)))))"

lemma pick_loop_spec:
  "pick_loop skip wks ws best bestN = (r, n) \<Longrightarrow>
   (\<forall>b. best = Some b \<longrightarrow> bestN = InFlight (wks b)) \<Longrightarrow>
   (r = None \<longleftrightarrow> best = None \<and> (\<forall>w \<in> set ws. skip (wks w))) \<and>
   (\<forall>w. r = Some w \<longrightarrow> n = InFlight (wks w) \<and>
      ((best = Some w \<and> (\<forall>u \<in> set ws. \<not> skip (wks u) \<longrightarrow> InFlight (wks w) \<le> InFlight (wks u))) \<or>
       ((\<forall>b. best = Some b \<longrightarrow> InFlight (wks w) < InFlight (wks b)) \<and> first_least skip wks ws w)))"
proof (induction ws arbitrary: best bestN)
  case (Cons x ws)
  have up: "first_least skip wks (x # ws) w"
    if "first_least skip wks ws w" "\<not> skip (wks x) \<longrightarrow> InFlight (wks w) < InFlight (wks x)" for w
  proof -
    from that(1) obtain i where i: "i < length ws" "ws ! i = w" "\<not> skip (wks w)"
      "\<forall>j < length ws. \<not> skip (wks (ws ! j)) \<longrightarrow>
        InFlight (wks w) \<le> InFlight (wks (ws ! j)) \<and> (j < i \<longrightarrow> InFlight (wks w) < InFlight (wks (ws ! j)))"
      unfolding first_least_def by blast
    then show ?thesis using that(2) unfolding first_least_def
      by (intro exI [of _ "Suc i"]) (auto simp: nth_Cons less_Suc_eq_0_disj split: nat.splits)
  qed
  have here: "first_least skip wks (x # ws) x"
    if "\<not> skip (wks x)" "\<forall>u \<in> set ws. \<not> skip (wks u) \<longrightarrow> InFlight (wks x) \<le> InFlight (wks u)"
    using that unfolding first_least_def by (intro exI [of _ 0]) (auto simp: nth_Cons split: nat.splits)
  consider "skip (wks x)" | "\<not> skip (wks x)" "best = None \<or> InFlight (wks x) < bestN"
    | b where "\<not> skip (wks x)" "best = Some b" "bestN \<le> InFlight (wks x)" by force
  then show ?case
  proof cases
    case 1
    then have p: "pick_loop skip wks ws best bestN = (r, n)" using Cons.prems(1) by simp
    show ?thesis using Cons.IH [OF p Cons.prems(2)] 1 up by auto
  next
    case 2
    then have p: "pick_loop skip wks ws (Some x) (InFlight (wks x)) = (r, n)" using Cons.prems(1) by (simp add: Let_def)
    from Cons.IH [OF p] have i: "r \<noteq> None"
      "\<And>w. r = Some w \<Longrightarrow> n = InFlight (wks w) \<and> ((w = x \<and> (\<forall>u \<in> set ws. \<not> skip (wks u) \<longrightarrow> InFlight (wks w) \<le> InFlight (wks u)))
        \<or> (InFlight (wks w) < InFlight (wks x) \<and> first_least skip wks ws w))" by auto
    have b: "best = Some b \<Longrightarrow> InFlight (wks x) < InFlight (wks b)" for b using 2(2) Cons.prems(2) by auto
    show ?thesis using i 2(1) up here b by (auto dest: less_trans)
  next
    case 3
    then have p: "pick_loop skip wks ws best bestN = (r, n)" using Cons.prems(1) by (simp add: Let_def)
    have bN: "bestN = InFlight (wks b)" using Cons.prems(2) 3(2) by simp
    show ?thesis using Cons.IH [OF p Cons.prems(2)] 3 bN up by (auto dest: less_le_trans)
  qed
qed simp

lemma leastInFlightPick_spec:
  assumes "ws \<noteq> []"
  obtains w where "leastInFlightPick wks ws = Some w"
    "first_least (if \<exists>u \<in> set ws. \<not> saturated (wks u) then saturated else (\<lambda>_. False)) wks ws w"
proof -
  obtain r n where p: "pick_loop saturated wks ws None (- 1) = (r, n)" by (metis prod.exhaust)
  obtain r' n' where p': "pick_loop (\<lambda>_. False) wks ws None n = (r', n')" by (metis prod.exhaust)
  note s = pick_loop_spec [OF p] and s' = pick_loop_spec [OF p']
  show thesis
  proof (cases r)
    case (Some w)
    then show thesis using s p assms by (intro that [of w]) (auto simp: leastInFlightPick_def)
  next
    case None
    then have "\<forall>u \<in> set ws. saturated (wks u)" using s by simp
    moreover obtain w where "r' = Some w" using s' assms by (cases r') auto
    ultimately show thesis using None s' p p' assms by (intro that [of w]) (auto simp: leastInFlightPick_def)
  qed
qed

interpretation least: selector LeastInFlight
proof
  fix q wks ws w q' assume "LeastInFlight q wks ws = (Some w, q')"
  then have l: "leastInFlightPick wks ws = Some w" by (simp add: LeastInFlight_def)
  then have "ws \<noteq> []" by (auto simp: leastInFlightPick_def)
  then obtain u where "leastInFlightPick wks ws = Some u"
    "first_least (if \<exists>u \<in> set ws. \<not> saturated (wks u) then saturated else (\<lambda>_. False)) wks ws u"
    by (rule leastInFlightPick_spec)
  then show "w \<in> set ws" using l by (auto simp: first_least_def)
next
  fix q wks and ws :: "ptr list" assume "ws \<noteq> []"
  then obtain u where "leastInFlightPick wks ws = Some u" by (rule leastInFlightPick_spec)
  then show "fst (LeastInFlight q wks ws) \<noteq> None" by (simp add: LeastInFlight_def)
qed

interpretation robin: selector RoundRobin
proof
  fix q wks ws w q' assume r: "RoundRobin q wks ws = (Some w, q')"
  then have l: "0 < length ws" by (cases ws) (auto simp: RoundRobin_def)
  then have "unat q mod length ws < length ws" by simp
  then show "w \<in> set ws" using r l by (auto simp: RoundRobin_def Let_def)
next
  fix q wks and ws :: "ptr list" assume "ws \<noteq> []"
  then show "fst (RoundRobin q wks ws) \<noteq> None" by (simp add: RoundRobin_def Let_def)
qed

section \<open>Round robin\<close>

lemma rr_picks_eq:
  assumes "ws \<noteq> []" "unat seq + n < 2 ^ 64"
  shows "rr_picks n seq wks ws = map (\<lambda>j. Some (ws ! ((unat seq + j) mod length ws))) [0..<n]"
  using assms(2)
proof (induction n arbitrary: seq)
  case (Suc n)
  have u: "unat (seq + 1) = Suc (unat seq)" using Suc.prems by (simp add: unat_word_ariths)
  have "rr_picks (Suc n) seq wks ws = Some (ws ! (unat seq mod length ws)) # rr_picks n (seq + 1) wks ws"
    using assms(1) by (simp add: RoundRobin_def Let_def)
  also have "rr_picks n (seq + 1) wks ws = map (\<lambda>j. Some (ws ! ((unat seq + j) mod length ws))) (map Suc [0..<n])"
    using Suc.IH [of "seq + 1"] Suc.prems u by simp
  finally show ?case by (simp add: map_Suc_upt upt_conv_Cons del: upt_Suc)
qed simp

section \<open>Properties\<close>

text \<open>
  C29. \<open>LeastInFlight\<close> is optimal and deterministic. With at least one worker it picks one: among the workers that
  still have room under their peer's stream limit, if there are any, and among all workers otherwise, it picks one
  with the fewest requests in flight, the first such in attach order.
\<close>

theorem least_in_flight_optimal:
  assumes "ws \<noteq> []"
  shows "\<exists>i < length ws. leastInFlightPick wks ws = Some (ws ! i) \<and>
    ((\<exists>u \<in> set ws. \<not> saturated (wks u)) \<longrightarrow> \<not> saturated (wks (ws ! i))) \<and>
    (\<forall>j < length ws. (\<exists>u \<in> set ws. \<not> saturated (wks u)) \<longrightarrow> \<not> saturated (wks (ws ! j)) \<longrightarrow>
       InFlight (wks (ws ! i)) \<le> InFlight (wks (ws ! j)) \<and> (j < i \<longrightarrow> InFlight (wks (ws ! i)) < InFlight (wks (ws ! j)))) \<and>
    (\<forall>j < length ws. (\<forall>u \<in> set ws. saturated (wks u)) \<longrightarrow>
       InFlight (wks (ws ! i)) \<le> InFlight (wks (ws ! j)) \<and> (j < i \<longrightarrow> InFlight (wks (ws ! i)) < InFlight (wks (ws ! j))))"
proof -
  obtain w where w: "leastInFlightPick wks ws = Some w"
    "first_least (if \<exists>u \<in> set ws. \<not> saturated (wks u) then saturated else (\<lambda>_. False)) wks ws w"
    using assms by (rule leastInFlightPick_spec)
  then show ?thesis by (cases "\<exists>u \<in> set ws. \<not> saturated (wks u)") (auto simp: first_least_def)
qed

theorem least_in_flight_optimal_witness:
  "\<exists>i < length [4, 5 :: ptr]. leastInFlightPick (\<lambda>p. new_Worker\<lparr>wk_inFlight := int p\<rparr>) [4, 5] = Some ([4, 5] ! i) \<and>
     InFlight (new_Worker\<lparr>wk_inFlight := int ([4, 5] ! i)\<rparr>) \<le> 4"
proof -
  let ?wks = "\<lambda>p :: ptr. new_Worker\<lparr>wk_inFlight := int p\<rparr>"
  have s: "\<not> saturated (?wks p)" for p
    by (simp add: saturated_def new_Worker_def PeerMaxStreams_def init_Conn_def NoStreamLimit_def)
  have "[4, 5 :: ptr] \<noteq> []" "\<exists>u \<in> set [4, 5 :: ptr]. \<not> saturated (?wks u)" "0 < length [4, 5 :: ptr]" using s by auto
  with least_in_flight_optimal [of "[4, 5]" ?wks] s obtain i where i: "i < length [4, 5 :: ptr]"
    "leastInFlightPick ?wks [4, 5] = Some ([4, 5] ! i)" "InFlight (?wks ([4, 5] ! i)) \<le> InFlight (?wks ([4, 5] ! 0))"
    by blast
  have "InFlight (?wks ([4, 5] ! 0)) = 4" by (simp add: InFlight_def)
  with i show ?thesis by metis
qed

text \<open>
  C30. \<open>RoundRobin\<close> is fair. As long as the set of workers does not change and the 64-bit counter does not wrap, any
  \<open>length ws\<close> picks in a row choose every worker exactly once, in attach order from where the last round stopped.
\<close>

theorem round_robin_fair:
  assumes "ws \<noteq> []" "unat seq + length ws < 2 ^ 64"
  shows "rr_picks (length ws) seq wks ws = map Some (rotate (unat seq) ws)"
  using rr_picks_eq [OF assms] by (intro nth_equalityI) (simp_all add: nth_rotate)

theorem round_robin_fair_witness: "rr_picks 3 4 (\<lambda>_. new_Worker) [7, 8, 9] = map Some (rotate 4 [7, 8, 9 :: ptr])"
proof -
  have e: "length [7, 8, 9 :: ptr] = 3" "unat (4 :: uint64) = 4" by simp_all
  have "rr_picks (length [7, 8, 9 :: ptr]) 4 (\<lambda>_. new_Worker) [7, 8, 9] = map Some (rotate (unat (4 :: uint64)) [7, 8, 9])"
    by (rule round_robin_fair) (simp, simp only: e, simp)
  then show ?thesis unfolding e .
qed

end
