(* ===== verification/P_Tunnel.thy ===== *)
theory P_Tunnel
  imports P_Worker
begin

text \<open>
  The proxy's side of a tunnel (\<open>internal/proxy/tunnel.go\<close>): the frame loop \<open>serveTunnel\<close>, its \<open>handleProxyFrame\<close>, and
  \<open>deliverResponse\<close>, which hands a response to the forwarder that waits for it.
\<close>

section \<open>Definitions\<close>

definition deliverResponse :: "DecodedHeaders \<Rightarrow> Worker \<Rightarrow> Worker" where
  "deliverResponse decoded w =
     (case getStream (dh_StreamID decoded) w of
        None \<Rightarrow> on_conn (SendRSTStream (dh_StreamID decoded) ErrCodeStreamClosed) w
      | Some cs \<Rightarrow>
          let (status, _) = Atoi (dh_Status decoded);
              w1 = deliverHeaders status (dh_Header decoded) (dh_StreamID decoded) w
          in if dh_EndStream decoded then w1\<lparr>lk_mem := mem_CloseData (cs_h2 cs) (lk_mem w1)\<rparr> else w1)"

definition take_response :: "(gerr + DecodedHeaders option) \<times> Conn \<Rightarrow> Worker \<Rightarrow> gerr option \<times> Worker" where
  "take_response res w =
     (let w1 = w\<lparr>lk_conn := snd res\<rparr> in
      case fst res of
        Inl e \<Rightarrow> (Some e, w1)
      | Inr None \<Rightarrow> (None, w1)
      | Inr (Some decoded) \<Rightarrow> (None, deliverResponse decoded w1))"

definition handleProxyFrame :: "H2Lib \<Rightarrow> nat \<Rightarrow> nat \<Rightarrow> frame \<Rightarrow> Worker \<Rightarrow> gerr option \<times> Worker" where
  "handleProxyFrame L k now f w =
     (case f of
        FSettings ack xs \<Rightarrow>
          if ack then (None, w)
          else (case ApplyPeerSettings xs (lk_conn w, lk_mem w) of
                  (Some e, c, m) \<Rightarrow> (Some e, w\<lparr>lk_conn := c, lk_mem := m\<rparr>)
                | (None, c, m) \<Rightarrow> (None, w\<lparr>lk_conn := SendSettingsAck c, lk_mem := m\<rparr>))
      | FWindowUpdate sid inc \<Rightarrow> (None, on_link (HandleWindowUpdate sid inc) w)
      | FHeaders sid frag headersEnded streamEnded \<Rightarrow>
          take_response (StartHeaders L sid frag headersEnded streamEnded (lk_conn w)) w
      | FData sid data flowLen streamEnded \<Rightarrow>
          (None, on_link (HandleInboundData k sid data flowLen streamEnded) w)
      | FPing ack data \<Rightarrow>
          if ack then (None, on_conn (HandlePingAck data) w) else (None, on_conn (SendPing True data) w)
      | FGoAway _ code \<Rightarrow>
          if code \<noteq> ErrCodeNo then (Some ErrGoaway, w) else (None, on_conn (BeginDrain now) w)
      | FRSTStream sid _ \<Rightarrow> (None, on_link (HandleRSTStream sid) (fail ErrStreamReset sid w))
      | _ \<Rightarrow> (None, w))"

definition tunnel_frame :: "H2Lib \<Rightarrow> nat \<Rightarrow> nat \<Rightarrow> frame \<Rightarrow> Worker \<Rightarrow> gerr option \<times> Worker" where
  "tunnel_frame L k now f w =
     (if InContinuation (lk_conn w) then
        (case f of
           FContinuation sid frag headersEnded \<Rightarrow>
             if sid \<noteq> ContStreamID (lk_conn w) then (Some ErrContInterleaved, w)
             else take_response (ConsumeContinuation L frag headersEnded (lk_conn w)) w
         | _ \<Rightarrow> (Some ErrContInterleaved, w))
      else handleProxyFrame L k now f w)"

text \<open>What the forwarders, their body pumps and the writer do between two frames.\<close>

datatype proxy_op = POp tunnel_op | PMem env_op

fun proxy_step :: "H2Lib \<Rightarrow> proxy_op \<Rightarrow> Worker \<Rightarrow> Worker" where
  "proxy_step L (POp t) w = tunnel_step L t w"
| "proxy_step L (PMem (EnvFinish now sid)) w = w"
| "proxy_step L (PMem e) w = on_link (env_step L e) w"

definition proxy_run :: "H2Lib \<Rightarrow> proxy_op list \<Rightarrow> Worker \<Rightarrow> Worker" where
  "proxy_run L es w = fold (proxy_step L) es w"

definition tunnel_turn :: "H2Lib \<Rightarrow> proxy_op list tick \<Rightarrow> Worker \<Rightarrow> gerr option option \<times> Worker" where
  "tunnel_turn L t w =
     (let w1 = proxy_run L (tk_before t) w in
      if tk_shut t then (Some None, w1)
      else if DrainComplete (lk_conn w1) then (Some (Some ErrGoaway), w1)
      else
        let w2 = proxy_run L (tk_during t) (on_conn (SetIdleDeadline (tk_now t)) w1) in
        case tk_read t of
          Inl err \<Rightarrow>
            if IsNetTimeout (Some err) then
              (if tk_shut_timeout t then (Some None, w2)
               else if DrainComplete (lk_conn w2) then (Some (Some ErrGoaway), w2)
               else case SendOrCheckPing (tk_later t) (lk_conn w2) of
                      (Some e, c) \<Rightarrow> (Some (Some e), w2\<lparr>lk_conn := c\<rparr>)
                    | (None, c) \<Rightarrow> (None, w2\<lparr>lk_conn := c\<rparr>))
            else (Some (Some err), w2)
        | Inr f \<Rightarrow>
            (case tunnel_frame L (tk_choice t) (tk_later t) f w2 of
               (Some e, w3) \<Rightarrow> (Some (Some e), w3)
             | (None, w3) \<Rightarrow> (None, w3)))"

definition tunnel_teardown :: "H2Lib \<Rightarrow> nat \<Rightarrow> Worker \<Rightarrow> Worker" where
  "tunnel_teardown L n w =
     (let w1 = on_conn (\<lambda>c. c\<lparr>c_Send := snd (MarkDead (c_Send c))\<rparr>) w;
          w2 = failAllStreams ErrConnClosed w1;
          w3 = w2\<lparr>lk_mem := FailAllStreams ErrConnClosed (lk_conn w2) (lk_mem w2)\<rparr>;
          w4 = on_conn (\<lambda>c. snd (SendGoAway L 0 ErrCodeNo c)) w3
      in Worker_detach (on_conn (ShutdownWriter L n) w4))"

definition serveTunnel ::
  "H2Lib \<Rightarrow> (proxy_op list \<times> (gerr + frame)) list \<Rightarrow> proxy_op list tick list \<Rightarrow> nat \<Rightarrow> Worker
     \<Rightarrow> (gerr option \<times> Worker) option" where
  "serveTunnel L reads ts n w =
     (case await_settings (proxy_run L) reads w of
        None \<Rightarrow> None
      | Some (Some e, w1) \<Rightarrow> Some (Some e, tunnel_teardown L n w1)
      | Some (None, w1) \<Rightarrow>
          (case run_loop (tunnel_turn L) ts w1 of
             None \<Rightarrow> None
           | Some (r, w2) \<Rightarrow> Some (r, tunnel_teardown L n w2)))"

section \<open>The registries stay in step\<close>

lemma update_value:
  assumes "keys_distinct xs" "distinct (map snd xs)" "v \<notin> snd ` set xs"
  shows "distinct (map snd (AList.update k v xs))" "snd ` set (AList.update k v xs) \<subseteq> insert v (snd ` set xs)"
    "(i, q) \<in> set (AList.update k v xs) \<Longrightarrow> (i = k \<and> q = v) \<or> (i \<noteq> k \<and> (i, q) \<in> set xs)"
proof -
  have s: "snd ` set (AList.update k v ys) \<subseteq> insert v (snd ` set ys)" for ys
    by (induction ys) auto
  then show "snd ` set (AList.update k v xs) \<subseteq> insert v (snd ` set xs)" .
  show "distinct (map snd (AList.update k v xs))" using assms(2,3)
  proof (induction xs)
    case (Cons x xs)
    then show ?case using s [of xs] by (cases x) auto
  qed simp
  have "map_of (AList.update k v xs) = (map_of xs)(k \<mapsto> v)" by (rule update_conv')
  then show "(i, q) \<in> set (AList.update k v xs) \<Longrightarrow> (i = k \<and> q = v) \<or> (i \<noteq> k \<and> (i, q) \<in> set xs)"
    using assms(1) distinct_update [OF assms(1), of k v] by (metis fun_upd_apply map_of_SomeD map_of_is_SomeI option.inject)
qed

text \<open>A stream registered under any identifier, free or not.\<close>

lemma add_cm_ok_any:
  assumes "cm_ok (c, m)" "Acquire k sid conn w m = (p, m')"
  shows "cm_ok (Conn_AddStream p m' c, m')" "c_streams (Conn_AddStream p m' c) = AList.update sid p (c_streams c)"
proof -
  note a = Acquire_cm_ok [OF assms]
  have i: "st_ID (m_stream m' p) = sid" using a(4) by (simp add: fresh_stream_def)
  show s: "c_streams (Conn_AddStream p m' c) = AList.update sid p (c_streams c)" by (simp add: Conn_AddStream_def i)
  have r: "registry_ok c m'" "keys_distinct (c_streams c)" "distinct (map snd (c_streams c))"
    using a(2) by (simp_all add: cm_ok_def registry_ok_def)
  note u = update_value [OF r(2,3) a(1), where k = sid]
  have "registry_ok (Conn_AddStream p m' c) m'"
    unfolding registry_ok_def s
  proof (intro conjI allI impI)
    fix j q assume "(j, q) \<in> set (AList.update sid p (c_streams c))"
    from u(3) [OF this] show "st_ID (m_stream m' q) = j" using r(1) i by (auto simp: registry_ok_def)
  qed (use u(1) r(2) in \<open>simp_all add: distinct_update\<close>)
  moreover have "conn_ok (Conn_AddStream p m' c)" using assms(1) by (simp add: cm_ok_def conn_ok_def Conn_AddStream_def)
  moreover have "drain_ok (Conn_AddStream p m' c)"
    using reg_step_drain_ok [of c "RegAdd m' p"] assms(1) by (simp add: cm_ok_def)
  moreover have "pool_ok (snd ` set (AList.update sid p (c_streams c))) (m_streamPool m')"
    using a(3) u(2) by (auto simp: pool_ok_def)
  ultimately show "cm_ok (Conn_AddStream p m' c, m')" by (simp add: cm_ok_def s)
qed

lemma update_regs:
  "map (\<lambda>(sid, cs). (sid, cs_h2 cs)) (AList.update k cs xs) = AList.update k (cs_h2 cs) (map (\<lambda>(sid, cs). (sid, cs_h2 cs)) xs)"
  by (induction xs) auto

lemma update_id: "map_of xs k = Some v \<Longrightarrow> AList.update k v xs = xs"
  by (induction xs) auto

lemma regs_ok_update:
  assumes "regs_ok w" "getStream sid w = Some cs" "cs_h2 cs' = cs_h2 cs"
  shows "regs_ok (w\<lparr>wk_streams := AList.update sid cs' (wk_streams w)\<rparr>)"
proof -
  have "map_of (c_streams (lk_conn w)) sid = Some (cs_h2 cs)"
    using registries_agree(3) [OF assms(1), of sid] assms(2) by (simp add: GetStream_def)
  then show ?thesis using assms by (simp add: regs_ok_def update_regs update_id)
qed

lemma regs_ok_mem:
  "regs_ok w \<Longrightarrow> (\<And>p. st_ID (m_stream m p) = st_ID (m_stream (lk_mem w) p)) \<Longrightarrow> m_streamPool m = m_streamPool (lk_mem w) \<Longrightarrow>
   regs_ok (w\<lparr>lk_mem := m\<rparr>)"
  using cm_ok_mem [of "lk_conn w" "lk_mem w" m] by (simp add: regs_ok_def)

lemma open_regs:
  assumes "regs_ok w" "open_attempt k iw w = (sid, p, w1)"
  shows "regs_ok w1" "getStream sid w1 = Some \<lparr>cs_h2 = p, cs_respErr = None, cs_respHeader = [], cs_respStatus = 0, cs_done = False\<rparr>"
proof -
  obtain n c1 where n: "NextStreamID (lk_conn w) = (n, c1)" by (metis prod.exhaust)
  obtain q m1 where a: "Acquire k n (c_self c1) iw (lk_mem w) = (q, m1)" by (metis prod.exhaust)
  let ?cs = "\<lparr>cs_h2 = q, cs_respErr = None, cs_respHeader = [], cs_respStatus = 0, cs_done = False\<rparr>"
  have w1: "sid = n" "p = q" "w1 = w\<lparr>wk_streams := AList.update n ?cs (wk_streams w), lk_conn := Conn_AddStream q m1 c1, lk_mem := m1\<rparr>"
    using assms(2) n a by (auto simp: open_attempt_def)
  have c1: "c1 = (lk_conn w)\<lparr>c_nextStreamID := n\<rparr>" using n by (auto simp: NextStreamID_def Let_def)
  have cm: "cm_ok (c1, lk_mem w)"
    using assms(1) c1 by (simp add: regs_ok_def cm_ok_def conn_ok_def registry_ok_def drain_ok_def)
  note ad = add_cm_ok_any [OF cm a]
  show "regs_ok w1" using assms(1) ad by (simp add: regs_ok_def w1 update_regs c1)
  show "getStream sid w1 = Some \<lparr>cs_h2 = p, cs_respErr = None, cs_respHeader = [], cs_respStatus = 0, cs_done = False\<rparr>"
    by (simp add: getStream_def w1 update_conv')
qed

lemma openStream_regs:
  assumes "regs_ok w"
  shows "regs_ok (snd (openStream k now iw (\<lambda>sid. submit L (i sid)) w))"
proof (cases "admitted w")
  case True
  obtain n p w1 where o: "open_attempt k iw w = (n, p, w1)" by (metis prod.exhaust)
  note op = open_regs [OF assms o]
  obtain r c3 where s: "submit L (i n) (lk_conn w1) = (r, c3)" by (metis prod.exhaust)
  have cm: "cm_ok (lk_conn w1, lk_mem w1)" using op(1) by (simp add: regs_ok_def)
  note sw = submit_worker [OF cm s]
  have r1: "regs_ok (w1\<lparr>lk_conn := c3\<rparr>)" by (rule regs_ok_conn [OF op(1) sw(1,2)])
  moreover have "w1\<lparr>wk_streams := AList.delete n (wk_streams w1), lk_conn := RemoveStream now n c3, lk_mem := Release p (lk_mem w1)\<rparr>
      = give_up now n (w1\<lparr>lk_conn := c3\<rparr>)"
    using op(2) by (simp add: give_up_def getStream_def deregisterStream_def)
  ultimately show ?thesis using True o s give_up_regs [OF r1, of now n]
    by (cases r) (simp_all add: openStream_eq admitted_def)
qed (use assms in \<open>auto simp: openStream_eq admitted_def\<close>)

lemma regs_ok_on_conn:
  "regs_ok w \<Longrightarrow> cm_ok (f (lk_conn w), lk_mem w) \<Longrightarrow> c_streams (f (lk_conn w)) = c_streams (lk_conn w) \<Longrightarrow> regs_ok (on_conn f w)"
  by (simp add: regs_ok_def on_conn_def)

lemma regs_ok_on_link:
  "regs_ok w \<Longrightarrow> cm_ok (g (lk_conn w, lk_mem w)) \<Longrightarrow> c_streams (fst (g (lk_conn w, lk_mem w))) = c_streams (lk_conn w) \<Longrightarrow>
   regs_ok (on_link g w)"
  by (simp add: regs_ok_def on_link_def split_beta)

lemma regs_cm: "regs_ok w \<Longrightarrow> cm_ok (lk_conn w, lk_mem w)"
  by (simp add: regs_ok_def)

lemma tunnel_step_regs:
  assumes "regs_ok w"
  shows "regs_ok (tunnel_step L e w)"
proof -
  note cm = regs_cm [OF assms]
  have k: "cache_ok ToLower (c_lowerNames (lk_conn w))" using cm by (simp add: cm_ok_def conn_ok_def)
  show ?thesis
  proof (cases e)
    case (TOpen k now iw meth schm authority path h es)
    let ?i = "\<lambda>sid. zeroIntent\<lparr>wi_kind := wkReqHeaders, wi_streamID := sid, wi_method := meth,
       wi_scheme := schm, wi_authority := authority, wi_path := path, wi_header := h, wi_endStream := es\<rparr>"
    have "(\<lambda>sid. SendRequestHeaders L sid meth schm authority path h es) = (\<lambda>sid. submit L (?i sid))"
      by (intro ext) (simp add: SendRequestHeaders_def)
    then show ?thesis using openStream_regs [OF assms, of k now iw L ?i] by (simp add: TOpen)
  next
    case (TControl i)
    then show ?thesis using assms submitAsync_cm_ok [OF cm] by (auto simp: conn_frame intro!: regs_ok_on_conn)
  next
    case (TSend i)
    have "cm_ok (snd (submit L i (lk_conn w)), lk_mem w)" "c_streams (snd (submit L i (lk_conn w))) = c_streams (lk_conn w)"
      using submit_worker [OF cm] by (metis prod.collapse)+
    then show ?thesis using assms TSend by (auto intro!: regs_ok_on_conn)
  next
    case TWriter
    note w = runWriter_spec [OF k, of L]
    show ?thesis using assms unowned_cm_ok [OF cm w] unowned_fields(2) [OF w(1)] TWriter by (auto intro!: regs_ok_on_conn)
  qed (use assms give_up_regs in simp)
qed

lemma proxy_step_regs:
  assumes "regs_ok w"
  shows "regs_ok (proxy_step L e w)"
proof (cases e)
  case (PMem x)
  have "c_streams (fst (env_step L x (lk_conn w, lk_mem w))) = c_streams (lk_conn w)" if "\<forall>now sid. x \<noteq> EnvFinish now sid"
  proof (cases x)
    case EnvWriter
    have "cache_ok ToLower (c_lowerNames (lk_conn w))" using regs_cm [OF assms] by (simp add: cm_ok_def conn_ok_def)
    from unowned_fields(2) [OF runWriter_spec(1) [OF this]] EnvWriter show ?thesis by simp
  qed (use that in \<open>auto simp: conn_frame split: prod.splits\<close>)
  moreover have "cm_ok (env_step L x (lk_conn w, lk_mem w))"
    using env_step_link [OF regs_cm [OF assms]] by (metis prod.collapse)
  ultimately show ?thesis using assms PMem by (cases x) (auto intro!: regs_ok_on_link)
qed (use assms tunnel_step_regs in simp)

lemma proxy_run_regs: "regs_ok w \<Longrightarrow> regs_ok (proxy_run L es w)"
  unfolding proxy_run_def by (induction es arbitrary: w) (simp_all add: proxy_step_regs)

lemma deliverResponse_regs:
  assumes "regs_ok w"
  shows "regs_ok (deliverResponse d w)"
proof (cases "getStream (dh_StreamID d) w")
  case None
  then show ?thesis using assms submitAsync_cm_ok [OF regs_cm [OF assms]]
    by (auto simp: deliverResponse_def SendRSTStream_def conn_frame intro!: regs_ok_on_conn)
next
  case (Some cs)
  let ?w1 = "deliverHeaders (fst (Atoi (dh_Status d))) (dh_Header d) (dh_StreamID d) w"
  have "regs_ok ?w1"
    using regs_ok_update [OF assms Some] Some by (simp add: deliverHeaders_def cs_deliver_def)
  then show ?thesis using Some regs_ok_mem [of ?w1 "mem_CloseData (cs_h2 cs) (lk_mem ?w1)"]
    by (simp add: deliverResponse_def split_beta mem_op_frames Let_def)
qed

lemma take_response_regs:
  "regs_ok (w\<lparr>lk_conn := snd res\<rparr>) \<Longrightarrow> regs_ok (snd (take_response res w))"
  using deliverResponse_regs [of "w\<lparr>lk_conn := snd res\<rparr>"]
  by (simp add: take_response_def Let_def split: sum.splits option.splits)

lemma fail_regs: "regs_ok w \<Longrightarrow> regs_ok (fail e sid w)"
proof (cases "getStream sid w")
  case (Some cs)
  assume "regs_ok w"
  from regs_ok_update [OF this Some, of "cs_fail e cs"]
  have r: "regs_ok (w\<lparr>wk_streams := AList.update sid (cs_fail e cs) (wk_streams w)\<rparr>)" by (simp add: cs_fail_def)
  from regs_ok_mem [OF r, of "mem_FailBody e (cs_h2 cs) (lk_mem w)"] Some show ?thesis
    by (simp add: fail_def mem_op_frames)
qed (simp add: fail_def)

lemma handleProxyFrame_regs:
  assumes "regs_ok w"
  shows "regs_ok (snd (handleProxyFrame L k now f w))"
proof -
  note cm = regs_cm [OF assms]
  show ?thesis
  proof (cases f)
    case (FSettings ack xs)
    obtain r c m where a: "ApplyPeerSettings xs (lk_conn w, lk_mem w) = (r, c, m)" by (metis prod.exhaust)
    note l = ApplyPeerSettings_link [OF cm a]
    have "regs_ok (w\<lparr>lk_conn := c, lk_mem := m\<rparr>)" "regs_ok (w\<lparr>lk_conn := SendSettingsAck c, lk_mem := m\<rparr>)"
      using assms l submitAsync_cm_ok [OF l(1)] by (simp_all add: regs_ok_def SendSettingsAck_def conn_frame)
    then show ?thesis using FSettings a assms by (cases r) (simp_all add: handleProxyFrame_def)
  next
    case (FWindowUpdate sid inc)
    obtain c m where h: "HandleWindowUpdate sid inc (lk_conn w, lk_mem w) = (c, m)" by (metis prod.exhaust)
    have "c_streams c = c_streams (lk_conn w)" using h by (auto simp: HandleWindowUpdate_def split: option.splits if_splits)
    then show ?thesis using FWindowUpdate assms HandleWindowUpdate_link(1) [OF cm h] h
      by (simp add: handleProxyFrame_def regs_ok_on_link)
  next
    case (FHeaders sid frag eh es)
    obtain r c where st: "StartHeaders L sid frag eh es (lk_conn w) = (r, c)" by (metis prod.exhaust)
    have "regs_ok (w\<lparr>lk_conn := c\<rparr>)" using StartHeaders_link(1,2) [OF cm st] by (intro regs_ok_conn [OF assms])
    then show ?thesis using FHeaders st take_response_regs [of "(r, c)" w] by (simp add: handleProxyFrame_def)
  next
    case (FData sid data fl es)
    obtain c m where h: "HandleInboundData k sid data fl es (lk_conn w, lk_mem w) = (c, m)" by (metis prod.exhaust)
    have "c_streams c = c_streams (lk_conn w)" using h
      by (auto simp: HandleInboundData_def SendWindowUpdate_def SendRSTStream_def conn_frame Let_def split: option.splits)
    then show ?thesis using FData assms HandleInboundData_link(1) [OF cm h] h
      by (simp add: handleProxyFrame_def regs_ok_on_link)
  next
    case (FPing ack data)
    then show ?thesis using assms HandlePingAck_link [OF cm] submitAsync_cm_ok [OF cm]
      by (auto simp: handleProxyFrame_def SendPing_def conn_frame HandlePingAck_def intro!: regs_ok_on_conn)
  next
    case (FGoAway last code)
    have "c_streams (BeginDrain now (lk_conn w)) = c_streams (lk_conn w)" by (simp add: BeginDrain_def Let_def)
    with FGoAway show ?thesis using assms BeginDrain_link [OF cm]
      by (auto simp: handleProxyFrame_def intro!: regs_ok_on_conn)
  next
    case (FRSTStream sid code)
    let ?w = "fail ErrStreamReset sid w"
    have r: "regs_ok ?w" by (rule fail_regs [OF assms])
    obtain c m where h: "HandleRSTStream sid (lk_conn ?w, lk_mem ?w) = (c, m)" by (metis prod.exhaust)
    show ?thesis using FRSTStream r HandleRSTStream_link [OF regs_cm [OF r] h] h
      by (simp add: handleProxyFrame_def regs_ok_on_link)
  qed (use assms in \<open>simp_all add: handleProxyFrame_def\<close>)
qed

lemma tunnel_frame_regs:
  assumes "regs_ok w"
  shows "regs_ok (snd (tunnel_frame L k now f w))"
proof (cases "InContinuation (lk_conn w)")
  case True
  have "regs_ok (snd (take_response (ConsumeContinuation L frag eh (lk_conn w)) w))" for frag eh
  proof -
    obtain x c where x: "ConsumeContinuation L frag eh (lk_conn w) = (x, c)" by (metis prod.exhaust)
    have "regs_ok (w\<lparr>lk_conn := c\<rparr>)"
      using ConsumeContinuation_link(1,2) [OF regs_cm [OF assms] x] by (intro regs_ok_conn [OF assms])
    then show ?thesis unfolding x by (intro take_response_regs) simp
  qed
  then show ?thesis using True assms by (auto simp: tunnel_frame_def split: frame.splits)
qed (simp add: tunnel_frame_def handleProxyFrame_regs [OF assms])

lemma tunnel_turn_regs:
  assumes "regs_ok w" "tunnel_turn L t w = (r, w')"
  shows "regs_ok w'"
proof -
  define w1 where "w1 = proxy_run L (tk_before t) w"
  define w2 where "w2 = proxy_run L (tk_during t) (on_conn (SetIdleDeadline (tk_now t)) w1)"
  have i1: "regs_ok w1" unfolding w1_def by (rule proxy_run_regs [OF assms(1)])
  have "regs_ok (on_conn (SetIdleDeadline (tk_now t)) w1)"
    using i1 SetReadDeadline_link [OF regs_cm [OF i1]]
    by (intro regs_ok_on_conn) (simp_all add: SetIdleDeadline_def SetReadDeadline_def)
  then have i2: "regs_ok w2" unfolding w2_def by (rule proxy_run_regs)
  have ping: "regs_ok (w2\<lparr>lk_conn := c\<rparr>)" if "SendOrCheckPing (tk_later t) (lk_conn w2) = (e, c)" for e c
    using SendOrCheckPing_link(1) [OF regs_cm [OF i2] that] that
    by (intro regs_ok_conn [OF i2]) (auto simp: SendOrCheckPing_def SendPing_def conn_frame Let_def split: if_splits)
  have fr: "regs_ok w3" if "tunnel_frame L (tk_choice t) (tk_later t) f w2 = (e, w3)" for f e w3
    using tunnel_frame_regs [OF i2, of L "tk_choice t" "tk_later t" f] that by simp
  show ?thesis
    using assms(2) i1 i2 ping fr
    unfolding tunnel_turn_def Let_def w1_def [symmetric] w2_def [symmetric]
    by (auto split: if_splits sum.splits option.splits prod.splits)
qed

interpretation tl: reader_loop "tunnel_turn L" regs_ok for L
  by unfold_locales (rule tunnel_turn_regs)

lemma await_settings_regs:
  assumes "regs_ok w" "await_settings (proxy_run L) reads w = Some (r, w')"
  shows "regs_ok w'"
  using assms
proof (induction "proxy_run L" reads w rule: await_settings.induct)
  case (3 e ack xs rs w)
  let ?w1 = "proxy_run L e w"
  have i: "regs_ok ?w1" using proxy_run_regs [OF 3(2)] .
  obtain x c m where a: "ApplyPeerSettings xs (lk_conn ?w1, lk_mem ?w1) = (x, c, m)" by (metis prod.exhaust)
  note l = ApplyPeerSettings_link [OF regs_cm [OF i] a]
  have "regs_ok (?w1\<lparr>lk_conn := c, lk_mem := m\<rparr>)" "regs_ok (?w1\<lparr>lk_conn := SendSettingsAck c, lk_mem := m\<rparr>)"
    using i l submitAsync_cm_ok [OF l(1)] by (simp_all add: regs_ok_def SendSettingsAck_def conn_frame)
  then show ?case using 3(1) [OF refl _ i] 3(3) a by (cases ack; cases x) simp_all
qed (auto simp: proxy_run_regs)

section \<open>Tear-down\<close>

lemma shutdown_fields:
  assumes "cm_ok (c, m)"
  shows "c_streams (ShutdownWriter L n c) = c_streams c" "c_Send (ShutdownWriter L n c) = c_Send c"
    "c_writeErr (ShutdownWriter L n c) \<noteq> None"
proof -
  have k: "cache_ok ToLower (c_lowerNames c)" using assms by (simp add: cm_ok_def conn_ok_def)
  obtain x c3 where wl: "writer_loop L (take n (c_writeQ c)) c = (x, c3)" by (metis prod.exhaust)
  have "unowned (ShutdownWriter L n c) = unowned c \<and> c_writeErr (ShutdownWriter L n c) \<noteq> None"
    using writer_loop_spec [OF k wl] wl by (auto simp: ShutdownWriter_def unowned_def split: option.splits)
  then show "c_streams (ShutdownWriter L n c) = c_streams c" "c_Send (ShutdownWriter L n c) = c_Send c"
    "c_writeErr (ShutdownWriter L n c) \<noteq> None" by (auto dest: unowned_fields)
qed

lemma tunnel_teardown_spec:
  assumes "regs_ok w" "w' = tunnel_teardown L n w"
  shows "wk_down w'" "sc_dead (c_Send (lk_conn w'))" "c_writeErr (lk_conn w') \<noteq> None"
    "map fst (wk_streams w') = map fst (wk_streams w)"
    "(sid, cs) \<in> set (wk_streams w') \<Longrightarrow> cs_done cs \<and> st_end (m_stream (lk_mem w') (cs_h2 cs)) \<noteq> None \<and>
       (\<forall>ctx. st_Cancel (m_stream (lk_mem w') (cs_h2 cs)) = Some ctx \<longrightarrow> ctx \<in> m_cancelled (lk_mem w'))"
proof -
  let ?c1 = "(lk_conn w)\<lparr>c_Send := snd (MarkDead (c_Send (lk_conn w)))\<rparr>"
  let ?m2 = "fold (\<lambda>(sid, cs). mem_FailBody ErrConnClosed (cs_h2 cs)) (wk_streams w) (lk_mem w)"
  let ?m3 = "FailAllStreams ErrConnClosed ?c1 ?m2"
  obtain r c4 where g: "SendGoAway L 0 ErrCodeNo ?c1 = (r, c4)" by (metis prod.exhaust)
  have cm: "cm_ok (?c1, lk_mem w)" using regs_cm [OF assms(1)]
    by (simp add: cm_ok_def conn_ok_def registry_ok_def drain_ok_def MarkDead_def)
  have s4: "cm_ok (c4, lk_mem w)" using submit_link(1) [OF cm] g by (simp add: SendGoAway_def)
  have d4: "c_Send c4 = c_Send ?c1"
  proof -
    have k: "cache_ok ToLower (c_lowerNames ?c1)" using cm by (simp add: cm_ok_def conn_ok_def)
    from k g [unfolded SendGoAway_def] show ?thesis by (cases rule: submit_cases) (auto dest: unowned_fields)
  qed
  note sh = shutdown_fields [OF s4, of L n]
  have w': "w' = w\<lparr>lk_conn := ShutdownWriter L n c4, lk_mem := ?m3,
      wk_streams := map (\<lambda>(sid, cs). (sid, cs_fail ErrConnClosed cs)) (wk_streams w), wk_down := True\<rparr>"
    using assms(2) g by (simp add: tunnel_teardown_def on_conn_def failAllStreams_def Worker_detach_def Let_def)
  show "wk_down w'" "sc_dead (c_Send (lk_conn w'))" "c_writeErr (lk_conn w') \<noteq> None"
    "map fst (wk_streams w') = map fst (wk_streams w)"
    using sh d4 by (simp_all add: w' MarkDead_def case_prod_unfold comp_def)
  assume "(sid, cs) \<in> set (wk_streams w')"
  then obtain cs0 where cs: "(sid, cs0) \<in> set (wk_streams w)" "cs = cs_fail ErrConnClosed cs0" by (auto simp: w')
  have "(\<lambda>(sid, cs). (sid, cs_h2 cs)) (sid, cs0) \<in> set (c_streams (lk_conn w))"
    using cs(1) assms(1) unfolding regs_ok_def by (metis image_eqI list.set_map)
  then have p: "cs_h2 cs \<in> snd ` set (c_streams (lk_conn w))" unfolding cs(2) by (force simp: cs_fail_def)
  then have p: "cs_h2 cs \<in> snd ` set (c_streams ?c1)" by simp
  have "cs_done cs" unfolding cs(2) by (simp add: cs_fail_def)
  then show "cs_done cs \<and> st_end (m_stream (lk_mem w') (cs_h2 cs)) \<noteq> None \<and>
       (\<forall>ctx. st_Cancel (m_stream (lk_mem w') (cs_h2 cs)) = Some ctx \<longrightarrow> ctx \<in> m_cancelled (lk_mem w'))"
    using fail_all_stream [OF cm p, of ErrConnClosed ?m2] by (simp add: w')
qed

lemma serveTunnel_exit:
  assumes "regs_ok w" "serveTunnel L reads ts n w = Some (r, w')"
  obtains w0 where "regs_ok w0" "w' = tunnel_teardown L n w0"
proof -
  obtain x w1 where a: "await_settings (proxy_run L) reads w = Some (x, w1)"
    using assms(2) by (auto simp: serveTunnel_def split: option.splits)
  note i = await_settings_regs [OF assms(1) a]
  show thesis
  proof (cases x)
    case None
    then obtain w2 where l: "run_loop (tunnel_turn L) ts w1 = Some (r, w2)" "w' = tunnel_teardown L n w2"
      using assms(2) a by (auto simp: serveTunnel_def split: option.splits)
    from tl.loop_inv [OF i l(1)] l(2) show thesis by (rule that)
  next
    case (Some e)
    then show thesis using assms(2) a i by (intro that [of w1]) (auto simp: serveTunnel_def)
  qed
qed

text \<open>The first complete header block of a response decides its client stream.\<close>

lemma deliver_first:
  assumes "getStream sid w = Some cs" "\<not> cs_done cs" "dh_StreamID d = sid" "Atoi (dh_Status d) = (status, ok)"
  shows "getStream sid (deliverResponse d w) = Some (cs\<lparr>cs_respStatus := status, cs_respHeader := dh_Header d, cs_done := True\<rparr>)"
    "lk_conn (deliverResponse d w) = lk_conn w"
    "m_stream (lk_mem (deliverResponse d w)) (cs_h2 cs) =
      (let st = m_stream (lk_mem w) (cs_h2 cs) in if dh_EndStream d then CloseData st else st)"
  using assms
  by (simp_all add: deliverResponse_def deliverHeaders_def cs_deliver_def getStream_def update_conv' mem_CloseData_def Let_def)

lemma deliver_again:
  assumes "getStream sid w = Some cs" "cs_done cs" "dh_StreamID d = sid"
  shows "getStream sid (deliverResponse d w) = Some cs"
  using assms
  by (simp add: deliverResponse_def deliverHeaders_def cs_deliver_def getStream_def update_conv' Let_def split_beta)

section \<open>Properties\<close>



end
