(* ===== verification/P_Proxy.thy ===== *)
theory P_Proxy
  imports P_Select P_Tunnel Rhttp_Steps
begin

text \<open>
  The proxy (\<open>internal/proxy/proxy.go\<close>, and \<open>acceptTunnel\<close> of \<open>tunnel.go\<close>): the set of attached workers, the accept loop,
  the life of one tunnel from its handshake to its detach, and \<open>Shutdown\<close>.

  First the operations, each as the function it is. Then the goroutines that run them: one accept loop, one goroutine
  per tunnel, and \<open>Shutdown\<close>, which meet at \<open>workersMu\<close>, at the closed channel and at the wait group. \<open>proxy_trans\<close> is
  that system, one clause per action; \<open>attach\<close> is two of its actions, since its test of the channel and its append
  are not one critical section.

  \<open>pr_hooks\<close> records the calls of \<open>OnWorkerAttach\<close> and \<open>OnWorkerDetach\<close>, in order. TLS itself is not modelled: a
  handshake has a result.
\<close>

section \<open>Definitions\<close>

text \<open>A \<open>tls.Config\<close> is its protocol list and everything else, which nothing here looks at.\<close>

record tls_config =
  tc_NextProtos :: "string list"
  tc_rest :: nat

definition cloneAndEnsureH2 :: "tls_config \<Rightarrow> tls_config" where
  "cloneAndEnsureH2 cfg =
     (let out = cfg in
      if ''h2'' \<in> set (tc_NextProtos out) then out
      else out\<lparr>tc_NextProtos := tc_NextProtos out @ [''h2'']\<rparr>)"

text \<open>\<open>isTemporary\<close>: what \<open>err.Temporary()\<close> says if the error has such a method.\<close>

definition isTemporary :: "bool option \<Rightarrow> bool" where
  "isTemporary te = (case te of Some t \<Rightarrow> t | None \<Rightarrow> False)"

datatype hook = Attached ptr | Detached ptr

text \<open>Options: the selector is a function with a state of type \<open>'q\<close>.\<close>

record 'q Options =
  op_TunnelTLSConfig :: "tls_config option"
  op_Selector :: "('q \<Rightarrow> (ptr \<Rightarrow> Worker) \<Rightarrow> ptr list \<Rightarrow> ptr option \<times> 'q) option"
  op_MaxConcurrentStreams :: uint32

record 'q Proxy =
  pr_selector :: "'q \<Rightarrow> (ptr \<Rightarrow> Worker) \<Rightarrow> ptr list \<Rightarrow> ptr option \<times> 'q"
  pr_pick :: 'q
  pr_mcs :: uint32
  pr_shutdown :: bool
  pr_workers :: "ptr list"
  pr_heap :: "ptr \<Rightarrow> Worker"
  pr_listener :: "ptr option"
  pr_closed :: "ptr set"
  pr_rwcClosed :: "ptr set"
  pr_hooks :: "hook list"

text \<open>\<open>New\<close>. \<open>dflt\<close> is \<open>LeastInFlight()\<close> at the type of the selector's state.\<close>

definition Proxy_New ::
  "('q \<Rightarrow> (ptr \<Rightarrow> Worker) \<Rightarrow> ptr list \<Rightarrow> ptr option \<times> 'q) \<Rightarrow> 'q \<Rightarrow> 'q Options \<Rightarrow> gerr + 'q Proxy" where
  "Proxy_New dflt q opts =
     (if op_TunnelTLSConfig opts = None then Inl ErrTunnelTLSRequired
      else
        let sel = (case op_Selector opts of None \<Rightarrow> dflt | Some s \<Rightarrow> s)
        in Inr \<lparr>pr_selector = sel, pr_pick = q, pr_mcs = op_MaxConcurrentStreams opts, pr_shutdown = False,
                pr_workers = [], pr_heap = (\<lambda>_. new_Worker), pr_listener = None, pr_closed = {}, pr_rwcClosed = {}, pr_hooks = []\<rparr>)"

definition snapshotWorkers :: "'q Proxy \<Rightarrow> ptr list" where
  "snapshotWorkers p = pr_workers p"

text \<open>\<open>availableWorkers\<close> filters the snapshot in its own backing array: \<open>out := ws[:0]\<close>. \<open>i\<close> is the index of the range
  loop, \<open>n\<close> the length of \<open>out\<close>, and the array is read where earlier iterations may have written.\<close>

function filter_in_place :: "('a \<Rightarrow> bool) \<Rightarrow> nat \<Rightarrow> nat \<Rightarrow> 'a list \<Rightarrow> 'a list" where
  "filter_in_place P i n ws =
     (if i < length ws then
        (let w = ws ! i in
         if P w then filter_in_place P (Suc i) (Suc n) (ws[n := w]) else filter_in_place P (Suc i) n ws)
      else take n ws)"
  by pat_completeness auto
termination by (relation "measure (\<lambda>(P, i, n, ws). length ws - i)") auto

declare filter_in_place.simps [simp del]

definition availableWorkers :: "'q Proxy \<Rightarrow> ptr list" where
  "availableWorkers p = filter_in_place (\<lambda>w. \<not> Draining (lk_conn (pr_heap p w))) 0 0 (snapshotWorkers p)"

text \<open>The part of \<open>attach\<close> after its test, and the whole of it.\<close>

definition attach_commit :: "ptr \<Rightarrow> 'q Proxy \<Rightarrow> 'q Proxy" where
  "attach_commit w p = p\<lparr>pr_workers := pr_workers p @ [w], pr_hooks := pr_hooks p @ [Attached w]\<rparr>"

definition attach :: "ptr \<Rightarrow> 'q Proxy \<Rightarrow> gerr option \<times> 'q Proxy" where
  "attach w p = (if pr_shutdown p then (Some ErrShuttingDown, p) else (None, attach_commit w p))"

text \<open>The loop of \<open>detach\<close>: the first occurrence goes, and whether there was one.\<close>

fun remove_first :: "ptr \<Rightarrow> ptr list \<Rightarrow> bool \<times> ptr list" where
  "remove_first w [] = (False, [])"
| "remove_first w (x # xs) = (if x = w then (True, xs) else let (b, ys) = remove_first w xs in (b, x # ys))"

definition detach :: "ptr \<Rightarrow> 'q Proxy \<Rightarrow> 'q Proxy" where
  "detach w p =
     (let (present, ws) = remove_first w (pr_workers p);
          p1 = p\<lparr>pr_workers := ws\<rparr>
      in if \<not> present then p1 else p1\<lparr>pr_hooks := pr_hooks p1 @ [Detached w]\<rparr>)"

text \<open>What \<open>shutdownOnce\<close> guards. It runs at most once: the channel is closed exactly when it has run.\<close>

definition wake_all :: "nat \<Rightarrow> ptr list \<Rightarrow> (ptr \<Rightarrow> Worker) \<Rightarrow> ptr \<Rightarrow> Worker" where
  "wake_all now ws h = fold (\<lambda>w h. h(w := on_conn (SetReadDeadline now) (h w))) ws h"

definition shutdown_once :: "nat \<Rightarrow> 'q Proxy \<Rightarrow> 'q Proxy" where
  "shutdown_once now p =
     (if pr_shutdown p then p
      else
        let p1 = p\<lparr>pr_shutdown := True\<rparr>;
            p2 = (case pr_listener p1 of None \<Rightarrow> p1 | Some ln \<Rightarrow> p1\<lparr>pr_closed := insert ln (pr_closed p1)\<rparr>)
        in p2\<lparr>pr_heap := wake_all now (snapshotWorkers p2) (pr_heap p2)\<rparr>)"

text \<open>\<open>Shutdown\<close> then waits for the accept goroutines or for its context. \<open>accepts\<close> is the value of the wait group when it
  waits, and \<open>ctx\<close> the error of a context that is done; of two ready cases either may be taken.\<close>

definition Shutdown_wait :: "nat \<Rightarrow> gerr option \<Rightarrow> bool \<Rightarrow> gerr option option" where
  "Shutdown_wait accepts ctx prefer_done =
     (if accepts = 0 \<and> (ctx = None \<or> prefer_done) then Some None
      else case ctx of Some e \<Rightarrow> Some (Some e) | None \<Rightarrow> None)"

subsection \<open>The accept loop\<close>

datatype accepted = AConn ptr | AError gerr "bool option"

text \<open>What \<open>Accept\<close> returns, with whether the shutdown channel is closed by then; the result is the error the loop returns
  and the connections it started goroutines for.\<close>

fun runTunnelAccept_loop :: "(accepted \<times> bool) list \<Rightarrow> ptr list \<Rightarrow> (gerr option \<times> ptr list) option" where
  "runTunnelAccept_loop [] started = None"
| "runTunnelAccept_loop ((AConn c, shut) # es) started = runTunnelAccept_loop es (started @ [c])"
| "runTunnelAccept_loop ((AError err te, shut) # es) started =
     (if shut then Some (None, started)
      else if isTemporary te then runTunnelAccept_loop es started
      else Some (Some err, started))"

definition accept_enter :: "ptr \<Rightarrow> 'q Proxy \<Rightarrow> 'q Proxy" where
  "accept_enter ln p = p\<lparr>pr_listener := Some ln\<rparr>"

definition accept_exit :: "ptr \<Rightarrow> 'q Proxy \<Rightarrow> 'q Proxy" where
  "accept_exit ln p = (if pr_listener p = Some ln then p\<lparr>pr_listener := None\<rparr> else p)"

text \<open>\<open>others\<close> is what the other goroutines do to the proxy while the loop runs.\<close>

definition runTunnelAccept ::
  "ptr \<Rightarrow> (accepted \<times> bool) list \<Rightarrow> ('q Proxy \<Rightarrow> 'q Proxy) \<Rightarrow> 'q Proxy \<Rightarrow> (gerr option \<times> ptr list \<times> 'q Proxy) option" where
  "runTunnelAccept ln es others p =
     (case runTunnelAccept_loop es [] of
        None \<Rightarrow> None
      | Some (r, started) \<Rightarrow> Some (r, started, accept_exit ln (others (accept_enter ln p))))"

text \<open>The goroutine of an accepted connection, up to \<open>acceptTunnel\<close>: a TLS connection must finish its handshake and
  have negotiated h2.\<close>

datatype handshake = NotTLS | TLSFailed | TLSDone string

definition preflight :: "handshake \<Rightarrow> bool" where
  "preflight hs = (case hs of NotTLS \<Rightarrow> True | TLSFailed \<Rightarrow> False | TLSDone proto \<Rightarrow> proto = ''h2'')"

definition clientPreface :: string where
  "clientPreface = ''PRI * HTTP/2.0'' @ [CHR 13, CHR 10, CHR 13, CHR 10] @ ''SM'' @ [CHR 13, CHR 10, CHR 13, CHR 10]"

text \<open>\<open>acceptTunnel\<close> on the connection with address \<open>t\<close>. \<open>pref\<close> is what \<open>io.ReadFull\<close> of the preface gives, \<open>reads\<close>, \<open>ts\<close>
  and \<open>n\<close> are what \<open>serveTunnel\<close> takes. The deferred \<open>rwc.Close\<close> is the last thing on every path.\<close>

definition put_worker :: "ptr \<Rightarrow> Worker \<Rightarrow> 'q Proxy \<Rightarrow> 'q Proxy" where
  "put_worker t w p = p\<lparr>pr_heap := (pr_heap p)(t := w)\<rparr>"

definition close_rwc :: "ptr \<Rightarrow> 'q Proxy \<Rightarrow> 'q Proxy" where
  "close_rwc t p = p\<lparr>pr_rwcClosed := insert t (pr_rwcClosed p)\<rparr>"

definition new_tunnel :: "Conn \<Rightarrow> mem \<Rightarrow> Worker" where
  "new_tunnel c m = \<lparr>lk_conn = c, lk_mem = m, wk_streams = [], wk_down = False, wk_inFlight = 0\<rparr>"

definition acceptTunnel ::
  "H2Lib \<Rightarrow> ptr \<Rightarrow> gerr + string \<Rightarrow> mem \<Rightarrow> (proxy_op list \<times> (gerr + frame)) list \<Rightarrow> proxy_op list tick list \<Rightarrow> nat
     \<Rightarrow> 'q Proxy \<Rightarrow> 'q Proxy option" where
  "acceptTunnel L t pref m reads ts n p =
     (case pref of
        Inl err \<Rightarrow> Some (close_rwc t p)
      | Inr s \<Rightarrow>
          if s \<noteq> clientPreface then Some (close_rwc t p)
          else case New L t (pr_mcs p) of
                 Inl err \<Rightarrow> Some (close_rwc t p)
               | Inr c \<Rightarrow>
                   let p1 = put_worker t (new_tunnel c m) p
                   in case attach t p1 of
                        (Some err, p2) \<Rightarrow>
                          let w = on_conn (\<lambda>c. ShutdownWriter L n (snd (SendGoAway L 0 ErrCodeNo c))) (pr_heap p2 t)
                          in Some (close_rwc t (put_worker t w p2))
                      | (None, p2) \<Rightarrow>
                          (case serveTunnel L reads ts n (pr_heap p2 t) of
                             None \<Rightarrow> None
                           | Some (r, w) \<Rightarrow> Some (close_rwc t (detach t (put_worker t w p2)))))"

section \<open>The goroutines of the proxy\<close>

text \<open>How far the goroutine of a tunnel has come: \<open>Accept\<close> has returned it, it is counted in the wait group and shakes
  hands, it has passed the test of \<open>attach\<close>, it is attached and served, its frame loop has returned, it only has to
  leave the wait group, it is gone.\<close>

datatype tphase = TNone | TGot | THandshake | TChecked | TServing | TReturned | TLeaving | TGone

record 'q sys =
  sy_proxy :: "'q Proxy"
  sy_accepts :: nat
  sy_phase :: "ptr \<Rightarrow> tphase"

abbreviation go :: "ptr \<Rightarrow> tphase \<Rightarrow> 'q sys \<Rightarrow> 'q sys" where
  "go t ph s \<equiv> s\<lparr>sy_phase := (sy_phase s)(t := ph)\<rparr>"

abbreviation upd_proxy :: "('q Proxy \<Rightarrow> 'q Proxy) \<Rightarrow> 'q sys \<Rightarrow> 'q sys" where
  "upd_proxy f s \<equiv> s\<lparr>sy_proxy := f (sy_proxy s)\<rparr>"

inductive proxy_trans :: "'q sys \<Rightarrow> 'q sys \<Rightarrow> bool" where
  listen: "proxy_trans s (upd_proxy (accept_enter ln) s)"
| unlisten: "proxy_trans s (upd_proxy (accept_exit ln) s)"
| got: "sy_phase s t = TNone \<Longrightarrow> pr_listener (sy_proxy s) = Some ln \<Longrightarrow> ln \<notin> pr_closed (sy_proxy s) \<Longrightarrow>
    proxy_trans s (go t TGot s)"
| start: "sy_phase s t = TGot \<Longrightarrow> proxy_trans s (go t THandshake (s\<lparr>sy_accepts := Suc (sy_accepts s)\<rparr>))"
| refuse: "sy_phase s t = THandshake \<Longrightarrow> proxy_trans s (go t TLeaving (upd_proxy (close_rwc t) s))"
| late: "sy_phase s t = THandshake \<Longrightarrow> pr_shutdown (sy_proxy s) \<Longrightarrow>
    proxy_trans s (go t TLeaving (upd_proxy (close_rwc t) s))"
| check: "sy_phase s t = THandshake \<Longrightarrow> \<not> pr_shutdown (sy_proxy s) \<Longrightarrow>
    proxy_trans s (go t TChecked (upd_proxy (put_worker t (new_tunnel c m)) s))"
| commit: "sy_phase s t = TChecked \<Longrightarrow> proxy_trans s (go t TServing (upd_proxy (attach_commit t) s))"
| serving: "sy_phase s t = TServing \<Longrightarrow> proxy_trans s (upd_proxy (put_worker t w) s)"
| returned: "sy_phase s t = TServing \<Longrightarrow> proxy_trans s (go t TReturned s)"
| detached: "sy_phase s t = TReturned \<Longrightarrow> proxy_trans s (go t TLeaving (upd_proxy (close_rwc t \<circ> detach t) s))"
| leave: "sy_phase s t = TLeaving \<Longrightarrow> proxy_trans s (go t TGone (s\<lparr>sy_accepts := sy_accepts s - 1\<rparr>))"
| shutdown: "proxy_trans s (upd_proxy (shutdown_once now) s)"

definition counted :: "tphase \<Rightarrow> bool" where
  "counted ph \<longleftrightarrow> ph \<in> {THandshake, TChecked, TServing, TReturned, TLeaving}"

fun hook_of :: "hook \<Rightarrow> ptr" where
  "hook_of (Attached t) = t"
| "hook_of (Detached t) = t"

definition hooks_about :: "ptr \<Rightarrow> hook list \<Rightarrow> hook list" where
  "hooks_about t hs = filter (\<lambda>h. hook_of h = t) hs"

text \<open>The hooks a tunnel has seen, by how far it has come.\<close>

fun hooks_seen :: "ptr \<Rightarrow> tphase \<Rightarrow> hook list set" where
  "hooks_seen t TServing = {[Attached t]}"
| "hooks_seen t TReturned = {[Attached t]}"
| "hooks_seen t TLeaving = {[], [Attached t, Detached t]}"
| "hooks_seen t TGone = {[], [Attached t, Detached t]}"
| "hooks_seen t ph = {[]}"

definition sys_ok :: "'q sys \<Rightarrow> bool" where
  "sys_ok s \<longleftrightarrow>
     finite {t. sy_phase s t \<noteq> TNone} \<and> sy_accepts s = card {t. counted (sy_phase s t)} \<and>
     distinct (pr_workers (sy_proxy s)) \<and>
     set (pr_workers (sy_proxy s)) = {t. sy_phase s t \<in> {TServing, TReturned}} \<and>
     (\<forall>t. hooks_about t (pr_hooks (sy_proxy s)) \<in> hooks_seen t (sy_phase s t))"

definition init_sys :: "'q Proxy \<Rightarrow> 'q sys" where
  "init_sys p = \<lparr>sy_proxy = p, sy_accepts = 0, sy_phase = (\<lambda>_. TNone)\<rparr>"

section \<open>Operations\<close>

lemma filter_in_place_aux:
  "n \<le> i \<Longrightarrow> i \<le> length ws \<Longrightarrow> filter_in_place P i n ws = take n ws @ filter P (drop i ws)"
proof (induction P i n ws rule: filter_in_place.induct)
  case (1 P i n ws)
  show ?case
  proof (cases "i < length ws")
    case True
    then have d: "drop i ws = ws ! i # drop (Suc i) ws" by (simp add: Cons_nth_drop_Suc)
    have u: "take (Suc n) (ws[n := x]) = take n ws @ [x]" "drop (Suc i) (ws[n := x]) = drop (Suc i) ws" for x
      using True 1(3) by (simp_all add: take_Suc_conv_app_nth)
    show ?thesis using True 1 by (subst filter_in_place.simps) (simp add: Let_def d u)
  next
    case False
    then show ?thesis using 1(4) by (subst filter_in_place.simps) simp
  qed
qed

lemma availableWorkers_filter:
  "availableWorkers p = filter (\<lambda>w. \<not> Worker_Draining (pr_heap p w)) (pr_workers p)"
  by (simp add: availableWorkers_def filter_in_place_aux snapshotWorkers_def Worker_Draining_def)

lemma remove_first_spec: "remove_first w ws = (w \<in> set ws, remove1 w ws)"
  by (induction ws) auto

lemma detach_eq:
  "detach w p = (if w \<in> set (pr_workers p)
     then p\<lparr>pr_workers := remove1 w (pr_workers p), pr_hooks := pr_hooks p @ [Detached w]\<rparr> else p)"
  by (simp add: detach_def remove_first_spec remove1_idem)

lemma hooks_about_append [simp]: "hooks_about t (hs @ [h]) = (if hook_of h = t then hooks_about t hs @ [h] else hooks_about t hs)"
  by (simp add: hooks_about_def)

lemma shutdown_once_fields [simp]:
  "pr_workers (shutdown_once now p) = pr_workers p" "pr_hooks (shutdown_once now p) = pr_hooks p"
  "pr_shutdown (shutdown_once now p)"
  by (simp_all add: shutdown_once_def Let_def split: option.splits)

section \<open>The invariant\<close>

text \<open>A step of one tunnel's goroutine, seen from the invariant.\<close>

lemma sys_ok_go:
  assumes "sys_ok s" "sy_phase s' = (sy_phase s)(t := ph)"
    "hooks_about t (pr_hooks (sy_proxy s')) \<in> hooks_seen t ph"
    "\<And>u. u \<noteq> t \<Longrightarrow> hooks_about u (pr_hooks (sy_proxy s')) = hooks_about u (pr_hooks (sy_proxy s))"
    "distinct (pr_workers (sy_proxy s'))"
    "set (pr_workers (sy_proxy s')) = {u. ((sy_phase s)(t := ph)) u \<in> {TServing, TReturned}}"
    "sy_accepts s' = sy_accepts s + (if counted ph then 1 else 0) - (if counted (sy_phase s t) then 1 else 0)"
  shows "sys_ok s'"
proof -
  have f: "finite {u. sy_phase s u \<noteq> TNone}" "sy_accepts s = card {u. counted (sy_phase s u)}"
    using assms(1) by (simp_all add: sys_ok_def)
  have fc: "finite {u. counted (sy_phase s u)}"
    by (rule finite_subset [OF _ f(1)]) (auto simp: counted_def)
  have "{u. sy_phase s' u \<noteq> TNone} \<subseteq> insert t {u. sy_phase s u \<noteq> TNone}" unfolding assms(2) by auto
  then have 1: "finite {u. sy_phase s' u \<noteq> TNone}" by (rule finite_subset) (simp add: f(1))
  define A where "A = {u. counted (sy_phase s u)} - {t}"
  have A: "finite A" "t \<notin> A" using fc by (simp_all add: A_def)
  have a: "{u. counted (sy_phase s u)} = (if counted (sy_phase s t) then insert t A else A)"
    "{u. counted (sy_phase s' u)} = (if counted ph then insert t A else A)" unfolding A_def assms(2) by auto
  have "card {u. counted (sy_phase s u)} = card A + (if counted (sy_phase s t) then 1 else 0)"
    "card {u. counted (sy_phase s' u)} = card A + (if counted ph then 1 else 0)"
    unfolding a using A by simp_all
  then have 2: "sy_accepts s' = card {u. counted (sy_phase s' u)}" using assms(7) f(2) by simp
  have "hooks_about u (pr_hooks (sy_proxy s')) \<in> hooks_seen u (sy_phase s' u)" for u
    using assms(1,3,4) assms(2) by (cases "u = t") (auto simp: sys_ok_def)
  with 1 2 show ?thesis using assms(2,5,6) by (simp add: sys_ok_def)
qed

lemma sys_ok_proxy:
  assumes "sys_ok s" "pr_workers (f (sy_proxy s)) = pr_workers (sy_proxy s)" "pr_hooks (f (sy_proxy s)) = pr_hooks (sy_proxy s)"
  shows "sys_ok (upd_proxy f s)"
  using assms by (simp add: sys_ok_def)

lemma put_close_fields [simp]:
  "pr_workers (put_worker t w p) = pr_workers p" "pr_hooks (put_worker t w p) = pr_hooks p"
  "pr_workers (close_rwc t p) = pr_workers p" "pr_hooks (close_rwc t p) = pr_hooks p"
  "pr_workers (accept_enter ln p) = pr_workers p" "pr_hooks (accept_enter ln p) = pr_hooks p"
  "pr_workers (accept_exit ln p) = pr_workers p" "pr_hooks (accept_exit ln p) = pr_hooks p"
  "pr_shutdown (put_worker t w p) = pr_shutdown p" "pr_shutdown (close_rwc t p) = pr_shutdown p"
  "pr_shutdown (accept_enter ln p) = pr_shutdown p" "pr_shutdown (accept_exit ln p) = pr_shutdown p"
  by (simp_all add: put_worker_def close_rwc_def accept_enter_def accept_exit_def)

lemma proxy_trans_ok:
  assumes "sys_ok s" "proxy_trans s s'"
  shows "sys_ok s'"
proof -
  have d: "distinct (pr_workers (sy_proxy s))" and w: "set (pr_workers (sy_proxy s)) = {t. sy_phase s t \<in> {TServing, TReturned}}"
    and h: "hooks_about t (pr_hooks (sy_proxy s)) \<in> hooks_seen t (sy_phase s t)" for t
    using assms(1) by (simp_all add: sys_ok_def)
  note hs = sys_ok_go [OF assms(1)]
  from assms(2) show ?thesis
  proof cases
    case (got t ln)
    show ?thesis using got h [of t] d w by (intro hs [of _ t TGot]) (auto simp: counted_def)
  next
    case (start t)
    show ?thesis using start h [of t] d w by (intro hs [of _ t THandshake]) (auto simp: counted_def)
  next
    case (refuse t)
    show ?thesis using refuse h [of t] d w by (intro hs [of _ t TLeaving]) (auto simp: counted_def)
  next
    case (late t)
    show ?thesis using late h [of t] d w by (intro hs [of _ t TLeaving]) (auto simp: counted_def)
  next
    case (check t c m)
    show ?thesis using check h [of t] d w by (intro hs [of _ t TChecked]) (auto simp: counted_def)
  next
    case (commit t)
    show ?thesis using commit h [of t] d w by (intro hs [of _ t TServing]) (auto simp: counted_def attach_commit_def)
  next
    case (returned t)
    show ?thesis using returned h [of t] d w by (intro hs [of _ t TReturned]) (auto simp: counted_def)
  next
    case (detached t)
    then have "t \<in> set (pr_workers (sy_proxy s))" using w by simp
    then show ?thesis using detached h [of t] d w
      by (intro hs [of _ t TLeaving]) (auto simp: counted_def detach_eq)
  next
    case (leave t)
    show ?thesis using leave h [of t] d w by (intro hs [of _ t TGone]) (auto simp: counted_def)
  qed (simp_all add: sys_ok_proxy assms(1))
qed

interpretation px: step_system proxy_trans sys_ok
  by unfold_locales (rule proxy_trans_ok)

lemma init_sys_ok:
  assumes "pr_workers p = []" "pr_hooks p = []"
  shows "sys_ok (init_sys p)"
  using assms by (simp add: sys_ok_def init_sys_def counted_def hooks_about_def)

text \<open>Shut down with an empty wait group: nobody is attached or on the way to it.\<close>

definition drained :: "'q sys \<Rightarrow> bool" where
  "drained s \<longleftrightarrow> pr_shutdown (sy_proxy s) \<and> (\<forall>t. sy_phase s t \<notin> {TChecked, TServing, TReturned})"

lemma drained_start:
  assumes "sys_ok s" "pr_shutdown (sy_proxy s)" "sy_accepts s = 0"
  shows "drained s"
proof -
  have "{t. counted (sy_phase s t)} \<subseteq> {t. sy_phase s t \<noteq> TNone}" by (auto simp: counted_def)
  then have "finite {t. counted (sy_phase s t)}" using assms(1) by (auto simp: sys_ok_def intro: finite_subset)
  then have "{t. counted (sy_phase s t)} = {}" using assms(1,3) by (simp add: sys_ok_def)
  then show ?thesis using assms(2) by (auto simp: drained_def counted_def)
qed

lemma drained_step:
  assumes "drained s" "proxy_trans s s'"
  shows "drained s' \<and> pr_hooks (sy_proxy s') = pr_hooks (sy_proxy s)"
  using assms(2,1) by cases (auto simp: drained_def)

section \<open>One tunnel\<close>

lemma new_tunnel_regs:
  assumes "New L t mcs = Inr c" "pool_ok {} (m_streamPool m)"
  shows "regs_ok (new_tunnel c m)"
proof -
  obtain xs where "c = init_Conn t xs" using assms(1) by (auto simp: New_def Let_def split: option.splits)
  then show ?thesis using assms(2) conn_ok_init [of t xs]
    by (simp add: regs_ok_def new_tunnel_def cm_ok_def registry_ok_def drain_ok_def init_Conn_def)
qed

lemma attach_detach:
  assumes "t \<notin> set (pr_workers p)"
  shows "pr_workers (detach t (put_worker t w (attach_commit t p))) = pr_workers p"
    "pr_hooks (detach t (put_worker t w (attach_commit t p))) = pr_hooks p @ [Attached t, Detached t]"
    "pr_heap (detach t (put_worker t w (attach_commit t p))) t = w"
  using assms by (simp_all add: detach_eq attach_commit_def remove1_append put_worker_def)

text \<open>What is left of a tunnel that was served: nobody waits on it.\<close>

definition torn_down :: "Worker \<Rightarrow> bool" where
  "torn_down w \<longleftrightarrow> wk_down w \<and> sc_dead (c_Send (lk_conn w)) \<and> WriteErr (lk_conn w) \<noteq> None \<and>
     (\<forall>sid cs. getStream sid w = Some cs \<longrightarrow> cs_done cs)"

lemma serveTunnel_torn_down:
  assumes "regs_ok w" "serveTunnel L reads ts n w = Some (r, w')"
  shows "torn_down w'"
proof -
  obtain w0 where w0: "regs_ok w0" "w' = tunnel_teardown L n w0" by (rule serveTunnel_exit [OF assms])
  note t = tunnel_teardown_spec [OF w0]
  show ?thesis using t(1-3) t(5) by (auto simp: torn_down_def WriteErr_def getStream_def dest: map_of_SomeD)
qed

text \<open>A proxy as the defaults make it, and the first steps of a run of it.\<close>

definition default_proxy :: "unit Proxy" where
  "default_proxy = \<lparr>pr_selector = LeastInFlight, pr_pick = (), pr_mcs = 0, pr_shutdown = False, pr_workers = [],
     pr_heap = (\<lambda>_. new_Worker), pr_listener = None, pr_closed = {}, pr_rwcClosed = {}, pr_hooks = []\<rparr>"

lemma default_proxy_new:
  "Proxy_New LeastInFlight () \<lparr>op_TunnelTLSConfig = Some \<lparr>tc_NextProtos = [], tc_rest = 0\<rparr>, op_Selector = None,
     op_MaxConcurrentStreams = 0\<rparr> = Inr default_proxy"
  by (simp add: Proxy_New_def default_proxy_def)

definition sample_got :: "unit sys" where
  "sample_got = go 5 TGot (upd_proxy (accept_enter 9) (init_sys default_proxy))"

lemma sample_got_reached: "proxy_trans\<^sup>*\<^sup>* (init_sys default_proxy) sample_got"
proof -
  have "proxy_trans (init_sys default_proxy) (upd_proxy (accept_enter 9) (init_sys default_proxy))"
    by (rule proxy_trans.listen)
  moreover have "proxy_trans (upd_proxy (accept_enter 9) (init_sys default_proxy)) sample_got"
    unfolding sample_got_def
    by (rule proxy_trans.got [where ln = 9]) (simp_all add: init_sys_def accept_enter_def default_proxy_def)
  ultimately show ?thesis by (rule converse_rtranclp_into_rtranclp [OF _ r_into_rtranclp])
qed

section \<open>Properties\<close>

text \<open>
  C18. The worker set is exact. In any interleaving of the accept loop, the tunnels and \<open>Shutdown\<close>, the attached workers
  are, without repetition, exactly the tunnels that are being served or have not been detached yet;
  \<open>OnWorkerAttach\<close> and \<open>OnWorkerDetach\<close> are called for every tunnel at most once, in this order, the second as soon
  as the tunnel leaves; and what a selector is offered are the attached workers that do not drain, in attach order.
\<close>

theorem worker_set_exact:
  assumes "Proxy_New dflt q opts = Inr p" "proxy_trans\<^sup>*\<^sup>* (init_sys p) s"
  shows "distinct (pr_workers (sy_proxy s)) \<and>
    set (pr_workers (sy_proxy s)) = {t. sy_phase s t \<in> {TServing, TReturned}} \<and>
    hooks_about t (pr_hooks (sy_proxy s)) \<in> hooks_seen t (sy_phase s t) \<and>
    availableWorkers (sy_proxy s) = filter (\<lambda>w. \<not> Worker_Draining (pr_heap (sy_proxy s) w)) (pr_workers (sy_proxy s))"
proof -
  have "sys_ok (init_sys p)" using assms(1) by (intro init_sys_ok) (auto simp: Proxy_New_def Let_def split: if_splits)
  from px.reach_good [OF assms(2) this] show ?thesis by (simp add: sys_ok_def availableWorkers_filter)
qed

theorem worker_set_exact_witness:
  "\<exists>s. proxy_trans\<^sup>*\<^sup>* (init_sys default_proxy) s \<and> pr_workers (sy_proxy s) = [5] \<and> sy_phase s 5 = TServing \<and>
     hooks_about 5 (pr_hooks (sy_proxy s)) \<in> hooks_seen 5 (sy_phase s 5) \<and> availableWorkers (sy_proxy s) = [5]"
proof -
  define s2 where "s2 = go 5 THandshake (sample_got\<lparr>sy_accepts := Suc (sy_accepts sample_got)\<rparr>)"
  define s3 where "s3 = go 5 TChecked (upd_proxy (put_worker 5 new_Worker) s2)"
  define s where "s = go 5 TServing (upd_proxy (attach_commit 5) s3)"
  have f: "pr_workers (sy_proxy s2) = []" "\<not> pr_shutdown (sy_proxy s2)"
    by (simp_all add: s2_def sample_got_def init_sys_def default_proxy_def accept_enter_def)
  have "proxy_trans sample_got s2" unfolding s2_def by (rule proxy_trans.start) (simp add: sample_got_def)
  with sample_got_reached have 2: "proxy_trans\<^sup>*\<^sup>* (init_sys default_proxy) s2" by (rule rtranclp.rtrancl_into_rtrancl)
  have n: "new_tunnel (lk_conn new_Worker) (lk_mem new_Worker) = new_Worker" by (simp add: new_tunnel_def new_Worker_def)
  have "sy_phase s2 5 = THandshake" by (simp add: s2_def)
  then have "proxy_trans s2 s3" unfolding s3_def
    using proxy_trans.check [of s2 5 "lk_conn new_Worker" "lk_mem new_Worker"] f(2) unfolding n by simp
  with 2 have 3: "proxy_trans\<^sup>*\<^sup>* (init_sys default_proxy) s3" by (rule rtranclp.rtrancl_into_rtrancl)
  have "sy_phase s3 5 = TChecked" by (simp add: s3_def)
  then have "proxy_trans s3 s" unfolding s_def by (rule proxy_trans.commit)
  with 3 have r: "proxy_trans\<^sup>*\<^sup>* (init_sys default_proxy) s" by (rule rtranclp.rtrancl_into_rtrancl)
  have w: "pr_workers (sy_proxy s) = [5]" "pr_heap (sy_proxy s) 5 = new_Worker" "sy_phase s 5 = TServing"
    using f by (simp_all add: s_def s3_def attach_commit_def put_worker_def)
  have "\<not> Worker_Draining new_Worker" by (simp add: Worker_Draining_def Draining_def new_Worker_def init_Conn_def)
  then have "availableWorkers (sy_proxy s) = [5]" "hooks_about 5 (pr_hooks (sy_proxy s)) \<in> hooks_seen 5 (sy_phase s 5)"
    using worker_set_exact [OF default_proxy_new r, of 5] unfolding w by (simp_all add: w(2))
  with w(1,3) r show ?thesis by blast
qed

text \<open>
  C21. \<open>Shutdown\<close> is final. Once the shutdown channel is closed and the wait group that \<open>Shutdown\<close> waits for is empty, no worker
  is attached, none ever will be, and no hook is called again, whatever the goroutines that are left do.
\<close>

theorem shutdown_is_final:
  assumes "Proxy_New dflt q opts = Inr p" "proxy_trans\<^sup>*\<^sup>* (init_sys p) s" "pr_shutdown (sy_proxy s)"
    "Shutdown_wait (sy_accepts s) None b = Some None" "proxy_trans\<^sup>*\<^sup>* s s'"
  shows "pr_workers (sy_proxy s') = [] \<and> pr_hooks (sy_proxy s') = pr_hooks (sy_proxy s)"
proof -
  have "sys_ok (init_sys p)" using assms(1) by (intro init_sys_ok) (auto simp: Proxy_New_def Let_def split: if_splits)
  then have ok: "sys_ok s" using px.reach_good [OF assms(2)] by simp
  have "sy_accepts s = 0" using assms(4) by (simp add: Shutdown_wait_def split: if_splits)
  then have d: "drained s" using drained_start [OF ok assms(3)] by simp
  have "drained s' \<and> pr_hooks (sy_proxy s') = pr_hooks (sy_proxy s)"
    by (rule px.reach_stable [OF assms(5) ok]) (use d drained_step in auto)
  moreover from this have "set (pr_workers (sy_proxy s')) = {}"
    using px.reach_good [OF assms(5) ok] by (auto simp: sys_ok_def drained_def)
  ultimately show ?thesis by simp
qed

text \<open>In this run \<open>Shutdown\<close> returns although \<open>Accept\<close> has just handed out a connection: its goroutine starts afterwards.\<close>

theorem shutdown_is_final_witness:
  "\<exists>s s'. proxy_trans\<^sup>*\<^sup>* (init_sys default_proxy) s \<and> Shutdown_wait (sy_accepts s) None True = Some None \<and>
     proxy_trans s s' \<and> sy_phase s' 5 = THandshake \<and> sy_accepts s' = 1 \<and> pr_workers (sy_proxy s') = []"
proof -
  let ?s = "upd_proxy (shutdown_once 3) sample_got"
  let ?s' = "go 5 THandshake (?s\<lparr>sy_accepts := Suc (sy_accepts ?s)\<rparr>)"
  have "proxy_trans sample_got ?s" by (rule proxy_trans.shutdown)
  then have r: "proxy_trans\<^sup>*\<^sup>* (init_sys default_proxy) ?s" using sample_got_reached by simp
  have t: "proxy_trans ?s ?s'" by (rule proxy_trans.start [of _ 5]) (simp add: sample_got_def)
  have a: "sy_accepts ?s = 0" by (simp add: sample_got_def init_sys_def)
  then have w: "Shutdown_wait (sy_accepts ?s) None True = Some None" by (simp add: Shutdown_wait_def)
  have "pr_workers (sy_proxy ?s') = []"
    using shutdown_is_final [OF default_proxy_new r _ w r_into_rtranclp [of proxy_trans, OF t]] by simp
  with r t w a show ?thesis by (intro exI [of _ ?s] exI [of _ ?s']) simp
qed



end
