(* ===== verification/P_URI.thy ===== *)
theory P_URI
  imports W_Stream
begin

text \<open>
  The request target. The proxy prints the URL of a public request with \<open>req.URL.RequestURI()\<close> (\<open>openForward\<close>,
  \<open>internal/proxy/forward.go\<close>) and the worker parses what arrives with its own \<open>parseRequestURI\<close> (\<open>stream.go\<close>), a
  replacement for \<open>url.ParseRequestURI\<close>. This theory has the printer, which belongs to Go's \<open>net/url\<close>, and shows that the
  two agree.
\<close>

section \<open>Definitions\<close>

record NetURL =
  n_Scheme :: string
  n_Opaque :: string
  n_Host :: string
  n_Path :: string
  n_RawPath :: string
  n_ForceQuery :: bool
  n_RawQuery :: string

definition unreserved :: "char \<Rightarrow> bool" where
  "unreserved c \<longleftrightarrow>
     (let n = of_char c :: nat in (97 \<le> n \<and> n \<le> 122) \<or> (65 \<le> n \<and> n \<le> 90) \<or> (48 \<le> n \<and> n \<le> 57)) \<or>
     c \<in> set ''-_.~''"

text \<open>\<open>shouldEscape(c, encodePath)\<close>.\<close>

definition shouldEscape :: "char \<Rightarrow> bool" where
  "shouldEscape c =
     (if unreserved c then False
      else if c \<in> set ''$&+,/:;=?@'' then c = CHR ''?''
      else True)"

definition upperhex :: "nat \<Rightarrow> char" where
  "upperhex d = (if d < 10 then char_of (48 + d) else char_of (55 + d))"

definition escape_char :: "char \<Rightarrow> string" where
  "escape_char c =
     (if shouldEscape c then (let n = of_char c in [CHR ''%'', upperhex (n div 16), upperhex (n mod 16)]) else [c])"

definition escape :: "string \<Rightarrow> string" where
  "escape s = concat (map escape_char s)"

definition validEncoded :: "string \<Rightarrow> bool" where
  "validEncoded s = list_all (\<lambda>c. c \<in> set ''!$&()*+,;=:@[]%'' \<or> c = CHR 39 \<or> \<not> shouldEscape c) s"

definition EscapedPath :: "NetURL \<Rightarrow> string" where
  "EscapedPath u =
     (if n_RawPath u \<noteq> [] \<and> validEncoded (n_RawPath u) \<and> PathUnescape (n_RawPath u) = Some (n_Path u) then n_RawPath u
      else if n_Path u = ''*'' then ''*''
      else escape (n_Path u))"

definition RequestURI :: "NetURL \<Rightarrow> string" where
  "RequestURI u =
     (let r0 = n_Opaque u;
          r1 = (if r0 = [] then (let e = EscapedPath u in if e = [] then ''/'' else e)
                else if take 2 r0 = ''//'' then n_Scheme u @ '':'' @ r0
                else r0)
      in if n_ForceQuery u \<or> n_RawQuery u \<noteq> [] then r1 @ ''?'' @ n_RawQuery u else r1)"

section \<open>Escaping\<close>

lemma hex_upperhex: "d < 16 \<Longrightarrow> hex_val (upperhex d) = Some d"
  by (auto simp: hex_val_def upperhex_def Let_def)

lemma of_char_split: "16 * (of_char c div 16) + of_char c mod 16 = (of_char c :: nat)"
  by simp

lemma of_char_256: "of_char c < (256 :: nat)"
  by (metis of_char_mod_256 mod_less_divisor zero_less_numeral)

lemma not_escaped_percent: "\<not> shouldEscape c \<Longrightarrow> c \<noteq> CHR ''%''"
  by (auto simp: shouldEscape_def unreserved_def)

lemma unescape_escape: "PathUnescape (escape s) = Some s"
proof (induction s)
  case (Cons c s)
  show ?case
  proof (cases "shouldEscape c")
    case True
    let ?n = "of_char c :: nat"
    have h: "hex_val (upperhex (?n div 16)) = Some (?n div 16)" "hex_val (upperhex (?n mod 16)) = Some (?n mod 16)"
      using of_char_256 [of c] by (simp_all add: hex_upperhex less_mult_imp_div_less)
    have "char_of (16 * (?n div 16) + ?n mod 16) = c" unfolding of_char_split by simp
    then show ?thesis using True Cons.IH h by (simp add: escape_def escape_char_def Let_def)
  next
    case False
    then show ?thesis using Cons.IH not_escaped_percent [OF False] by (simp add: escape_def escape_char_def)
  qed
qed (simp add: escape_def)

lemma upperhex_not_question: "d < 16 \<Longrightarrow> upperhex d \<noteq> CHR ''?''"
proof
  assume "d < 16" "upperhex d = CHR ''?''"
  then have "hex_val (CHR ''?'') = Some d" using hex_upperhex by metis
  then show False by (simp add: hex_val_def Let_def)
qed

lemma escape_no_question: "CHR ''?'' \<notin> set (escape s)"
proof (induction s)
  case (Cons c s)
  have "CHR ''?'' \<notin> set (escape_char c)"
    using upperhex_not_question [of "of_char c div 16"] upperhex_not_question [of "of_char c mod 16"] of_char_256 [of c]
    by (auto simp: escape_char_def shouldEscape_def unreserved_def Let_def less_mult_imp_div_less)
  then show ?case using Cons.IH by (simp add: escape_def)
qed (simp add: escape_def)

lemma valid_no_question: "validEncoded s \<Longrightarrow> CHR ''?'' \<notin> set s"
proof
  assume v: "validEncoded s" "CHR ''?'' \<in> set s"
  have "shouldEscape (CHR ''?'')" by (simp add: shouldEscape_def unreserved_def)
  then have "\<not> (CHR ''?'' \<in> set ''!$&()*+,;=:@[]%'' \<or> CHR ''?'' = CHR 39 \<or> \<not> shouldEscape (CHR ''?''))" by simp
  with v show False by (auto simp only: validEncoded_def list_all_iff)
qed

lemma escape_hd: "p \<noteq> [] \<Longrightarrow> hd p = CHR ''/'' \<Longrightarrow> hd (escape p) = CHR ''/'' \<and> escape p \<noteq> []"
  by (cases p) (auto simp: escape_def escape_char_def shouldEscape_def unreserved_def)

lemma Cut_join: "sep \<notin> set a \<Longrightarrow> Cut sep (a @ sep # b) = (a, b, True)"
  by (induction a) auto

lemma Cut_none: "sep \<notin> set a \<Longrightarrow> Cut sep a = (a, [], False)"
  by (induction a) auto

text \<open>The URLs a server can have been asked for.\<close>

definition servable :: "NetURL \<Rightarrow> bool" where
  "servable u \<longleftrightarrow> n_Opaque u = [] \<and>
     (n_Path u = ''*'' \<and> n_RawPath u = [] \<and> \<not> n_ForceQuery u \<and> n_RawQuery u = [] \<or> n_Path u = [] \<and> n_RawPath u = [] \<or>
      n_Path u \<noteq> [] \<and> hd (n_Path u) = CHR ''/'' \<and> (n_RawPath u = [] \<or> hd (n_RawPath u) = CHR ''/''))"

text \<open>What the printer gives for a path that a server can have been asked for.\<close>

lemma EscapedPath_spec:
  assumes "servable u"
  shows "CHR ''?'' \<notin> set (EscapedPath u)" "PathUnescape (EscapedPath u) = Some (n_Path u)"
    "EscapedPath u = [] \<longleftrightarrow> n_Path u = []" "n_Path u \<noteq> [] \<Longrightarrow> EscapedPath u = ''*'' \<or> hd (EscapedPath u) = CHR ''/''"
proof -
  show "CHR ''?'' \<notin> set (EscapedPath u)"
    using valid_no_question escape_no_question by (simp add: EscapedPath_def)
  show "PathUnescape (EscapedPath u) = Some (n_Path u)"
    using unescape_escape by (simp add: EscapedPath_def)
  show "EscapedPath u = [] \<longleftrightarrow> n_Path u = []" using assms escape_hd [of "n_Path u"] by (auto simp: servable_def EscapedPath_def escape_def)
  show "EscapedPath u = ''*'' \<or> hd (EscapedPath u) = CHR ''/''" if "n_Path u \<noteq> []"
    using assms that escape_hd [of "n_Path u"] by (auto simp: servable_def EscapedPath_def)
qed

section \<open>The round trip\<close>

text \<open>The request target the proxy prints for a URL without an opaque part whose path is empty, starts with a slash or is the
  asterisk (without a query) is accepted by the worker's own parser, which gives back the decoded path (a slash for the
  empty one) and the query as they were, whatever bytes they contain; and printing the result again gives the same
  path, so an unusual encoding of the client survives.\<close>

lemma request_target_roundtrip:
  assumes "servable u"
  shows "\<exists>v. parseRequestURI (RequestURI u) = Some v \<and> u_Path v = (if n_Path u = [] then ''/'' else n_Path u) \<and>
    u_RawQuery v = n_RawQuery u \<and>
    (u_RawPath v = [] \<and> u_Path v = EscapedPath u \<or> u_RawPath v = EscapedPath u \<or> n_Path u = [])"
proof -
  note e = EscapedPath_spec [OF assms]
  define path where "path = (if EscapedPath u = [] then ''/'' else EscapedPath u)"
  have p: "CHR ''?'' \<notin> set path" "PathUnescape path = Some (if n_Path u = [] then ''/'' else n_Path u)"
    "path \<noteq> []" "path = ''*'' \<or> hd path = CHR ''/''" using e by (auto simp: path_def)
  have star: "path = ''*'' \<Longrightarrow> \<not> n_ForceQuery u \<and> n_RawQuery u = []"
  proof -
    assume "path = ''*''"
    then have "n_Path u = ''*''" using p(2) by (simp split: if_splits)
    moreover from this have "hd (n_Path u) \<noteq> CHR ''/''" by simp
    ultimately show "\<not> n_ForceQuery u \<and> n_RawQuery u = []" using assms by (force simp: servable_def)
  qed
  have r: "RequestURI u = (if n_ForceQuery u \<or> n_RawQuery u \<noteq> [] then path @ CHR ''?'' # n_RawQuery u else path)"
    using assms by (simp add: servable_def RequestURI_def path_def Let_def)
  have c: "Cut (CHR ''?'') (RequestURI u) = (path, n_RawQuery u, n_ForceQuery u \<or> n_RawQuery u \<noteq> [])"
    using p(1) by (auto simp: r Cut_join Cut_none)
  have "RequestURI u \<noteq> []" "hd (RequestURI u) = CHR ''/'' \<or> RequestURI u = ''*''"
    using p(3,4) star by (auto simp: r)
  then have g: "\<not> (RequestURI u = [] \<or> hd (RequestURI u) \<noteq> CHR ''/'' \<and> RequestURI u \<noteq> ''*'')" by blast
  let ?q = "n_ForceQuery u \<or> n_RawQuery u \<noteq> []"
  have q: "(if ?q then path else RequestURI u) = path" "(if ?q then n_RawQuery u else []) = n_RawQuery u" by (auto simp: r)
  define d where "d = (if n_Path u = [] then ''/'' else n_Path u)"
  have "parseRequestURI (RequestURI u) =
    (if d \<noteq> path then Some \<lparr>u_Path = d, u_RawPath = path, u_RawQuery = n_RawQuery u\<rparr>
     else Some \<lparr>u_Path = path, u_RawPath = [], u_RawQuery = n_RawQuery u\<rparr>)"
    unfolding parseRequestURI_def if_not_P [OF g] c Let_def prod.case q p(2) [folded d_def] option.case by (rule refl)
  moreover have "n_Path u = [] \<or> path = EscapedPath u" using e(3) by (simp add: path_def)
  ultimately show ?thesis unfolding d_def [symmetric] by (cases "d = path") auto
qed

end
