(* ===== verification/P_Forward.thy ===== *)
theory P_Forward
  imports P_Proxy P_URI
begin

text \<open>
  Forwarding one public request (\<open>internal/proxy/forward.go\<close>): pick a worker, open a stream, pump the request body, wait
  for the response, copy it back, clean up.

  A forwarder shares its tunnel with everything else the proxy does. What happens between its own actions is a list of
  \<open>fwd_op\<close>s: operations of other forwarders, pumps and the writer, frames the tunnel's reader handles, and the tear-down
  of the tunnel. A few operations on a stream belong to its forwarder or to its pump alone; \<open>owns\<close> names them, and
  an operation of somebody else is never one of those.

  The state of a forwarder is its worker and the public response so far. \<open>f_in\<close> records the bytes of the DATA frames that
  have arrived for its stream; no operation reads it. The public side (\<open>http.ResponseWriter\<close>, \<open>http.Error\<close>) is modelled as
  \<open>net/http\<close> documents it. \<open>estr\<close> is the text of an error (\<open>err.Error()\<close>).
\<close>

section \<open>Definitions\<close>

subsection \<open>What goes on meanwhile\<close>

datatype fwd_op = FOp proxy_op | FFrame nat nat frame | FDown nat

text \<open>A stream is given up by its forwarder only, which is also the only one to read its body; and the identifier of an open
  stream is not used again, as long as there are identifiers left.\<close>

fun forwarder_owns :: "uint32 \<Rightarrow> Worker \<Rightarrow> fwd_op \<Rightarrow> bool" where
  "forwarder_owns sid w (FOp (POp (TGiveUp now s))) \<longleftrightarrow> s = sid"
| "forwarder_owns sid w (FOp (POp (TOpen k now iw meth schm authority path h es))) \<longleftrightarrow> fst (NextStreamID (lk_conn w)) = sid"
| "forwarder_owns sid w (FOp (PMem (EnvRead n q))) \<longleftrightarrow> GetStream sid (lk_conn w) = Some q"
| "forwarder_owns sid w (FOp (PMem (EnvCloseBody q))) \<longleftrightarrow> GetStream sid (lk_conn w) = Some q"
| "forwarder_owns sid w e \<longleftrightarrow> False"

text \<open>The pump is the only one to send DATA on its stream.\<close>

definition data_intent :: "uint32 \<Rightarrow> writeIntent \<Rightarrow> bool" where
  "data_intent sid i \<longleftrightarrow> wi_kind i = wkData \<and> wi_streamID i = sid"

fun pump_owns :: "uint32 \<Rightarrow> Worker \<Rightarrow> fwd_op \<Rightarrow> bool" where
  "pump_owns sid w (FOp (POp (TSend i))) \<longleftrightarrow> data_intent sid i"
| "pump_owns sid w (FOp (POp (TControl i))) \<longleftrightarrow> data_intent sid i"
| "pump_owns sid w (FOp (PMem (EnvSubmit i))) \<longleftrightarrow> data_intent sid i"
| "pump_owns sid w e \<longleftrightarrow> False"

fun fwd_apply :: "H2Lib \<Rightarrow> fwd_op \<Rightarrow> Worker \<Rightarrow> Worker" where
  "fwd_apply L (FOp e) w = proxy_step L e w"
| "fwd_apply L (FFrame k now f) w = snd (tunnel_frame L k now f w)"
| "fwd_apply L (FDown n) w = tunnel_teardown L n w"

definition fwd_step :: "H2Lib \<Rightarrow> (Worker \<Rightarrow> fwd_op \<Rightarrow> bool) \<Rightarrow> fwd_op \<Rightarrow> Worker \<Rightarrow> Worker" where
  "fwd_step L owns e w = (if owns w e then w else fwd_apply L e w)"

definition fwd_run :: "H2Lib \<Rightarrow> (Worker \<Rightarrow> fwd_op \<Rightarrow> bool) \<Rightarrow> fwd_op list \<Rightarrow> Worker \<Rightarrow> Worker" where
  "fwd_run L owns es w = fold (fwd_step L owns) es w"

subsection \<open>Request headers\<close>

record PubRequest =
  q_Method :: string
  q_Host :: string
  q_URL :: NetURL
  q_TLS :: bool
  q_Header :: header
  q_Body :: bool
  q_ContentLength :: int

definition isHopByHop :: "string \<Rightarrow> bool" where
  "isHopByHop name \<longleftrightarrow>
     name \<in> set [''Connection'', ''Keep-Alive'', ''Proxy-Authenticate'', ''Proxy-Authorization'', ''Te'', ''Trailer'',
       ''Transfer-Encoding'', ''Upgrade'', ''Proxy-Connection'']"

fun add_values :: "string \<Rightarrow> string list \<Rightarrow> header \<Rightarrow> header" where
  "add_values k [] h = h"
| "add_values k (v # vv) h = add_values k vv (Header_Add h k v)"

fun copy_headers :: "(string \<Rightarrow> bool) \<Rightarrow> header \<Rightarrow> header \<Rightarrow> header" where
  "copy_headers skip [] h = h"
| "copy_headers skip ((k, vv) # r) h = copy_headers skip r (if skip k then h else add_values k vv h)"

definition buildForwardedHeader :: "PubRequest \<Rightarrow> header" where
  "buildForwardedHeader req = copy_headers isHopByHop (q_Header req) []"

subsection \<open>Opening the stream\<close>

definition bodyEmpty :: "PubRequest \<Rightarrow> bool" where
  "bodyEmpty req \<longleftrightarrow> \<not> q_Body req \<or> q_ContentLength req = 0"

text \<open>\<open>mid\<close> is what others do between the reading of the initial window and \<open>openStream\<close>.\<close>

definition openForward ::
  "H2Lib \<Rightarrow> nat \<Rightarrow> nat \<Rightarrow> fwd_op list \<Rightarrow> PubRequest \<Rightarrow> Worker \<Rightarrow> (gerr + uint32) \<times> Worker" where
  "openForward L k now mid req w =
     (let authority = (if q_Host req = [] then n_Host (q_URL req) else q_Host req);
          path = (let r = RequestURI (q_URL req) in if r = [] then ''/'' else r);
          schm = (if q_TLS req then ''https'' else ''http'');
          reqHeader = buildForwardedHeader req;
          initialWindow = InitialStreamWindow (c_Send (lk_conn w));
          w1 = fwd_run L (\<lambda>_ _. False) mid w
      in openStream k now initialWindow
           (\<lambda>sid. SendRequestHeaders L sid (q_Method req) schm authority path reqHeader (bodyEmpty req)) w1)"

subsection \<open>The body pump\<close>

text \<open>One turn of the chunk loop: the credit events while it waits in \<open>Reserve\<close>, and what others do before it sends.\<close>

type_synonym pace = "credit_event list \<times> fwd_op list"

fun send_chunks ::
  "H2Lib \<Rightarrow> uint32 \<Rightarrow> ptr \<Rightarrow> byte list \<Rightarrow> pace list \<Rightarrow> Worker \<Rightarrow> (gerr option \<times> Worker) option" where
  "send_chunks L sid p [] es w = Some (None, w)"
| "send_chunks L sid p (b # bs) [] w = None"
| "send_chunks L sid p (b # bs) ((ev, ops) # es) w =
     (let want = of_nat (length (b # bs)) in
      case Reserve (c_Send (lk_conn w)) (windows (lk_mem w)) p want ev of
        None \<Rightarrow> None
      | Some ((got, dead), sc, W, _) \<Rightarrow>
          let w1 = w\<lparr>lk_conn := (lk_conn w)\<lparr>c_Send := sc\<rparr>, lk_mem := set_windows W (lk_mem w)\<rparr>
          in if dead then Some (Some ErrConnDead, w1)
             else
               let w2 = fwd_run L (pump_owns sid) ops w1;
                   (r, c) = SendData L sid (take (unat got) (b # bs)) False (lk_conn w2);
                   w3 = w2\<lparr>lk_conn := c\<rparr>
               in case r of
                    Some werr \<Rightarrow> Some (Some werr, w3)
                  | None \<Rightarrow> send_chunks L sid p (drop (unat got) (b # bs)) es w3)"

text \<open>One turn of the read loop: what others do before it, whether \<open>worker.done()\<close> is closed, what others do while the
  read is in progress, what the read returns, and the turns of the chunk loop.\<close>

record pump_turn =
  pt_before :: "fwd_op list"
  pt_during :: "fwd_op list"
  pt_data :: "byte list"
  pt_err :: "gerr option"
  pt_paces :: "pace list"

definition pump_buf :: "Conn \<Rightarrow> int32" where
  "pump_buf c = (let maxFrame = MaxFrameSize c in if maxFrame \<le>s 0 then 16384 else maxFrame)"

fun streamRequestBody :: "H2Lib \<Rightarrow> uint32 \<Rightarrow> ptr \<Rightarrow> pump_turn list \<Rightarrow> Worker \<Rightarrow> (gerr option \<times> Worker) option" where
  "streamRequestBody L sid p [] w = None"
| "streamRequestBody L sid p (t # ts) w =
     (let w0 = fwd_run L (pump_owns sid) (pt_before t) w in
      if wk_down w0 then Some (Some ErrWorkerDetached, w0)
      else
        let w1 = fwd_run L (pump_owns sid) (pt_during t) w0 in
        case send_chunks L sid p (pt_data t) (pt_paces t) w1 of
          None \<Rightarrow> None
        | Some (Some e, w2) \<Rightarrow> Some (Some e, w2)
        | Some (None, w2) \<Rightarrow>
            (case pt_err t of
               None \<Rightarrow> streamRequestBody L sid p ts w2
             | Some err \<Rightarrow>
                 if err = EOF then
                   let (r, c) = SendData L sid [] True (lk_conn w2) in Some (r, w2\<lparr>lk_conn := c\<rparr>)
                 else Some (Some (ErrReadReqBody err), on_conn (SendRSTStream sid ErrCodeCancel) w2)))"

subsection \<open>The public response\<close>

record Public =
  pb_Header :: header
  pb_status :: "int option"
  pb_interim :: "int list"
  pb_body :: "byte list"

text \<open>\<open>WriteHeader\<close> of \<open>net/http\<close>; \<open>None\<close> is its panic on an invalid status.\<close>

definition pub_WriteHeader :: "int \<Rightarrow> Public \<Rightarrow> Public option" where
  "pub_WriteHeader code pub =
     (if pb_status pub \<noteq> None then Some pub
      else if code < 100 \<or> code > 999 then None
      else if 100 \<le> code \<and> code \<le> 199 \<and> code \<noteq> 101 then Some (pub\<lparr>pb_interim := pb_interim pub @ [code]\<rparr>)
      else Some (pub\<lparr>pb_status := Some code\<rparr>))"

text \<open>A successful \<open>Write\<close>, which sends status 200 if none has been sent.\<close>

definition pub_Write :: "byte list \<Rightarrow> Public \<Rightarrow> Public" where
  "pub_Write bs pub =
     (let pub1 = (if pb_status pub = None then pub\<lparr>pb_status := Some 200\<rparr> else pub)
      in pub1\<lparr>pb_body := pb_body pub1 @ bs\<rparr>)"

definition string_bytes :: "string \<Rightarrow> byte list" where
  "string_bytes s = map of_char s"

definition Header_Set :: "header \<Rightarrow> string \<Rightarrow> string \<Rightarrow> header" where
  "Header_Set h k v = AList.update (CanonicalMIMEHeaderKey k) [v] h"

text \<open>\<open>http.Error\<close>.\<close>

definition http_Error :: "string \<Rightarrow> int \<Rightarrow> Public \<Rightarrow> Public" where
  "http_Error msg code pub =
     (let h1 = Header_Del (pb_Header pub) ''Content-Length'';
          h2 = Header_Set h1 ''Content-Type'' ''text/plain; charset=utf-8'';
          h3 = Header_Set h2 ''X-Content-Type-Options'' ''nosniff'';
          pub1 = pub\<lparr>pb_Header := h3\<rparr>;
          pub2 = (case pub_WriteHeader code pub1 of Some x \<Rightarrow> x | None \<Rightarrow> pub1)
      in pub_Write (string_bytes (msg @ [CHR 10])) pub2)"

subsection \<open>Waiting for the response\<close>

record fstate =
  f_w :: Worker
  f_pub :: Public
  f_in :: "byte list"

definition fwd_bytes :: "uint32 \<Rightarrow> fwd_op \<Rightarrow> Worker \<Rightarrow> byte list" where
  "fwd_bytes sid e w =
     (case e of
        FFrame k now (FData s d fl es) \<Rightarrow> if s = sid \<and> \<not> InContinuation (lk_conn w) then d else []
      | _ \<Rightarrow> [])"

definition meanwhile1 :: "H2Lib \<Rightarrow> uint32 \<Rightarrow> fwd_op \<Rightarrow> fstate \<Rightarrow> fstate" where
  "meanwhile1 L sid e s =
     s\<lparr>f_w := fwd_step L (forwarder_owns sid) e (f_w s), f_in := f_in s @ fwd_bytes sid e (f_w s)\<rparr>"

definition meanwhile :: "H2Lib \<Rightarrow> uint32 \<Rightarrow> fwd_op list \<Rightarrow> fstate \<Rightarrow> fstate" where
  "meanwhile L sid es s = fold (meanwhile1 L sid) es s"

text \<open>The case the \<open>select\<close> takes; a case that is not ready cannot be taken. \<open>drain\<close> is what happens until the pump has
  reported on \<open>bodyErrCh\<close>, \<open>None\<close> if it never does.\<close>

datatype wake = WResp | WCtx | WDown

definition wait_pump :: "H2Lib \<Rightarrow> uint32 \<Rightarrow> fwd_op list option \<Rightarrow> fstate \<Rightarrow> fstate option" where
  "wait_pump L sid drain s = map_option (\<lambda>es. meanwhile L sid es s) drain"

definition waitForResponseHeaders ::
  "H2Lib \<Rightarrow> (gerr \<Rightarrow> string) \<Rightarrow> wake \<Rightarrow> fwd_op list option \<Rightarrow> uint32 \<Rightarrow> clientStream \<Rightarrow> fstate \<Rightarrow> (bool \<times> fstate) option" where
  "waitForResponseHeaders L estr wk drain sid cs s =
     (case wk of
        WCtx \<Rightarrow>
          map_option (Pair False) (wait_pump L sid drain (s\<lparr>f_w := on_conn (SendRSTStream sid ErrCodeCancel) (f_w s)\<rparr>))
      | WDown \<Rightarrow>
          if wk_down (f_w s) then
            map_option (Pair False)
              (wait_pump L sid drain (s\<lparr>f_pub := http_Error ''rhttp/proxy: tunnel disconnected'' 502 (f_pub s)\<rparr>))
          else None
      | WResp \<Rightarrow>
          if \<not> cs_done cs then None
          else (case cs_respErr cs of
                  Some e \<Rightarrow>
                    map_option (Pair False)
                      (wait_pump L sid drain
                        (s\<lparr>f_pub := http_Error (''rhttp/proxy: stream failed: '' @ estr e) 502 (f_pub s)\<rparr>))
                | None \<Rightarrow> Some (True, s)))"

subsection \<open>Copying the response\<close>

text \<open>One turn of the copy loop: what happens until the read returns, and whether the public write fails. A read that
  would park takes the next turn.\<close>

record copy_turn =
  ct_ops :: "fwd_op list"
  ct_werr :: bool

fun copy_body :: "H2Lib \<Rightarrow> uint32 \<Rightarrow> ptr \<Rightarrow> copy_turn list \<Rightarrow> fstate \<Rightarrow> (gerr option \<times> fstate) option" where
  "copy_body L sid p [] s = None"
| "copy_body L sid p (t # ts) s =
     (let s1 = meanwhile L sid (ct_ops t) s in
      case mem_Read (16 * 1024) p (lk_mem (f_w s1)) of
        (RBlock, m) \<Rightarrow> copy_body L sid p ts s1
      | (RErr err, m) \<Rightarrow> Some (Some err, s1\<lparr>f_w := (f_w s1)\<lparr>lk_mem := m\<rparr>\<rparr>)
      | (ROk bs, m) \<Rightarrow>
          let s2 = s1\<lparr>f_w := (f_w s1)\<lparr>lk_mem := m\<rparr>\<rparr>
          in if bs = [] then copy_body L sid p ts s2
             else if ct_werr t then Some (None, s2\<lparr>f_w := on_conn (SendRSTStream sid ErrCodeCancel) (f_w s2)\<rparr>)
             else copy_body L sid p ts (s2\<lparr>f_pub := pub_Write bs (f_pub s2)\<rparr>))"

text \<open>\<open>writeResponse\<close>: the first component says whether it returned; it does not when \<open>WriteHeader\<close> panics. The second is the
  error that ended the body, \<open>None\<close> if it was a public write.\<close>

definition writeResponse ::
  "H2Lib \<Rightarrow> copy_turn list \<Rightarrow> uint32 \<Rightarrow> clientStream \<Rightarrow> fstate \<Rightarrow> (bool \<times> gerr option \<times> fstate) option" where
  "writeResponse L ts sid cs s =
     (let pub1 = (f_pub s)\<lparr>pb_Header := copy_headers (\<lambda>_. False) (cs_respHeader cs) (pb_Header (f_pub s))\<rparr>;
          status = (if cs_respStatus cs = 0 then 502 else cs_respStatus cs)
      in case pub_WriteHeader status pub1 of
           None \<Rightarrow> Some (False, None, s\<lparr>f_pub := pub1\<rparr>)
         | Some pub2 \<Rightarrow> map_option (Pair True) (copy_body L sid (cs_h2 cs) ts (s\<lparr>f_pub := pub2\<rparr>)))"

subsection \<open>forward\<close>

text \<open>What a run of \<open>forward\<close> depends on besides its arguments.\<close>

record script =
  fs_choice :: nat
  fs_now :: nat
  fs_mid :: "fwd_op list"
  fs_wait :: "fwd_op list"
  fs_wake :: wake
  fs_turns :: "copy_turn list"
  fs_drain :: "fwd_op list option"
  fs_end :: nat

definition add_inFlight :: "int \<Rightarrow> Worker \<Rightarrow> Worker" where
  "add_inFlight d w = w\<lparr>wk_inFlight := wk_inFlight w + d\<rparr>"

text \<open>The deferred functions.\<close>

definition forward_cleanup :: "nat \<Rightarrow> uint32 \<Rightarrow> ptr \<Rightarrow> Worker \<Rightarrow> Worker" where
  "forward_cleanup now sid p w =
     (let w1 = on_conn (RemoveStream now sid) w;
          w2 = deregisterStream sid w1
      in add_inFlight (- 1) (w2\<lparr>lk_mem := Release p (lk_mem w2)\<rparr>))"

definition open_status :: "gerr \<Rightarrow> int" where
  "open_status err = (if err = ErrTunnelSaturated \<or> err = ErrTunnelDraining then 503 else 502)"

text \<open>\<open>forward\<close> on the worker that was picked. The result says how the body ended, if it was copied at all.\<close>

definition forward_worker ::
  "H2Lib \<Rightarrow> (gerr \<Rightarrow> string) \<Rightarrow> script \<Rightarrow> PubRequest \<Rightarrow> Worker \<Rightarrow> Public \<Rightarrow> (gerr option \<times> fstate) option" where
  "forward_worker L estr sc req w pub =
     (case openForward L (fs_choice sc) (fs_now sc) (fs_mid sc) req (add_inFlight 1 w) of
        (Inl err, w1) \<Rightarrow>
          Some (None, \<lparr>f_w = add_inFlight (- 1) w1,
            f_pub = http_Error (''rhttp/proxy: failed to open tunnel stream: '' @ estr err) (open_status err) pub, f_in = []\<rparr>)
      | (Inr sid, w1) \<Rightarrow>
          let s2 = meanwhile L sid (fs_wait sc) \<lparr>f_w = w1, f_pub = pub, f_in = []\<rparr> in
          case getStream sid (f_w s2) of
            None \<Rightarrow> None
          | Some cs \<Rightarrow>
              let fin = (\<lambda>s. s\<lparr>f_w := forward_cleanup (fs_end sc) sid (cs_h2 cs) (f_w s)\<rparr>) in
              case waitForResponseHeaders L estr (fs_wake sc) (fs_drain sc) sid cs s2 of
                None \<Rightarrow> None
              | Some (False, s3) \<Rightarrow> Some (None, fin s3)
              | Some (True, s3) \<Rightarrow>
                  (case writeResponse L (fs_turns sc) sid cs s3 of
                     None \<Rightarrow> None
                   | Some (False, r, s4) \<Rightarrow> Some (None, fin s4)
                   | Some (True, r, s4) \<Rightarrow>
                       (case wait_pump L sid (fs_drain sc) s4 of
                          None \<Rightarrow> None
                        | Some s5 \<Rightarrow> Some (r, fin s5))))"

definition forward ::
  "H2Lib \<Rightarrow> (gerr \<Rightarrow> string) \<Rightarrow> script \<Rightarrow> PubRequest \<Rightarrow> 'q Proxy \<Rightarrow> Public \<Rightarrow> ('q Proxy \<times> Public) option" where
  "forward L estr sc req p pub =
     (let (picked, q) = pr_selector p (pr_pick p) (pr_heap p) (availableWorkers p);
          p1 = p\<lparr>pr_pick := q\<rparr>
      in case picked of
           None \<Rightarrow> Some (p1, http_Error ''no worker attached'' 503 pub)
         | Some t \<Rightarrow>
             map_option (\<lambda>(r, s). (put_worker t (f_w s) p1, f_pub s)) (forward_worker L estr sc req (pr_heap p1 t) pub))"

section \<open>Forwarded headers\<close>

lemma upperChar_idem [simp]: "upperChar (upperChar c) = upperChar c"
proof (cases "isLower c")
  case True
  have "\<not> isLower (upperChar c)" using of_char_upper [OF True] True unfolding isLower_def by linarith
  then show ?thesis by (simp add: upperChar_def [of "upperChar c"])
qed (simp add: upperChar_def)

lemma canonical_case_idem: "canonical_case up (canonical_case up s) = canonical_case up s"
proof (induction s arbitrary: up)
  case (Cons c s)
  then show ?case by (cases up) (simp_all add: Let_def)
qed simp

lemma valid_case: "validHeaderFieldByte c \<Longrightarrow> validHeaderFieldByte (upperChar c) \<and> validHeaderFieldByte (lowerChar c)"
proof
  assume v: "validHeaderFieldByte c"
  show "validHeaderFieldByte (upperChar c)"
  proof (cases "isLower c")
    case True
    have "isUpper (upperChar c)" using of_char_upper [OF True] True unfolding isUpper_def isLower_def by linarith
    then show ?thesis by (simp add: validHeaderFieldByte_def)
  qed (simp add: upperChar_def v)
  show "validHeaderFieldByte (lowerChar c)"
  proof (cases "isUpper c")
    case True
    have "isLower (lowerChar c)" using of_char_lower [OF True] True unfolding isUpper_def isLower_def by linarith
    then show ?thesis by (simp add: validHeaderFieldByte_def)
  qed (simp add: lowerChar_def v)
qed

lemma valid_canonical_case: "list_all validHeaderFieldByte s \<Longrightarrow> list_all validHeaderFieldByte (canonical_case up s)"
  by (induction up s rule: canonical_case.induct) (simp_all add: Let_def valid_case)

lemma Canonical_idem: "CanonicalMIMEHeaderKey (CanonicalMIMEHeaderKey s) = CanonicalMIMEHeaderKey s"
  by (simp add: CanonicalMIMEHeaderKey_def valid_canonical_case canonical_case_idem)

lemma add_values_fold: "add_values k vv h = fold (\<lambda>v h. header_append h (CanonicalMIMEHeaderKey k) v) vv h"
  by (induction k vv h rule: add_values.induct) (simp_all add: Header_Add_def)

text \<open>Copying a header map into another with no name in common appends what is not skipped, in order.\<close>

lemma copy_headers_filter:
  assumes "header_wf h" "fst ` set h \<inter> fst ` set h0 = {}"
  shows "copy_headers skip h h0 = h0 @ filter (\<lambda>(k, vv). \<not> skip k) h"
  using assms
proof (induction skip h h0 rule: copy_headers.induct)
  case (2 skip k vv r h0)
  have wf: "header_wf r" "CanonicalMIMEHeaderKey (ToLower k) = k" "vv \<noteq> []" "k \<notin> fst ` set r" "k \<notin> fst ` set h0"
    "fst ` set r \<inter> fst ` set h0 = {}"
    using 2(2,3) by (auto simp: header_wf_def)
  have "CanonicalMIMEHeaderKey k = k" using Canonical_idem [of "ToLower k"] wf(2) by simp
  then have "add_values k vv h0 = h0 @ [(k, vv)]" using header_append_key [OF wf(5,3)] by (simp add: add_values_fold)
  then show ?case using 2(1) wf by (cases "skip k") auto
qed simp

lemma forwarded_header:
  assumes "header_wf (q_Header req)"
  shows "buildForwardedHeader req = filter (\<lambda>(k, vv). \<not> isHopByHop k) (q_Header req)" "header_wf (buildForwardedHeader req)"
proof -
  show b: "buildForwardedHeader req = filter (\<lambda>(k, vv). \<not> isHopByHop k) (q_Header req)"
    using copy_headers_filter [OF assms, of "[]"] by (simp add: buildForwardedHeader_def)
  show "header_wf (buildForwardedHeader req)"
    using assms by (auto simp: b header_wf_def distinct_map_filter)
qed

section \<open>What the others leave alone\<close>

lemma on_fields [simp]:
  "wk_streams (on_conn f w) = wk_streams w" "wk_inFlight (on_conn f w) = wk_inFlight w" "wk_down (on_conn f w) = wk_down w"
  "wk_streams (on_link g w) = wk_streams w" "wk_inFlight (on_link g w) = wk_inFlight w" "wk_down (on_link g w) = wk_down w"
  "lk_conn (on_conn f w) = f (lk_conn w)" "lk_mem (on_conn f w) = lk_mem w"
  by (simp_all add: on_conn_def on_link_def Let_def split: prod.splits)

lemma cs_h2_same [simp]: "cs_h2 (cs_fail e cs) = cs_h2 cs" "cs_h2 (cs_deliver st h cs) = cs_h2 cs"
  by (simp_all add: cs_fail_def cs_deliver_def)

lemma teardown_regs:
  assumes "regs_ok w"
  shows "regs_ok (tunnel_teardown L n w)"
proof -
  define w1 where "w1 = on_conn (\<lambda>c. c\<lparr>c_Send := snd (MarkDead (c_Send c))\<rparr>) w"
  define w2 where "w2 = failAllStreams ErrConnClosed w1"
  define w3 where "w3 = w2\<lparr>lk_mem := FailAllStreams ErrConnClosed (lk_conn w2) (lk_mem w2)\<rparr>"
  define w4 where "w4 = on_conn (\<lambda>c. snd (SendGoAway L 0 ErrCodeNo c)) w3"
  have 1: "regs_ok w1" unfolding w1_def using regs_cm [OF assms]
    by (intro regs_ok_on_conn [OF assms]) (simp_all add: cm_ok_def conn_ok_def registry_ok_def drain_ok_def MarkDead_def)
  have ids: "\<And>p. st_ID (m_stream (fold (\<lambda>(s, q). mem_FailBody e q) xs m) p) = st_ID (m_stream m p)"
    "m_streamPool (fold (\<lambda>(s, q). mem_FailBody e q) xs m) = m_streamPool m" for e m and xs :: "(uint32 \<times> ptr) list"
    by (induction xs arbitrary: m) (auto simp: mem_op_frames)
  have idc: "\<And>p. st_ID (m_stream (fold (\<lambda>(s, q). mem_FailBody e (cs_h2 q)) xs m) p) = st_ID (m_stream m p)"
    "m_streamPool (fold (\<lambda>(s, q). mem_FailBody e (cs_h2 q)) xs m) = m_streamPool m" for e m and xs :: "(uint32 \<times> clientStream) list"
    by (induction xs arbitrary: m) (auto simp: mem_op_frames)
  have "regs_ok (w1\<lparr>wk_streams := map (\<lambda>(sid, cs). (sid, cs_fail ErrConnClosed cs)) (wk_streams w1)\<rparr>)"
    using 1 by (simp add: regs_ok_def case_prod_unfold comp_def)
  from regs_ok_mem [OF this, of "fold (\<lambda>(sid, cs). mem_FailBody ErrConnClosed (cs_h2 cs)) (wk_streams w1) (lk_mem w1)"]
  have 2: "regs_ok w2" by (simp add: w2_def failAllStreams_def idc)
  have 3: "regs_ok w3" unfolding w3_def by (rule regs_ok_mem [OF 2]) (simp_all add: FailAllStreams_def ids)
  have 4: "regs_ok w4"
  proof -
    obtain r c where s: "SendGoAway L 0 ErrCodeNo (lk_conn w3) = (r, c)" by (metis prod.exhaust)
    then show ?thesis unfolding w4_def using submit_worker [OF regs_cm [OF 3]]
      by (intro regs_ok_on_conn [OF 3]) (simp_all add: SendGoAway_def)
  qed
  have "regs_ok (on_conn (ShutdownWriter L n) w4)"
  proof (rule regs_ok_on_conn [OF 4])
    show "c_streams (ShutdownWriter L n (lk_conn w4)) = c_streams (lk_conn w4)"
      by (rule shutdown_fields(1) [OF regs_cm [OF 4]])
    have k: "cache_ok ToLower (c_lowerNames (lk_conn w4))" using regs_cm [OF 4] by (simp add: cm_ok_def conn_ok_def)
    obtain x c3 where wl: "writer_loop L (take n (c_writeQ (lk_conn w4))) (lk_conn w4) = (x, c3)" by (metis prod.exhaust)
    have "unowned (ShutdownWriter L n (lk_conn w4)) = unowned (lk_conn w4)"
      "cache_ok ToLower (c_lowerNames (ShutdownWriter L n (lk_conn w4)))"
      using writer_loop_spec [OF k wl] wl k by (auto simp: ShutdownWriter_def unowned_def split: option.splits)
    then show "cm_ok (ShutdownWriter L n (lk_conn w4), lk_mem w4)" by (rule unowned_cm_ok [OF regs_cm [OF 4]])
  qed
  then show ?thesis
    by (simp add: tunnel_teardown_def Let_def w4_def [symmetric] w3_def [symmetric] w2_def [symmetric] w1_def [symmetric]
        Worker_detach_def regs_ok_def)
qed

lemma fwd_apply_regs: "regs_ok w \<Longrightarrow> regs_ok (fwd_apply L e w)"
  by (cases e) (simp_all add: proxy_step_regs tunnel_frame_regs teardown_regs)

lemma fwd_run_regs: "regs_ok w \<Longrightarrow> regs_ok (fwd_run L owns es w)"
  unfolding fwd_run_def by (induction es arbitrary: w) (simp_all add: fwd_step_def fwd_apply_regs)

lemma openStream_frame:
  "wk_inFlight (snd (openStream k now iw sh w)) = wk_inFlight w" "wk_down (snd (openStream k now iw sh w)) = wk_down w"
  by (simp_all add: openStream_def Let_def split: prod.splits option.splits)

lemma openStream_streams:
  assumes "fst (NextStreamID (lk_conn w)) \<noteq> sid"
  shows "getStream sid (snd (openStream k now iw sh w)) = getStream sid w"
  using assms
  by (auto simp: openStream_def getStream_def Let_def update_conv' delete_conv' split: prod.splits option.splits)

lemma take_response_frame:
  "wk_inFlight (snd (take_response res w)) = wk_inFlight w"
  by (simp add: take_response_def deliverResponse_def deliverHeaders_def Let_def split: sum.splits option.splits prod.splits)

lemma frame_inFlight: "wk_inFlight (snd (tunnel_frame L k now f w)) = wk_inFlight w"
  by (cases f)
    (simp_all add: tunnel_frame_def handleProxyFrame_def take_response_frame fail_def split: prod.splits option.splits)

lemma fwd_apply_inFlight: "wk_inFlight (fwd_apply L e w) = wk_inFlight w"
proof (cases e)
  case (FOp x)
  show ?thesis
  proof (cases x)
    case (POp t)
    then show ?thesis using FOp
      by (cases t) (simp_all add: openStream_frame give_up_def deregisterStream_def split: option.splits)
  next
    case (PMem m)
    then show ?thesis using FOp by (cases m) simp_all
  qed
next
  case (FDown n)
  then show ?thesis by (simp add: tunnel_teardown_def Worker_detach_def failAllStreams_def Let_def)
qed (simp add: frame_inFlight)

lemma fwd_run_inFlight [simp]: "wk_inFlight (fwd_run L owns es w) = wk_inFlight w"
  unfolding fwd_run_def by (induction es arbitrary: w) (simp_all add: fwd_step_def fwd_apply_inFlight)

text \<open>A client stream stays registered, with its stream, until its forwarder gives it up.\<close>

definition keeps_stream :: "uint32 \<Rightarrow> Worker \<Rightarrow> Worker \<Rightarrow> bool" where
  "keeps_stream sid w w' \<longleftrightarrow> map_option cs_h2 (getStream sid w') = map_option cs_h2 (getStream sid w)"

lemma keeps_same: "wk_streams w' = wk_streams w \<Longrightarrow> keeps_stream sid w w'"
  by (simp add: keeps_stream_def getStream_def)

lemma deliverResponse_keeps: "keeps_stream sid w (deliverResponse d w)"
  by (auto simp: keeps_stream_def deliverResponse_def deliverHeaders_def getStream_def update_conv' Let_def
      split: option.splits prod.splits)

lemma take_response_keeps: "keeps_stream sid w (snd (take_response res w))"
  using deliverResponse_keeps [of sid "w\<lparr>lk_conn := snd res\<rparr>"]
  by (auto simp: take_response_def keeps_stream_def getStream_def Let_def split: sum.splits option.splits)

lemma frame_keeps: "keeps_stream sid w (snd (tunnel_frame L k now f w))"
proof (cases f)
  case (FRSTStream s code)
  have "keeps_stream sid w (fail ErrStreamReset s w)"
    by (auto simp: keeps_stream_def fail_def getStream_def update_conv' split: option.splits)
  then show ?thesis using FRSTStream
    by (simp add: tunnel_frame_def handleProxyFrame_def keeps_stream_def getStream_def)
qed (auto simp: tunnel_frame_def handleProxyFrame_def take_response_keeps intro: keeps_same split: prod.splits option.splits)

lemma fwd_step_keeps: "keeps_stream sid w (fwd_step L (forwarder_owns sid) e w)"
proof (cases "forwarder_owns sid w e")
  case False
  show ?thesis
  proof (cases e)
    case (FOp x)
    show ?thesis
    proof (cases x)
      case (POp t)
      then show ?thesis using FOp False
        by (cases t) (auto simp: fwd_step_def keeps_stream_def openStream_streams [unfolded getStream_def] give_up_def
            deregisterStream_def getStream_def delete_conv' split: option.splits)
    next
      case (PMem m)
      then show ?thesis using FOp False by (cases m) (auto simp: fwd_step_def intro: keeps_same)
    qed
  next
    case (FFrame k now f)
    then show ?thesis using False by (simp add: fwd_step_def frame_keeps)
  next
    case (FDown n)
    have "map_of (map (\<lambda>(sid, cs). (sid, cs_fail er cs)) xs) sid = map_option (cs_fail er) (map_of xs sid)" for er and xs :: "(uint32 \<times> clientStream) list"
      by (simp add: map_of_map)
    then show ?thesis using FDown False
      by (simp add: fwd_step_def keeps_stream_def tunnel_teardown_def Worker_detach_def failAllStreams_def getStream_def Let_def
          option.map_comp comp_def)
  qed
qed (simp add: fwd_step_def keeps_same)

section \<open>What a forwarder has in hand\<close>

text \<open>Its stream is registered on both sides with the object it acquired, and it is counted.\<close>

definition carries :: "uint32 \<Rightarrow> ptr \<Rightarrow> int \<Rightarrow> Worker \<Rightarrow> bool" where
  "carries sid p n w \<longleftrightarrow> regs_ok w \<and> map_option cs_h2 (getStream sid w) = Some p \<and> wk_inFlight w = n"

lemma carries_meanwhile:
  assumes "carries sid p n (f_w s)"
  shows "carries sid p n (f_w (meanwhile L sid es s))"
  using assms unfolding meanwhile_def
proof (induction es arbitrary: s)
  case (Cons e es)
  have "carries sid p n (fwd_step L (forwarder_owns sid) e (f_w s))"
    using Cons.prems fwd_step_keeps [of sid "f_w s" L e] fwd_apply_regs [of "f_w s" L e] fwd_apply_inFlight [of L e "f_w s"]
    by (auto simp: carries_def keeps_stream_def fwd_step_def)
  then show ?case using Cons.IH [of "meanwhile1 L sid e s"] by (simp add: meanwhile1_def)
qed simp

lemma carries_rst: "carries sid p n w \<Longrightarrow> carries sid p n (on_conn (SendRSTStream s code) w)"
  using regs_ok_on_conn [of w "SendRSTStream s code"] submitAsync_cm_ok [OF regs_cm, of w]
  by (simp add: carries_def getStream_def SendRSTStream_def conn_frame)

lemma carries_read:
  assumes "carries sid p n w" "mem_Read len q (lk_mem w) = (r, m)"
  shows "carries sid p n (w\<lparr>lk_mem := m\<rparr>)"
proof -
  have "m = snd (mem_Read len q (lk_mem w))" using assms(2) by simp
  then have "regs_ok (w\<lparr>lk_mem := m\<rparr>)"
    using assms(1) by (intro regs_ok_mem) (simp_all add: carries_def mem_op_frames)
  then show ?thesis using assms(1) by (simp add: carries_def getStream_def)
qed

lemma carries_copy:
  "copy_body L sid q ts s = Some (r, s') \<Longrightarrow> carries sid p n (f_w s) \<Longrightarrow> carries sid p n (f_w s')"
proof (induction ts arbitrary: s)
  case (Cons t ts)
  define s1 where "s1 = meanwhile L sid (ct_ops t) s"
  have c1: "carries sid p n (f_w s1)" unfolding s1_def by (rule carries_meanwhile [OF Cons.prems(2)])
  obtain x m where x: "mem_Read (16 * 1024) q (lk_mem (f_w s1)) = (x, m)" by (metis prod.exhaust)
  note c2 = carries_read [OF c1 x]
  note b = Cons.prems(1) [simplified copy_body.simps Let_def, folded s1_def, unfolded x prod.case]
  show ?case
  proof (cases x)
    case RBlock
    then show ?thesis using b Cons.IH [OF _ c1] by simp
  next
    case (RErr e)
    then show ?thesis using b c2 by auto
  next
    case (ROk bs)
    then show ?thesis using b c2 Cons.IH carries_rst [OF c2] by (auto split: if_splits)
  qed
qed simp

lemma carries_wait_pump: "wait_pump L sid d s = Some s' \<Longrightarrow> carries sid p n (f_w s) \<Longrightarrow> carries sid p n (f_w s')"
  by (auto simp: wait_pump_def carries_meanwhile)

lemma carries_wait:
  "waitForResponseHeaders L estr wk d sid cs s = Some (b, s') \<Longrightarrow> carries sid p n (f_w s) \<Longrightarrow> carries sid p n (f_w s')"
  by (auto simp: waitForResponseHeaders_def carries_rst intro: carries_wait_pump
      split: wake.splits if_splits option.splits)

lemma carries_write:
  "writeResponse L ts sid cs s = Some (b, r, s') \<Longrightarrow> carries sid p n (f_w s) \<Longrightarrow> carries sid p n (f_w s')"
  by (auto simp: writeResponse_def Let_def dest: carries_copy split: option.splits)

lemma cleanup_give_up:
  assumes "getStream sid w = Some cs" "cs_h2 cs = p"
  shows "forward_cleanup now sid p w = add_inFlight (- 1) (give_up now sid w)"
  using assms by (simp add: forward_cleanup_def give_up_def deregisterStream_def on_conn_def add_inFlight_def Let_def)

lemma forward_cleanup_spec:
  assumes "carries sid p n w" "w' = forward_cleanup now sid p w"
  shows "regs_ok w'" "wk_inFlight w' = n - 1" "getStream sid w' = None" "GetStream sid (lk_conn w') = None"
    "p \<in> set (pfree (m_streamPool (lk_mem w')))"
proof -
  obtain cs where cs: "getStream sid w = Some cs" "cs_h2 cs = p" using assms(1) by (auto simp: carries_def)
  have w': "w' = add_inFlight (- 1) (give_up now sid w)" using cleanup_give_up [OF cs] assms(2) by simp
  have r: "regs_ok (give_up now sid w)" using assms(1) by (intro give_up_regs) (simp add: carries_def)
  then show rr: "regs_ok w'" by (simp add: w' add_inFlight_def regs_ok_def)
  have g: "give_up now sid w = (deregisterStream sid w)\<lparr>lk_conn := RemoveStream now sid (lk_conn w), lk_mem := Release p (lk_mem w)\<rparr>"
    using cs by (simp add: give_up_def)
  show n: "getStream sid w' = None" by (simp add: w' add_inFlight_def getStream_def g deregisterStream_def delete_conv')
  show "GetStream sid (lk_conn w') = None" using registries_agree(3) [OF rr, of sid] n by simp
  show "wk_inFlight w' = n - 1" using assms(1) by (simp add: w' add_inFlight_def g deregisterStream_def carries_def)
  show "p \<in> set (pfree (m_streamPool (lk_mem w')))"
    by (simp add: w' add_inFlight_def g Release_def Let_def pool_put_def split: prod.splits)
qed

lemma openStream_registered:
  "openStream k now iw sh w = (Inr sid, w1) \<Longrightarrow> \<exists>cs. getStream sid w1 = Some cs \<and> \<not> cs_done cs"
  by (auto simp: openStream_def getStream_def Let_def update_conv' split: prod.splits option.splits if_splits)

lemma openForward_spec:
  assumes "regs_ok w" "openForward L k now mid req w = (res, w1)"
  shows "regs_ok w1" "wk_inFlight w1 = wk_inFlight w"
    "res = Inr sid \<Longrightarrow> \<exists>cs. getStream sid w1 = Some cs \<and> carries sid (cs_h2 cs) (wk_inFlight w) w1"
proof -
  define w0 where "w0 = fwd_run L (\<lambda>_ _. False) mid w"
  obtain iw meth schm auth path h es where
    o: "openStream k now iw (\<lambda>sid. SendRequestHeaders L sid meth schm auth path h es) w0 = (res, w1)"
    using assms(2) by (auto simp: openForward_def Let_def w0_def)
  have r0: "regs_ok w0" unfolding w0_def by (rule fwd_run_regs [OF assms(1)])
  let ?i = "\<lambda>sid. zeroIntent\<lparr>wi_kind := wkReqHeaders, wi_streamID := sid, wi_method := meth,
       wi_scheme := schm, wi_authority := auth, wi_path := path, wi_header := h, wi_endStream := es\<rparr>"
  have "(\<lambda>sid. SendRequestHeaders L sid meth schm auth path h es) = (\<lambda>sid. submit L (?i sid))"
    by (intro ext) (simp add: SendRequestHeaders_def)
  then show r: "regs_ok w1" using openStream_regs [OF r0, of k now iw L ?i] o by simp
  show n: "wk_inFlight w1 = wk_inFlight w" using openStream_frame(1) [of k now iw _ w0] o by (metis fwd_run_inFlight snd_conv w0_def)
  show "\<exists>cs. getStream sid w1 = Some cs \<and> carries sid (cs_h2 cs) (wk_inFlight w) w1" if "res = Inr sid"
    using openStream_registered o that r n by (fastforce simp: carries_def)
qed

text \<open>Where the request headers of a successful \<open>openForward\<close> were sent.\<close>

lemma openForward_sent:
  assumes "openForward L k now mid req w = (Inr sid, w1)" "w0 = fwd_run L (\<lambda>_ _. False) mid w" "regs_ok w0"
  shows "\<exists>c. SendRequestHeaders L sid (q_Method req) (if q_TLS req then ''https'' else ''http'')
      (if q_Host req = [] then n_Host (q_URL req) else q_Host req)
      (if RequestURI (q_URL req) = [] then ''/'' else RequestURI (q_URL req))
      (buildForwardedHeader req) (bodyEmpty req) c = (None, lk_conn w1) \<and>
    c_wire c = c_wire (lk_conn w0) \<and> c_enc c = c_enc (lk_conn w0) \<and> c_writeQ c = c_writeQ (lk_conn w0) \<and> conn_ok c"
proof -
  have "conn_ok (lk_conn w0)" using regs_cm [OF assms(3)] by (simp add: cm_ok_def)
  then have "conn_ok (Conn_AddStream p m (snd (NextStreamID (lk_conn w0))))" for p m
    by (simp add: conn_ok_def Conn_AddStream_def NextStreamID_def Let_def)
  then show ?thesis using assms(1)
    by (auto simp: openForward_def assms(2) [symmetric] openStream_def Let_def Conn_AddStream_def NextStreamID_def
        split: prod.splits option.splits if_splits)
qed

lemma add_inFlight_regs [simp]: "regs_ok (add_inFlight d w) = regs_ok w" "wk_inFlight (add_inFlight d w) = wk_inFlight w + d"
  by (simp_all add: add_inFlight_def regs_ok_def)

text \<open>The two ways a forwarder ends: it could not open a stream, or it cleans up after one.\<close>

lemma forward_worker_cases:
  assumes "regs_ok w" "forward_worker L estr sc req w pub = Some (r, s')"
  obtains (refused) err w1 where
    "openForward L (fs_choice sc) (fs_now sc) (fs_mid sc) req (add_inFlight 1 w) = (Inl err, w1)" "regs_ok w1"
    "f_w s' = add_inFlight (- 1) w1" "wk_inFlight w1 = wk_inFlight w + 1"
    "f_pub s' = http_Error (''rhttp/proxy: failed to open tunnel stream: '' @ estr err) (open_status err) pub"
  | (served) sid w1 cs and s :: fstate where
    "openForward L (fs_choice sc) (fs_now sc) (fs_mid sc) req (add_inFlight 1 w) = (Inr sid, w1)"
    "getStream sid w1 = Some cs" "carries sid (cs_h2 cs) (wk_inFlight w + 1) (f_w s)"
    "f_w s' = forward_cleanup (fs_end sc) sid (cs_h2 cs) (f_w s)"
proof -
  obtain res w1 where o: "openForward L (fs_choice sc) (fs_now sc) (fs_mid sc) req (add_inFlight 1 w) = (res, w1)"
    by (metis prod.exhaust)
  note sp = openForward_spec [OF _ o, simplified, OF assms(1)]
  show thesis
  proof (cases res)
    case (Inl err)
    then show thesis using assms(2) o sp(1,2) by (intro refused [of err w1]) (auto simp: forward_worker_def)
  next
    case (Inr sid)
    from sp(3) [OF Inr] obtain cs where cs: "getStream sid w1 = Some cs" "carries sid (cs_h2 cs) (wk_inFlight w + 1) w1" by auto
    define s2 where "s2 = meanwhile L sid (fs_wait sc) \<lparr>f_w = w1, f_pub = pub, f_in = []\<rparr>"
    have c2: "carries sid (cs_h2 cs) (wk_inFlight w + 1) (f_w s2)"
      unfolding s2_def by (rule carries_meanwhile) (simp add: cs(2))
    then obtain cs2 where cs2: "getStream sid (f_w s2) = Some cs2" "cs_h2 cs2 = cs_h2 cs" by (auto simp: carries_def)
    from assms(2) obtain b s3 where
      w: "waitForResponseHeaders L estr (fs_wake sc) (fs_drain sc) sid cs2 s2 = Some (b, s3)"
      by (auto simp: forward_worker_def o Inr Let_def s2_def [symmetric] cs2 split: option.splits)
    note c3 = carries_wait [OF w c2]
    have "\<exists>s :: fstate. carries sid (cs_h2 cs) (wk_inFlight w + 1) (f_w s) \<and> f_w s' = forward_cleanup (fs_end sc) sid (cs_h2 cs) (f_w s)"
    proof (cases b)
      case False
      then show ?thesis using assms(2) c3 w
        by (intro exI [of _ s3]) (auto simp: forward_worker_def o Inr Let_def s2_def [symmetric] cs2)
    next
      case True
      from assms(2) obtain b' r' s4 where wr: "writeResponse L (fs_turns sc) sid cs2 s3 = Some (b', r', s4)"
        by (auto simp: forward_worker_def o Inr Let_def s2_def [symmetric] cs2 w True split: option.splits)
      note c4 = carries_write [OF wr c3]
      show ?thesis
      proof (cases b')
        case False
        then show ?thesis using assms(2) c4 w wr True
          by (intro exI [of _ s4]) (auto simp: forward_worker_def o Inr Let_def s2_def [symmetric] cs2)
      next
        case b': True
        from assms(2) obtain s5 where s5: "wait_pump L sid (fs_drain sc) s4 = Some s5"
          by (auto simp: forward_worker_def o Inr Let_def s2_def [symmetric] cs2 w True wr b' split: option.splits)
        then show ?thesis using assms(2) carries_wait_pump [OF s5 c4] w wr True b'
          by (intro exI [of _ s5]) (auto simp: forward_worker_def o Inr Let_def s2_def [symmetric] cs2)
      qed
    qed
    then show thesis using served [of sid w1 cs] o Inr cs(1) by blast
  qed
qed

section \<open>What the public side sees\<close>

text \<open>The final status, by the case that woke the forwarder and the state of its client stream then.\<close>

fun answer :: "wake \<Rightarrow> clientStream \<Rightarrow> int option set" where
  "answer WCtx cs = {None}"
| "answer WDown cs = {Some 502}"
| "answer WResp cs =
     (let st = (if cs_respStatus cs = 0 then 502 else cs_respStatus cs) in
      if cs_respErr cs \<noteq> None then {Some 502}
      else if st < 100 \<or> st > 999 then {None}
      else if 100 \<le> st \<and> st \<le> 199 \<and> st \<noteq> 101 then {None, Some 200}
      else {Some st})"

lemma http_Error_status: "pb_status pub = None \<Longrightarrow> 200 \<le> code \<Longrightarrow> code \<le> 999 \<Longrightarrow> pb_status (http_Error msg code pub) = Some code"
  by (simp add: http_Error_def pub_WriteHeader_def pub_Write_def Let_def)

lemma open_status_range: "200 \<le> open_status e" "open_status e \<le> 999"
  by (simp_all add: open_status_def)

lemma meanwhile_pub [simp]: "f_pub (meanwhile L sid es s) = f_pub s"
  unfolding meanwhile_def by (induction es arbitrary: s) (simp_all add: meanwhile1_def)

lemma wait_pump_pub: "wait_pump L sid d s = Some s' \<Longrightarrow> f_pub s' = f_pub s"
  by (auto simp: wait_pump_def)

lemma copy_status:
  "copy_body L sid q ts s = Some (r, s') \<Longrightarrow>
     pb_status (f_pub s') \<in> (case pb_status (f_pub s) of None \<Rightarrow> {None, Some 200} | Some st \<Rightarrow> {Some st})"
proof (induction ts arbitrary: s)
  case (Cons t ts)
  define s1 where "s1 = meanwhile L sid (ct_ops t) s"
  have p1: "f_pub s1 = f_pub s" by (simp add: s1_def)
  obtain x m where x: "mem_Read (16 * 1024) q (lk_mem (f_w s1)) = (x, m)" by (metis prod.exhaust)
  note b = Cons.prems(1) [simplified copy_body.simps Let_def, folded s1_def, unfolded x prod.case]
  show ?case
  proof (cases x)
    case RBlock
    then show ?thesis using b Cons.IH [of s1] p1 by simp
  next
    case (RErr e)
    then show ?thesis using b p1 by (auto split: option.splits)
  next
    case (ROk bs)
    let ?s2 = "s1\<lparr>f_w := (f_w s1)\<lparr>lk_mem := m\<rparr>\<rparr>"
    consider (nothing) "bs = []" | (werr) "bs \<noteq> []" "ct_werr t" | (wrote) "bs \<noteq> []" "\<not> ct_werr t" by blast
    then show ?thesis
    proof cases
      case nothing
      then show ?thesis using b ROk Cons.IH [of ?s2] p1 by simp
    next
      case werr
      then show ?thesis using b ROk p1 by (auto split: option.splits)
    next
      case wrote
      then show ?thesis using b ROk Cons.IH [of "?s2\<lparr>f_pub := pub_Write bs (f_pub ?s2)\<rparr>"] p1
        by (auto simp: pub_Write_def Let_def split: option.splits if_splits)
    qed
  qed
qed simp

lemma write_status:
  assumes "writeResponse L ts sid cs s = Some (b, r, s')" "pb_status (f_pub s) = None" "cs_respErr cs = None"
  shows "pb_status (f_pub s') \<in> answer WResp cs"
proof -
  let ?pub = "(f_pub s)\<lparr>pb_Header := copy_headers (\<lambda>_. False) (cs_respHeader cs) (pb_Header (f_pub s))\<rparr>"
  let ?st = "if cs_respStatus cs = 0 then 502 else cs_respStatus cs"
  show ?thesis
  proof (cases "pub_WriteHeader ?st ?pub")
    case None
    then have "f_pub s' = ?pub" "?st < 100 \<or> ?st > 999"
      using assms(1,2) by (auto simp: writeResponse_def Let_def pub_WriteHeader_def split: if_splits)
    then show ?thesis using assms(2,3) by (auto simp: Let_def)
  next
    case (Some pub2)
    then have c: "copy_body L sid (cs_h2 cs) ts (s\<lparr>f_pub := pub2\<rparr>) = Some (r, s')"
      using assms(1) by (auto simp: writeResponse_def Let_def)
    from copy_status [OF c] Some assms(2,3) show ?thesis
      by (auto simp: pub_WriteHeader_def Let_def split: if_splits)
  qed
qed

lemma wait_status:
  assumes "waitForResponseHeaders L estr wk d sid cs s = Some (b, s')" "pb_status (f_pub s) = None"
  shows "\<not> b \<Longrightarrow> pb_status (f_pub s') \<in> answer wk cs" "b \<Longrightarrow> s' = s \<and> wk = WResp \<and> cs_respErr cs = None"
  using assms
  by (auto simp: waitForResponseHeaders_def http_Error_status dest: wait_pump_pub split: wake.splits if_splits option.splits)

lemma forward_worker_answer:
  assumes "forward_worker L estr sc req w pub = Some (r, s')" "pb_status pub = None"
    "openForward L (fs_choice sc) (fs_now sc) (fs_mid sc) req (add_inFlight 1 w) = (Inr sid, w1)"
    "s2 = meanwhile L sid (fs_wait sc) \<lparr>f_w = w1, f_pub = pub, f_in = []\<rparr>"
  shows "\<exists>cs. getStream sid (f_w s2) = Some cs \<and> pb_status (f_pub s') \<in> answer (fs_wake sc) cs"
proof -
  note e = assms(1) [unfolded forward_worker_def assms(3), simplified Let_def, simplified, folded assms(4)]
  have p2: "pb_status (f_pub s2) = None" using assms(2) by (simp add: assms(4))
  obtain cs where cs: "getStream sid (f_w s2) = Some cs" using e by (auto split: option.splits)
  obtain b s3 where w: "waitForResponseHeaders L estr (fs_wake sc) (fs_drain sc) sid cs s2 = Some (b, s3)"
    using e by (auto simp: cs split: option.splits)
  note ws = wait_status [OF w p2]
  have "pb_status (f_pub s') \<in> answer (fs_wake sc) cs"
  proof (cases b)
    case False
    then have "f_pub s' = f_pub s3" using e by (auto simp: cs w)
    then show ?thesis using ws(1) [OF False] by simp
  next
    case True
    from e obtain b' r' s4 where wr: "writeResponse L (fs_turns sc) sid cs s3 = Some (b', r', s4)"
      by (auto simp: cs w True split: option.splits)
    have "f_pub s' = f_pub s4"
      using e by (cases b') (auto simp: cs w True wr dest: wait_pump_pub split: option.splits)
    then show ?thesis using write_status [OF wr] ws(2) [OF True] p2 by simp
  qed
  with cs show ?thesis by blast
qed

text \<open>A request whose client goes away while it waits.\<close>

definition sample_public_request :: PubRequest where
  "sample_public_request = \<lparr>q_Method = ''GET'', q_Host = ''example.org'',
     q_URL = \<lparr>n_Scheme = [], n_Opaque = [], n_Host = [], n_Path = ''/'', n_RawPath = [], n_ForceQuery = False, n_RawQuery = []\<rparr>,
     q_TLS = True, q_Header = [], q_Body = False, q_ContentLength = 0\<rparr>"

definition sample_script :: script where
  "sample_script = \<lparr>fs_choice = 0, fs_now = 0, fs_mid = [], fs_wait = [], fs_wake = WCtx, fs_turns = [], fs_drain = Some [], fs_end = 0\<rparr>"

definition fresh_public :: Public where
  "fresh_public = \<lparr>pb_Header = [], pb_status = None, pb_interim = [], pb_body = []\<rparr>"

lemma openStream_opens:
  assumes "\<not> Draining (lk_conn w)" "\<not> PeerMaxStreams (lk_conn w) \<le> of_nat (length (wk_streams w))"
    "NextStreamID (lk_conn w) = (n, c1)" "Acquire k n (c_self c1) iw (lk_mem w) = (p, m)" "fst (sh n (Conn_AddStream p m c1)) = None"
  shows "\<exists>w1. openStream k now iw sh w = (Inr n, w1)"
proof -
  obtain c3 where "sh n (Conn_AddStream p m c1) = (None, c3)" using assms(5) by (metis prod.collapse)
  then show ?thesis using assms(1-4) by (simp add: openStream_def)
qed

lemma sample_open: "\<exists>w1. openForward literal_lib 0 0 [] sample_public_request (add_inFlight 1 new_Worker) = (Inr 1, w1)"
proof -
  let ?w = "add_inFlight 1 new_Worker"
  obtain p m where a: "Acquire 0 1 0 (InitialStreamWindow (c_Send (lk_conn ?w))) (lk_mem ?w) = (p, m)" by (metis prod.exhaust)
  define c where "c = Conn_AddStream p m ((lk_conn ?w)\<lparr>c_nextStreamID := 1\<rparr>)"
  have n: "NextStreamID (lk_conn ?w) = (1, (lk_conn ?w)\<lparr>c_nextStreamID := 1\<rparr>)"
    by (simp add: NextStreamID_def add_inFlight_def new_Worker_def init_Conn_def)
  have c: "c_writeErr c = None" "cache_ok ToLower (c_lowerNames c)"
    by (simp_all add: c_def Conn_AddStream_def add_inFlight_def new_Worker_def init_Conn_def CommonNames_ok)
  have s: "fst (SendRequestHeaders literal_lib 1 x1 x2 x3 x4 x5 x6 c) = None" for x1 x2 x3 x4 x5 x6
    unfolding SendRequestHeaders_def by (subst submit_ok) (simp_all add: c)
  have g: "\<not> Draining (lk_conn ?w)" "\<not> PeerMaxStreams (lk_conn ?w) \<le> of_nat (length (wk_streams ?w))"
    by (simp_all add: Draining_def PeerMaxStreams_def add_inFlight_def new_Worker_def init_Conn_def NoStreamLimit_def)
  have "c_self ((lk_conn ?w)\<lparr>c_nextStreamID := 1\<rparr>) = 0" by (simp add: add_inFlight_def new_Worker_def init_Conn_def)
  then have a': "Acquire 0 1 (c_self ((lk_conn ?w)\<lparr>c_nextStreamID := 1\<rparr>)) (InitialStreamWindow (c_Send (lk_conn ?w))) (lk_mem ?w) = (p, m)"
    using a by simp
  have r: "fwd_run literal_lib (\<lambda>_ _. False) [] ?w = ?w" by (simp add: fwd_run_def)
  show ?thesis unfolding openForward_def Let_def r
    by (rule openStream_opens [OF g n a']) (simp add: c_def [symmetric] s)
qed

lemma sample_forward: "\<exists>r s. forward_worker literal_lib estr sample_script sample_public_request new_Worker pub = Some (r, s)"
proof -
  obtain w1 where o: "openForward literal_lib 0 0 [] sample_public_request (add_inFlight 1 new_Worker) = (Inr 1, w1)"
    using sample_open by blast
  have "regs_ok (add_inFlight 1 new_Worker)" using new_Worker_ok(1) by (simp add: worker_ok_def)
  from openForward_spec(3) [OF this o refl] obtain cs where "getStream 1 w1 = Some cs" by blast
  then show ?thesis using o
    by (simp add: forward_worker_def sample_script_def meanwhile_def waitForResponseHeaders_def wait_pump_def)
qed

section \<open>Properties\<close>

text \<open>
  C16. A forwarder leaves nothing behind. However it ends, with a response, an error, a cancelled request, a lost tunnel or a
  panic, and whatever goes on on the tunnel meanwhile, once \<open>forward\<close> has returned the worker's in-flight count is what it
  was, the registries of proxy and connection agree, and the stream it opened is in neither of them and is back
  in the pool.
\<close>

theorem forward_cleans_up:
  assumes "regs_ok w" "forward_worker L estr sc req w pub = Some (r, s')"
  shows "regs_ok (f_w s') \<and> InFlight (f_w s') = InFlight w \<and>
    (\<forall>sid w1. openForward L (fs_choice sc) (fs_now sc) (fs_mid sc) req (add_inFlight 1 w) = (Inr sid, w1) \<longrightarrow>
       getStream sid (f_w s') = None \<and> GetStream sid (lk_conn (f_w s')) = None \<and>
       (\<exists>cs. getStream sid w1 = Some cs \<and> cs_h2 cs \<in> set (pfree (m_streamPool (lk_mem (f_w s'))))))"
  using assms
proof (cases rule: forward_worker_cases)
  case (refused err w1)
  then show ?thesis by (simp add: InFlight_def)
next
  case (served sid w1 cs s)
  note c = forward_cleanup_spec [OF served(3,4)]
  show ?thesis using c served(1,2) by (auto simp: InFlight_def)
qed

theorem forward_cleans_up_witness:
  "\<exists>r s'. forward_worker literal_lib (\<lambda>_. []) sample_script sample_public_request new_Worker fresh_public = Some (r, s') \<and>
     InFlight (f_w s') = InFlight new_Worker \<and> getStream 1 (f_w s') = None \<and> regs_ok (f_w s')"
proof -
  obtain r s' where f: "forward_worker literal_lib (\<lambda>_. []) sample_script sample_public_request new_Worker fresh_public = Some (r, s')"
    using sample_forward by blast
  obtain w1 where o: "openForward literal_lib 0 0 [] sample_public_request (add_inFlight 1 new_Worker) = (Inr 1, w1)"
    using sample_open by blast
  have "regs_ok new_Worker" using new_Worker_ok(1) by (simp add: worker_ok_def)
  from forward_cleans_up [OF this f] o f show ?thesis by (simp add: sample_script_def)
qed



end
