(* ===== verification/P_Pump.thy ===== *)
theory P_Pump
  imports P_Forward
begin

text \<open>
  The request body on its way to the worker (\<open>streamRequestBody\<close>, \<open>internal/proxy/forward.go\<close>): what the DATA frames of a
  stream carry, in any interleaving with the rest of the tunnel.
\<close>

section \<open>The DATA frames of a stream\<close>

fun sent_data :: "uint32 \<Rightarrow> oframe list \<Rightarrow> (byte list \<times> bool) list" where
  "sent_data sid [] = []"
| "sent_data sid (OData s es bs # fs) = (if s = sid then (bs, es) # sent_data sid fs else sent_data sid fs)"
| "sent_data sid (f # fs) = sent_data sid fs"

lemma sent_data_append [simp]: "sent_data sid (fs @ gs) = sent_data sid fs @ sent_data sid gs"
  by (induction sid fs rule: sent_data.induct) simp_all

lemma sent_data_intent: "\<not> data_intent sid i \<Longrightarrow> sent_data sid (intent_frames L h i) = []"
  by (cases "wi_kind i") (simp_all add: data_intent_def intent_frames_def)

text \<open>Between \<open>c\<close> and \<open>c'\<close> the connection has committed to the DATA frames \<open>ds\<close> on the stream, unless its writer has failed.\<close>

definition commits :: "H2Lib \<Rightarrow> uint32 \<Rightarrow> Conn \<Rightarrow> Conn \<Rightarrow> (byte list \<times> bool) list \<Rightarrow> bool" where
  "commits L sid c c' ds \<longleftrightarrow>
     (c_writeErr c' = None \<longrightarrow>
        c_writeErr c = None \<and> sent_data sid (outgoing L c') = sent_data sid (outgoing L c) @ ds)"

lemma commits_trans: "commits L sid c c1 ds \<Longrightarrow> commits L sid c1 c2 es \<Longrightarrow> commits L sid c c2 (ds @ es)"
  by (auto simp: commits_def)

lemma commits_quiet: "commits L sid c c1 [] \<Longrightarrow> commits L sid c1 c2 es \<Longrightarrow> commits L sid c c2 es"
  using commits_trans [of L sid c c1 "[]" c2 es] by simp

lemma commits_more: "commits L sid c c1 ds \<Longrightarrow> commits L sid c1 c2 [] \<Longrightarrow> commits L sid c c2 ds"
  using commits_trans [of L sid c c1 ds c2 "[]"] by simp

lemma commits_dead: "c_writeErr c' \<noteq> None \<Longrightarrow> commits L sid c c' ds"
  by (cases "c_writeErr c'") (simp_all add: commits_def)

text \<open>Operations that leave the write side alone.\<close>

definition write_side :: "Conn \<Rightarrow> oframe list \<times> writeIntent list \<times> enc_op list \<times> gerr option" where
  "write_side c = (c_wire c, c_writeQ c, c_enc c, c_writeErr c)"

lemma commits_same: "write_side c' = write_side c \<Longrightarrow> commits L sid c c' []"
  by (simp add: commits_def write_side_def outgoing_def)

lemma commits_refl [simp]: "commits L sid c c []"
  by (simp add: commits_same)

lemma commits_async: "\<not> data_intent sid i \<Longrightarrow> commits L sid c (submitAsync i c) []"
  using submitAsync_outgoing(1) [of c L i] by (simp add: commits_def conn_frame sent_data_intent)

lemma commits_submit:
  assumes "cache_ok ToLower (c_lowerNames c)" "submit L i c = (r, c')"
  shows "commits L sid c c' (sent_data sid (intent_frames L (enc_after c) i))" "r \<noteq> None \<Longrightarrow> c_writeErr c' \<noteq> None"
    "r = None \<Longrightarrow> c_writeErr c' = None"
proof -
  have d: "r \<noteq> None \<Longrightarrow> c_writeErr c' \<noteq> None" using assms by (cases rule: submit_cases) auto
  then show "r \<noteq> None \<Longrightarrow> c_writeErr c' \<noteq> None" .
  show "r = None \<Longrightarrow> c_writeErr c' = None" using assms by (cases rule: submit_cases) auto
  show "commits L sid c c' (sent_data sid (intent_frames L (enc_after c) i))"
  proof (cases r)
    case None
    have "c_writeErr c = None" using assms None by (cases rule: submit_cases) auto
    then show ?thesis using submit_outgoing(1) [of c L i c'] assms None by (simp add: commits_def)
  qed (use d in \<open>simp add: commits_dead\<close>)
qed

lemma commits_runWriter:
  assumes "cache_ok ToLower (c_lowerNames c)"
  shows "commits L sid c (runWriter L c) []"
proof (cases "c_writeErr c")
  case None
  obtain r c' where w: "writer_loop L (c_writeQ c) c = (r, c')" by (metis prod.exhaust)
  show ?thesis
  proof (cases r)
    case None': None
    then have "c_wire c' = c_wire c @ frames_of L (c_enc c) (c_writeQ c)"
      using writer_loop_spec [OF assms w] by auto
    then show ?thesis using w None None' by (simp add: commits_def runWriter_def outgoing_def)
  qed (use w None in \<open>simp add: runWriter_def commits_dead\<close>)
qed (simp add: runWriter_def)

section \<open>Nobody else sends DATA on the stream\<close>

lemma write_side_simps [simp]:
  "write_side (RemoveStream now s c) = write_side c" "write_side (Conn_AddStream p m c) = write_side c"
  "write_side (BeginDrain now c) = write_side c" "write_side (HandlePingAck d c) = write_side c"
  "write_side (c\<lparr>c_Send := sc\<rparr>) = write_side c" "write_side (c\<lparr>c_nextStreamID := n\<rparr>) = write_side c"
  by (simp_all add: write_side_def RemoveStream_def Conn_AddStream_def BeginDrain_def finishDrain_def HandlePingAck_def Let_def)

lemma write_side_emit: "write_side (emitHeader f c) = write_side c"
  by (simp add: emitHeader_def write_side_def Let_def split: option.splits)

lemma write_side_fold_emit: "write_side (fold emitHeader fs c) = write_side c"
  by (induction fs arbitrary: c) (simp_all add: write_side_emit)

lemma write_side_decode: "write_side (snd (decodeBlock L sid block es c)) = write_side c"
proof -
  let ?c1 = "c\<lparr>c_scratchMethod := [], c_scratchPath := [], c_scratchAuthority := [], c_scratchStatus := [], c_scratchHeader := []\<rparr>"
  obtain fs ok where w: "hpWrite L (c_dec ?c1) block = (fs, ok)" by (metis prod.exhaust)
  let ?c2 = "fold emitHeader fs (?c1\<lparr>c_dec := c_dec ?c1 @ [block]\<rparr>)"
  have "write_side (?c2\<lparr>c_scratchHeader := []\<rparr>) = write_side ?c2" by (simp add: write_side_def)
  also have "\<dots> = write_side c" unfolding write_side_fold_emit by (simp add: write_side_def)
  finally have "write_side (?c2\<lparr>c_scratchHeader := []\<rparr>) = write_side c" .
  then show ?thesis using w unfolding decodeBlock_def Let_def by (simp only: prod.case snd_conv if_distrib [of snd] if_cancel)
qed

lemma write_side_headers:
  "write_side (snd (StartHeaders L sid frag eh es c)) = write_side c"
  "write_side (snd (ConsumeContinuation L frag eh c)) = write_side c"
proof -
  have *: "write_side (c\<lparr>c_LastStreamID := x\<rparr>) = write_side c" "write_side (c\<lparr>c_contBlock := b\<rparr>) = write_side c" for x b
    by (simp_all add: write_side_def)
  show "write_side (snd (StartHeaders L sid frag eh es c)) = write_side c"
    by (simp add: StartHeaders_def write_side_decode * Let_def) (simp add: write_side_def)
  show "write_side (snd (ConsumeContinuation L frag eh c)) = write_side c"
    by (simp add: ConsumeContinuation_def write_side_decode * Let_def) (simp add: write_side_def)
qed

text \<open>Control frames that are queued are not DATA.\<close>

lemma commits_control [simp]:
  "commits L sid c (SendWindowUpdate s n c) []" "commits L sid c (SendRSTStream s code c) []"
  "commits L sid c (SendPing a d c) []" "commits L sid c (SendSettingsAck c) []"
  "commits L sid c (SendSetMaxDynamicTableSize n c) []"
  by (simp_all add: SendWindowUpdate_def SendRSTStream_def SendPing_def SendSettingsAck_def SendSetMaxDynamicTableSize_def
      commits_async data_intent_def zeroIntent_def)

lemma commits_setting: "commits L sid (fst cm) (fst (snd (apply_setting x cm))) []"
  by (cases cm; cases "fst x")
    (auto simp: apply_setting_def commits_same write_side_def split: prod.splits)

lemma commits_settings: "commits L sid (fst cm) (fst (snd (ApplyPeerSettings xs cm))) []"
proof (induction xs arbitrary: cm)
  case (Cons x xs)
  obtain r cm1 where a: "apply_setting x cm = (r, cm1)" by (metis prod.exhaust)
  have "commits L sid (fst cm) (fst cm1) []" using commits_setting [of L sid cm x] a by simp
  then show ?case using a Cons.IH [of cm1] by (cases r) (auto intro: commits_quiet)
qed simp

lemma commits_data: "commits L sid (fst cm) (fst (HandleInboundData k s d fl es cm)) []"
  by (cases cm) (auto simp: HandleInboundData_def Let_def intro: commits_quiet [OF commits_control(1) commits_control(1)]
    commits_quiet [OF commits_control(1) commits_control(2)] split: option.splits)

lemma commits_deliver: "commits L sid (lk_conn w) (lk_conn (deliverResponse d w)) []"
  by (simp add: deliverResponse_def deliverHeaders_def Let_def split: option.splits prod.splits)

lemma commits_take:
  assumes "write_side (snd res) = write_side (lk_conn w)"
  shows "commits L sid (lk_conn w) (lk_conn (snd (take_response res w))) []"
proof -
  have q: "commits L sid (lk_conn w) (snd res) []" by (rule commits_same [OF assms])
  have "commits L sid (snd res) (lk_conn (deliverResponse d (w\<lparr>lk_conn := snd res\<rparr>))) []" for d
    using commits_deliver [of L sid "w\<lparr>lk_conn := snd res\<rparr>" d] by simp
  then show ?thesis using q by (auto simp: take_response_def Let_def intro: commits_quiet split: sum.splits option.splits)
qed

lemma conn_on_link: "lk_conn (on_link g w) = fst (g (lk_conn w, lk_mem w))"
  by (simp add: on_link_def split_beta Let_def)

lemma commits_frame: "commits L sid (lk_conn w) (lk_conn (snd (tunnel_frame L k now f w))) []"
proof -
  have ws: "write_side (fst (HandleWindowUpdate s n (c, m))) = write_side c" "write_side (fst (HandleRSTStream s (c, m))) = write_side c"
    for s n c m by (auto simp: HandleWindowUpdate_def HandleRSTStream_def split: option.splits)
  have fl: "lk_conn (fail e s w) = lk_conn w" for e s by (simp add: fail_def Let_def split: option.splits)
  have st: "commits L sid (lk_conn w) (lk_conn (snd (handleProxyFrame L k now (FSettings ack xs) w))) []" for ack xs
    using commits_settings [of L sid "(lk_conn w, lk_mem w)" xs]
    by (auto simp: handleProxyFrame_def intro: commits_more [OF _ commits_control(4)] split: prod.splits option.splits)
  have h: "commits L sid (lk_conn w) (lk_conn (snd (handleProxyFrame L k now f w))) []"
    using commits_data [of L sid "(lk_conn w, lk_mem w)"] st
    by (cases f) (simp_all add: handleProxyFrame_def commits_take write_side_headers conn_on_link commits_same ws fl)
  show ?thesis using h
    by (auto simp: tunnel_frame_def commits_take write_side_headers split: frame.splits)
qed

lemma commits_env:
  assumes "cache_ok ToLower (c_lowerNames (fst cm))" "\<And>i. e = EnvSubmit i \<Longrightarrow> \<not> data_intent sid i"
  shows "commits L sid (fst cm) (fst (env_step L e cm)) []"
  using assms by (cases cm; cases e)
    (auto simp: commits_async commits_runWriter commits_same split: option.splits prod.splits)

lemma commits_open:
  assumes "cache_ok ToLower (c_lowerNames (lk_conn w))" "\<And>n. \<not> data_intent sid (i n)"
  shows "commits L sid (lk_conn w) (lk_conn (snd (openStream k now iw (\<lambda>n. submit L (i n)) w))) []"
proof (cases "admitted w")
  case True
  obtain n p w1 where o: "open_attempt k iw w = (n, p, w1)" by (metis prod.exhaust)
  obtain r c3 where s: "submit L (i n) (lk_conn w1) = (r, c3)" by (metis prod.exhaust)
  have w1: "write_side (lk_conn w1) = write_side (lk_conn w)" "c_lowerNames (lk_conn w1) = c_lowerNames (lk_conn w)"
    using o by (auto simp: open_attempt_def NextStreamID_def Let_def Conn_AddStream_def write_side_def split: prod.splits)
  have "commits L sid (lk_conn w1) c3 []"
    using commits_submit(1) [OF _ s, of sid] assms w1(2) by (simp add: sent_data_intent)
  then have "commits L sid (lk_conn w) c3 []" using commits_same [OF w1(1)] by (rule commits_quiet [rotated])
  moreover have "commits L sid c3 (RemoveStream now n c3) []" by (rule commits_same) simp
  ultimately show ?thesis using True o s
    by (cases r) (auto simp: openStream_eq admitted_def intro: commits_more)
qed (auto simp: openStream_eq admitted_def)

lemma commits_tunnel:
  assumes "cache_ok ToLower (c_lowerNames (lk_conn w))" "\<not> pump_owns sid w (FOp (POp e))"
  shows "commits L sid (lk_conn w) (lk_conn (tunnel_step L e w)) []"
proof (cases e)
  case (TOpen k now iw meth schm authority path h es)
  let ?i = "\<lambda>n. zeroIntent\<lparr>wi_kind := wkReqHeaders, wi_streamID := n, wi_method := meth, wi_scheme := schm, wi_authority := authority,
    wi_path := path, wi_header := h, wi_endStream := es\<rparr>"
  have "(\<lambda>n. SendRequestHeaders L n meth schm authority path h es) = (\<lambda>n. submit L (?i n))"
    by (intro ext) (simp add: SendRequestHeaders_def)
  then show ?thesis using commits_open [OF assms(1), of sid ?i L k now iw] by (simp add: TOpen data_intent_def)
next
  case (TSend i)
  obtain r c where s: "submit L i (lk_conn w) = (r, c)" by (metis prod.exhaust)
  then show ?thesis using commits_submit(1) [OF assms(1) s, of sid] assms(2) by (simp add: TSend sent_data_intent)
next
  case (TGiveUp now s)
  show ?thesis by (rule commits_same) (simp add: TGiveUp give_up_def split: option.splits)
qed (use assms in \<open>simp_all add: commits_async commits_runWriter\<close>)

text \<open>Whatever the others do, they send no DATA on the stream of a pump.\<close>

lemma commits_others:
  assumes "regs_ok w"
  shows "commits L sid (lk_conn w) (lk_conn (fwd_step L (pump_owns sid) e w)) []"
proof (cases "pump_owns sid w e")
  case False
  have c: "cache_ok ToLower (c_lowerNames (lk_conn w))" using regs_cm [OF assms] by (simp add: cm_ok_def conn_ok_def)
  show ?thesis
  proof (cases e)
    case (FOp x)
    show ?thesis
    proof (cases x)
      case (POp t)
      then show ?thesis using commits_tunnel [OF c] False FOp by (simp add: fwd_step_def)
    next
      case (PMem y)
      have "\<not> data_intent sid i" if "y = EnvSubmit i" for i using False FOp PMem that by simp
      then have "commits L sid (lk_conn w) (fst (env_step L y (lk_conn w, lk_mem w))) []"
        using commits_env [of "(lk_conn w, lk_mem w)" y sid L] c by simp
      then show ?thesis using False FOp PMem by (cases y) (simp_all add: fwd_step_def conn_on_link)
    qed
  next
    case (FFrame k now f)
    then show ?thesis by (simp add: fwd_step_def commits_frame)
  next
    case (FDown n)
    then show ?thesis using tunnel_teardown_spec(3) [OF assms refl] by (simp add: fwd_step_def commits_dead)
  qed
qed (simp add: fwd_step_def)

lemma commits_run:
  assumes "regs_ok w"
  shows "commits L sid (lk_conn w) (lk_conn (fwd_run L (pump_owns sid) es w)) []"
  using assms
proof (induction es arbitrary: w)
  case (Cons e es)
  have "regs_ok (fwd_step L (pump_owns sid) e w)" using Cons.prems by (simp add: fwd_step_def fwd_apply_regs)
  from commits_quiet [OF commits_others [OF Cons.prems] Cons.IH [OF this]] show ?case by (simp add: fwd_run_def)
qed (simp add: fwd_run_def)

section \<open>The chunk loop\<close>

text \<open>Initial windows reach the send credit only through \<open>ApplyPeerSettings\<close>, which refuses those above \<open>2^31-1\<close>.\<close>

fun legal_event :: "credit_event \<Rightarrow> bool" where
  "legal_event (EvInitWindow n qs) \<longleftrightarrow> 0 \<le> sint n"
| "legal_event e \<longleftrightarrow> True"

definition legal_paces :: "pace list \<Rightarrow> bool" where
  "legal_paces ps \<longleftrightarrow> (\<forall>p \<in> set ps. list_all legal_event (fst p))"

lemma attempt_init: "PeerInitWindow (fst (snd (reserve_attempt sc W p want))) = PeerInitWindow sc"
  by (simp add: reserve_attempt_def Let_def)

lemma legal_step:
  "legal_event e \<Longrightarrow> 0 \<le> sint (PeerInitWindow sc) \<Longrightarrow> 0 \<le> sint (PeerInitWindow (fst (snd (credit_step e (sc, W)))))"
  by (cases e) (auto simp: AddConn_def SendCredit_AddStream_def ApplyInitialWindowDelta_def MarkDead_def initCond_def
      attempt_init Let_def split_beta)

lemma legal_wait:
  assumes "reserve_wait sc W p want es = Some (r, sc', W', es')" "list_all legal_event es" "0 \<le> sint (PeerInitWindow sc)"
  shows "0 \<le> sint (PeerInitWindow sc')"
  using assms
proof (induction es arbitrary: sc W)
  case (Cons e es)
  obtain b sc1 W1 where st: "credit_step e (sc, W) = (b, sc1, W1)" by (metis prod.exhaust)
  obtain a sc2 W2 where at: "reserve_attempt sc1 W1 p want = (a, sc2, W2)" by (metis prod.exhaust)
  have "0 \<le> sint (PeerInitWindow sc1)" "PeerInitWindow sc2 = PeerInitWindow sc1"
    using legal_step [of e sc W] Cons.prems(2,3) st attempt_init [of sc1 W1 p want] at by simp_all
  then show ?case using Cons.prems(1,2) Cons.IH st at by (cases a) (auto split: if_splits)
qed simp

lemma legal_Reserve:
  assumes "Reserve sc W p want es = Some (r, sc', W', es')" "list_all legal_event es" "0 \<le> sint (PeerInitWindow sc)"
  shows "0 \<le> sint (PeerInitWindow sc')"
proof -
  obtain a sc2 W2 where at: "reserve_attempt (initCond sc) W p want = (a, sc2, W2)" by (metis prod.exhaust)
  have "PeerInitWindow sc2 = PeerInitWindow sc" using attempt_init [of "initCond sc" W p want] at by (simp add: initCond_def)
  then show ?thesis using assms at legal_wait [of sc2 W2 p want es] by (cases a) (auto simp: Reserve_def split: if_splits)
qed

lemma regs_windows:
  assumes "regs_ok w" "0 \<le> sint (PeerInitWindow sc)"
  shows "regs_ok (w\<lparr>lk_conn := (lk_conn w)\<lparr>c_Send := sc\<rparr>, lk_mem := set_windows W (lk_mem w)\<rparr>)"
  using assms by (simp add: regs_ok_def cm_ok_def conn_ok_def registry_ok_def drain_ok_def set_windows_def)

lemma regs_submit:
  assumes "regs_ok w" "submit L i (lk_conn w) = (r, c)"
  shows "regs_ok (w\<lparr>lk_conn := c\<rparr>)"
  using submit_worker [OF regs_cm [OF assms(1)] assms(2)] assms(1) by (intro regs_ok_conn) simp_all

lemma commits_SendData:
  assumes "regs_ok w" "SendData L sid bs es (lk_conn w) = (r, c)"
  shows "regs_ok (w\<lparr>lk_conn := c\<rparr>)" "commits L sid (lk_conn w) c [(bs, es)]" "r = None \<longleftrightarrow> c_writeErr c = None"
proof -
  let ?i = "zeroIntent\<lparr>wi_kind := wkData, wi_streamID := sid, wi_data := bs, wi_endStream := es\<rparr>"
  have s: "submit L ?i (lk_conn w) = (r, c)" using assms(2) by (simp add: SendData_def)
  have c: "cache_ok ToLower (c_lowerNames (lk_conn w))" using regs_cm [OF assms(1)] by (simp add: cm_ok_def conn_ok_def)
  show "regs_ok (w\<lparr>lk_conn := c\<rparr>)" by (rule regs_submit [OF assms(1) s])
  show "commits L sid (lk_conn w) c [(bs, es)]"
    using commits_submit(1) [OF c s, of sid] by (simp add: intent_frames_def)
  show "r = None \<longleftrightarrow> c_writeErr c = None" using commits_submit(2,3) [OF c s] by (cases r) auto
qed

text \<open>\<open>chunks n cs data\<close>: nonempty pieces of at most \<open>n\<close> bytes that make up a prefix of \<open>data\<close>.\<close>

definition chunks :: "nat \<Rightarrow> byte list list \<Rightarrow> byte list \<Rightarrow> bool" where
  "chunks n cs data \<longleftrightarrow> (\<forall>b \<in> set cs. b \<noteq> [] \<and> length b \<le> n) \<and> prefix (concat cs) data"

lemma chunks_Nil [simp]: "chunks n [] data"
  by (simp add: chunks_def)

lemma chunks_mono: "chunks n cs data \<Longrightarrow> n \<le> m \<Longrightarrow> chunks m cs (data @ rest)"
  by (auto simp: chunks_def intro: prefix_prefix)

lemma chunks_append: "concat cs = data \<Longrightarrow> chunks n cs data \<Longrightarrow> chunks n ds rest \<Longrightarrow> chunks n (cs @ ds) (data @ rest)"
  by (auto simp: chunks_def)

lemma chunks_Cons: "b \<noteq> [] \<Longrightarrow> length b \<le> n \<Longrightarrow> chunks n cs data \<Longrightarrow> chunks n (b # cs) (b @ data)"
  by (simp add: chunks_def)

text \<open>After \<open>Reserve\<close>: a grant is a nonempty part of the data.\<close>

lemma chunk_reserved:
  assumes "regs_ok w" "data \<noteq> []" "length data < 2 ^ 31" "list_all legal_event ev"
    "Reserve (c_Send (lk_conn w)) (windows (lk_mem w)) p (of_nat (length data)) ev = Some ((got, dead), sc, W, rest)"
    "w1 = w\<lparr>lk_conn := (lk_conn w)\<lparr>c_Send := sc\<rparr>, lk_mem := set_windows W (lk_mem w)\<rparr>"
  shows "regs_ok w1" "commits L sid (lk_conn w) (lk_conn w1) []" "\<not> dead \<Longrightarrow> 0 < unat got \<and> unat got \<le> length data"
proof -
  have "0 \<le> sint (PeerInitWindow (c_Send (lk_conn w)))" using regs_cm [OF assms(1)] by (simp add: cm_ok_def conn_ok_def)
  then have "0 \<le> sint (PeerInitWindow sc)" using legal_Reserve [OF assms(5,4)] by simp
  then show "regs_ok w1" unfolding assms(6) by (rule regs_windows [OF assms(1)])
  show "commits L sid (lk_conn w) (lk_conn w1) []" by (rule commits_same) (simp add: assms(6))
  have "sint (of_nat (length data) :: int32) = int (length data)" by (rule sint_of_nat32 [OF assms(3)])
  then show "0 < unat got \<and> unat got \<le> length data" if "\<not> dead"
    using Reserve_result(3-5) [OF assms(5)] that assms(2) unat_sint [of got]
    by (simp only: of_nat_less_iff [symmetric, where ?'a = int] of_nat_le_iff [symmetric, where ?'a = int]) simp
qed

lemma send_chunks_spec:
  assumes "regs_ok w" "length data < 2 ^ 31" "send_chunks L sid p data es w = Some (r, w')" "legal_paces es"
  shows "regs_ok w' \<and> (\<exists>cs. commits L sid (lk_conn w) (lk_conn w') (map (\<lambda>b. (b, False)) cs) \<and> chunks (length data) cs data \<and>
    (if r = None then concat cs = data else r = Some ErrConnDead \<or> c_writeErr (lk_conn w') \<noteq> None))"
  using assms
proof (induction L sid p data es w rule: send_chunks.induct)
  case (1 L sid p es w)
  then show ?case by (auto intro: exI [of _ "[]"])
next
  case (3 L sid p b bs ev ops es w)
  let ?d = "b # bs"
  from "3.prems"(3) obtain got dead sc W rest where
    res: "Reserve (c_Send (lk_conn w)) (windows (lk_mem w)) p (of_nat (length ?d)) ev = Some ((got, dead), sc, W, rest)"
    by (auto split: option.splits)
  define w1 where "w1 = w\<lparr>lk_conn := (lk_conn w)\<lparr>c_Send := sc\<rparr>, lk_mem := set_windows W (lk_mem w)\<rparr>"
  have ev: "list_all legal_event ev" "legal_paces es" using "3.prems"(4) by (simp_all add: legal_paces_def)
  note rv = chunk_reserved [OF "3.prems"(1) _ "3.prems"(2) ev(1) res w1_def]
  have 1: "regs_ok w1" and q1: "commits L sid (lk_conn w) (lk_conn w1) []" by (rule rv; simp)+
  show ?case
  proof (cases dead)
    case True
    then have "r = Some ErrConnDead" "w' = w1" using "3.prems"(3) res by (simp_all add: w1_def)
    then show ?thesis using 1 q1 by (auto intro: exI [of _ "[]"])
  next
    case False
    have g: "0 < unat got" "unat got \<le> length ?d" using rv(3) False by simp_all
    define w2 where "w2 = fwd_run L (pump_owns sid) ops w1"
    have 2: "regs_ok w2" unfolding w2_def by (rule fwd_run_regs [OF 1])
    have q2: "commits L sid (lk_conn w) (lk_conn w2) []"
      unfolding w2_def by (rule commits_quiet [OF q1 commits_run [OF 1]])
    obtain x c where sd: "SendData L sid (take (unat got) ?d) False (lk_conn w2) = (x, c)" by (metis prod.exhaust)
    note sp = commits_SendData [OF 2 sd]
    have q3: "commits L sid (lk_conn w) c [(take (unat got) ?d, False)]" by (rule commits_quiet [OF q2 sp(2)])
    show ?thesis
    proof (cases x)
      case (Some werr)
      then have "r = Some werr" "w' = w2\<lparr>lk_conn := c\<rparr>" using "3.prems"(3) res False sd by (simp_all add: w1_def w2_def)
      then show ?thesis using Some sp(1,3) by (auto simp: commits_dead intro: exI [of _ "[]"])
    next
      case None
      let ?w3 = "w2\<lparr>lk_conn := c\<rparr>" and ?rest = "drop (unat got) ?d"
      have "send_chunks L sid p ?rest es ?w3 = Some (r, w')"
        using "3.prems"(3) res False sd None by (simp add: w1_def w2_def)
      moreover have "length ?rest < 2 ^ 31" using "3.prems"(2) by simp
      ultimately have "regs_ok w' \<and> (\<exists>cs. commits L sid c (lk_conn w') (map (\<lambda>b. (b, False)) cs) \<and> chunks (length ?rest) cs ?rest \<and>
          (if r = None then concat cs = ?rest else r = Some ErrConnDead \<or> c_writeErr (lk_conn w') \<noteq> None))"
        using "3.IH" [OF refl res refl refl refl] False sd None sp(1) ev(2) by (simp add: w1_def w2_def)
      then obtain cs where cs: "regs_ok w'" "commits L sid c (lk_conn w') (map (\<lambda>b. (b, False)) cs)" "chunks (length ?rest) cs ?rest"
        "if r = None then concat cs = ?rest else r = Some ErrConnDead \<or> c_writeErr (lk_conn w') \<noteq> None" by blast
      let ?b = "take (unat got) ?d"
      have "chunks (length ?d) cs ?rest" using chunks_mono [OF cs(3), of "length ?d" "[]"] by simp
      then have "chunks (length ?d) (?b # cs) ?d" using chunks_Cons [of ?b "length ?d" cs ?rest] g by (simp del: append_take_drop_id, simp)
      moreover have "concat cs = ?rest \<Longrightarrow> concat (?b # cs) = ?d" by simp
      ultimately show ?thesis using commits_trans [OF q3 cs(2)] cs(1,4)
        by (intro conjI exI [of _ "?b # cs"]) (simp_all split: if_splits)
    qed
  qed
qed simp

section \<open>The read loop\<close>

text \<open>What the reads of a pump return together: the bytes up to the first error, and that error.\<close>

fun body_of :: "pump_turn list \<Rightarrow> byte list \<times> gerr option" where
  "body_of [] = ([], None)"
| "body_of (t # ts) =
     (case pt_err t of
        Some e \<Rightarrow> (pt_data t, Some e)
      | None \<Rightarrow> let (bs, e) = body_of ts in (pt_data t @ bs, e))"

text \<open>A read returns at most as many bytes as fit in the buffer.\<close>

definition legal_turn :: "nat \<Rightarrow> pump_turn \<Rightarrow> bool" where
  "legal_turn n t \<longleftrightarrow> length (pt_data t) \<le> n \<and> legal_paces (pt_paces t)"

text \<open>How the pump ended, for a body with bytes \<open>bs\<close> that ended with \<open>e\<close>: \<open>all\<close> says that every byte was sent.\<close>

definition pump_result :: "H2Lib \<Rightarrow> uint32 \<Rightarrow> Conn \<Rightarrow> gerr option \<Rightarrow> bool \<Rightarrow> gerr option \<Rightarrow> bool" where
  "pump_result L sid c r all e \<longleftrightarrow>
     (case r of
        None \<Rightarrow> all \<and> e = Some EOF
      | Some x \<Rightarrow>
          x \<in> {ErrConnDead, ErrWorkerDetached} \<or>
          (\<exists>y. x = ErrReadReqBody y \<and> e = Some y \<and> y \<noteq> EOF \<and> all \<and> (\<exists>fs. outgoing L c = fs @ [ORSTStream sid ErrCodeCancel])))"

definition pump_frames :: "byte list list \<Rightarrow> gerr option \<Rightarrow> (byte list \<times> bool) list" where
  "pump_frames cs r = map (\<lambda>b. (b, False)) cs @ (if r = None then [([], True)] else [])"

lemma chunks_more: "chunks n cs data \<Longrightarrow> chunks n cs (data @ rest)"
  by (auto simp: chunks_def intro: prefix_prefix)

lemma commits_RST:
  assumes "c_writeErr (SendRSTStream sid code c) = None"
  shows "outgoing L (SendRSTStream sid code c) = outgoing L c @ [ORSTStream sid code]"
  using assms submitAsync_outgoing(1) [of c L] by (simp add: SendRSTStream_def conn_frame intent_frames_def)

lemma pump_end:
  assumes "regs_ok w" "commits L sid c (lk_conn w) (map (\<lambda>b. (b, False)) cs)"
    "(if err = EOF then let (r, c) = SendData L sid [] True (lk_conn w) in (r, w\<lparr>lk_conn := c\<rparr>)
      else (Some (ErrReadReqBody err), on_conn (SendRSTStream sid ErrCodeCancel) w)) = (r, w')"
  shows "commits L sid c (lk_conn w') (pump_frames cs r)"
    "c_writeErr (lk_conn w') = None \<Longrightarrow> pump_result L sid (lk_conn w') r True (Some err)"
proof -
  have "commits L sid c (lk_conn w') (pump_frames cs r) \<and>
    (c_writeErr (lk_conn w') = None \<longrightarrow> pump_result L sid (lk_conn w') r True (Some err))"
  proof (cases "err = EOF")
    case True
    obtain y c1 where sd: "SendData L sid [] True (lk_conn w) = (y, c1)" by (metis prod.exhaust)
    note sp = commits_SendData [OF assms(1) sd]
    have "r = y" "w' = w\<lparr>lk_conn := c1\<rparr>" using assms(3) sd True by simp_all
    then show ?thesis using commits_trans [OF assms(2) sp(2)] sp(3) True
      by (cases y) (auto simp: pump_frames_def commits_dead pump_result_def)
  next
    case False
    then show ?thesis
      using assms(3) commits_more [OF assms(2) commits_control(2)] commits_RST [of sid ErrCodeCancel "lk_conn w" L]
      by (auto simp: pump_frames_def pump_result_def)
  qed
  then show "commits L sid c (lk_conn w') (pump_frames cs r)"
    "c_writeErr (lk_conn w') = None \<Longrightarrow> pump_result L sid (lk_conn w') r True (Some err)" by auto
qed

lemma streamRequestBody_spec:
  assumes "regs_ok w" "n < 2 ^ 31" "\<forall>t \<in> set ts. legal_turn n t" "streamRequestBody L sid p ts w = Some (r, w')"
  shows "\<exists>cs. commits L sid (lk_conn w) (lk_conn w') (pump_frames cs r) \<and> chunks n cs (fst (body_of ts)) \<and>
    (c_writeErr (lk_conn w') = None \<longrightarrow>
       pump_result L sid (lk_conn w') r (concat cs = fst (body_of ts)) (snd (body_of ts)))"
  using assms(1,3,4)
proof (induction ts arbitrary: w)
  case (Cons t ts)
  define w0 where "w0 = fwd_run L (pump_owns sid) (pt_before t) w"
  have 0: "regs_ok w0" "commits L sid (lk_conn w) (lk_conn w0) []"
    unfolding w0_def by (rule fwd_run_regs [OF Cons.prems(1)], rule commits_run [OF Cons.prems(1)])
  show ?case
  proof (cases "wk_down w0")
    case True
    then have "r = Some ErrWorkerDetached" "w' = w0" using Cons.prems(3) by (simp_all add: w0_def)
    then show ?thesis using 0(2) by (auto simp: pump_frames_def pump_result_def intro!: exI [of _ "[]"])
  next
    case False
    define w1 where "w1 = fwd_run L (pump_owns sid) (pt_during t) w0"
    have 1: "regs_ok w1" "commits L sid (lk_conn w) (lk_conn w1) []"
      unfolding w1_def by (rule fwd_run_regs [OF 0(1)], rule commits_quiet [OF 0(2) commits_run [OF 0(1)]])
    obtain x w2 where sc: "send_chunks L sid p (pt_data t) (pt_paces t) w1 = Some (x, w2)"
      using Cons.prems(3) False by (auto simp: w0_def [symmetric] w1_def [symmetric] split: option.splits)
    have len: "length (pt_data t) \<le> n" "length (pt_data t) < 2 ^ 31" "legal_paces (pt_paces t)"
      using Cons.prems(2) assms(2) by (auto simp: legal_turn_def)
    from send_chunks_spec [OF 1(1) len(2) sc len(3)] obtain cs where cs: "regs_ok w2"
      "commits L sid (lk_conn w1) (lk_conn w2) (map (\<lambda>b. (b, False)) cs)" "chunks (length (pt_data t)) cs (pt_data t)"
      "if x = None then concat cs = pt_data t else x = Some ErrConnDead \<or> c_writeErr (lk_conn w2) \<noteq> None" by blast
    have q2: "commits L sid (lk_conn w) (lk_conn w2) (map (\<lambda>b. (b, False)) cs)" by (rule commits_quiet [OF 1(2) cs(2)])
    have ch: "chunks n cs (pt_data t)" using chunks_mono [OF cs(3) len(1), of "[]"] by simp
    note run = Cons.prems(3) [simplified, folded w0_def, simplified False Let_def, folded w1_def, simplified sc]
    show ?thesis
    proof (cases x)
      case (Some e)
      have "r = Some e" "w' = w2" using run Some by simp_all
      moreover have "chunks n cs (fst (body_of (t # ts)))"
        using ch by (auto simp: chunks_more split: option.splits prod.splits)
      ultimately show ?thesis using q2 cs(4) Some
        by (intro exI [of _ cs]) (auto simp: pump_frames_def pump_result_def)
    next
      case None
      then have all: "concat cs = pt_data t" using cs(4) by simp
      show ?thesis
      proof (cases "pt_err t")
        case None': None
        have "streamRequestBody L sid p ts w2 = Some (r, w')" using run None None' by simp
        with Cons.IH [OF cs(1)] Cons.prems(2) obtain ds where
          ds: "commits L sid (lk_conn w2) (lk_conn w') (pump_frames ds r)" "chunks n ds (fst (body_of ts))"
            "c_writeErr (lk_conn w') = None \<longrightarrow>
               pump_result L sid (lk_conn w') r (concat ds = fst (body_of ts)) (snd (body_of ts))" by auto
        have "commits L sid (lk_conn w) (lk_conn w') (pump_frames (cs @ ds) r)"
          using commits_trans [OF q2 ds(1)] by (simp add: pump_frames_def)
        then show ?thesis using ds(2,3) chunks_append [OF all ch] all None'
          by (intro exI [of _ "cs @ ds"]) (auto simp: split_beta Let_def)
      next
        case (Some err)
        then have "(if err = EOF then let (r, c) = SendData L sid [] True (lk_conn w2) in (r, w2\<lparr>lk_conn := c\<rparr>)
            else (Some (ErrReadReqBody err), on_conn (SendRSTStream sid ErrCodeCancel) w2)) = (r, w')"
          using run None by (auto split: prod.splits if_splits)
        from pump_end [OF cs(1) q2 this] show ?thesis using ch all Some by (intro exI [of _ cs]) auto
      qed
    qed
  qed
qed simp

section \<open>The pump comes to an end\<close>

text \<open>A tunnel on which \<open>n\<close> bytes can be sent at once.\<close>

definition pump_ready :: "ptr \<Rightarrow> nat \<Rightarrow> Worker \<Rightarrow> bool" where
  "pump_ready p n w \<longleftrightarrow>
     regs_ok w \<and> c_writeErr (lk_conn w) = None \<and> \<not> sc_dead (c_Send (lk_conn w)) \<and> \<not> wk_down w \<and>
     int n \<le> sint (windows (lk_mem w) p) \<and> int n \<le> sint (ConnSendWindow (c_Send (lk_conn w)))"

text \<open>A turn without interference.\<close>

definition alone :: "pump_turn \<Rightarrow> bool" where
  "alone t \<longleftrightarrow> pt_before t = [] \<and> pt_during t = [] \<and> pt_paces t \<noteq> [] \<and> snd (hd (pt_paces t)) = []"

lemma SendData_ready:
  assumes "\<And>u f. frWrite L u f = None" "pump_ready p n w"
  obtains c where "SendData L sid bs es (lk_conn w) = (None, c)" "pump_ready p n (w\<lparr>lk_conn := c\<rparr>)"
proof -
  let ?i = "zeroIntent\<lparr>wi_kind := wkData, wi_streamID := sid, wi_data := bs, wi_endStream := es\<rparr>"
  have w: "regs_ok w" "c_writeErr (lk_conn w) = None" using assms(2) by (simp_all add: pump_ready_def)
  then have c: "cache_ok ToLower (c_lowerNames (lk_conn w))" using regs_cm [OF w(1)] by (simp add: cm_ok_def conn_ok_def)
  have s: "submit L ?i (lk_conn w) = (None, snd (submit L ?i (lk_conn w)))" by (rule submit_ok [OF assms(1) w(2) c])
  then obtain c1 where c1: "submit L ?i (lk_conn w) = (None, c1)" by blast
  from c c1 have "c_Send c1 = c_Send (lk_conn w)" "c_writeErr c1 = None"
    by (cases rule: submit_cases; auto dest: unowned_fields)+
  then show thesis using assms(2) regs_submit [OF w(1) c1] c1 by (intro that [of c1]) (simp_all add: pump_ready_def SendData_def)
qed

lemma send_chunks_ready:
  assumes "\<And>u f. frWrite L u f = None" "pump_ready p (length data + n) w" "length data < 2 ^ 31" "ps \<noteq> []" "snd (hd ps) = []"
  obtains w' where "send_chunks L sid p data ps w = Some (None, w')" "pump_ready p n w'"
proof (cases data)
  case Nil
  then show thesis using that assms(2) by simp
next
  case (Cons b bs)
  obtain ev es where ps: "ps = (ev, []) # es" using assms(4,5) by (cases ps) auto
  let ?sc = "c_Send (lk_conn w)" and ?W = "windows (lk_mem w)" and ?want = "of_nat (length data) :: int32"
  have w: "sint ?want = int (length data)" by (rule sint_of_nat32 [OF assms(3)])
  have r: "regs_ok w" "\<not> sc_dead ?sc" "int (length data + n) \<le> sint (?W p)" "int (length data + n) \<le> sint (ConnSendWindow ?sc)"
    using assms(2) by (simp_all add: pump_ready_def)
  have pos: "0 < sint ?want" "0 < sint (?W p)" "0 < sint (ConnSendWindow ?sc)" using w r(3,4) Cons by simp_all
  from Reserve_immediate [of ?sc ?want ?W p, OF r(2) pos] obtain g where
    g: "sint g = min (sint ?want) (min (sint (?W p)) (sint (ConnSendWindow ?sc)))"
      "Reserve ?sc ?W p ?want ev = Some ((g, False), (initCond ?sc)\<lparr>ConnSendWindow := ConnSendWindow ?sc - g\<rparr>, ?W(p := ?W p - g), ev)"
    by blast
  have sg: "sint g = int (length data)" using g(1) w r(3,4) by simp
  then have ug: "unat g = length data" using unat_sint [of g] by (simp only: of_nat_eq_iff [symmetric, where ?'a = int])
  define w1 where "w1 = w\<lparr>lk_conn := (lk_conn w)\<lparr>c_Send := (initCond ?sc)\<lparr>ConnSendWindow := ConnSendWindow ?sc - g\<rparr>\<rparr>,
    lk_mem := set_windows (?W(p := ?W p - g)) (lk_mem w)\<rparr>"
  have "sint (?W p - g) = sint (?W p) - sint g" "sint (ConnSendWindow ?sc - g) = sint (ConnSendWindow ?sc) - sint g"
    using pos sg r(3,4) by (intro grant_subtract; simp)+
  moreover have "0 \<le> sint (PeerInitWindow ?sc)" using regs_cm [OF r(1)] by (simp add: cm_ok_def conn_ok_def)
  then have "regs_ok w1" unfolding w1_def by (intro regs_windows [OF r(1)]) (simp add: initCond_def)
  ultimately have "pump_ready p n w1" using assms(2) sg by (simp add: pump_ready_def w1_def initCond_def)
  from SendData_ready [OF assms(1) this] obtain c where
    "SendData L sid data False (lk_conn w1) = (None, c)" "pump_ready p n (w1\<lparr>lk_conn := c\<rparr>)" .
  then show thesis using g(2) ug Cons
    by (intro that [of "w1\<lparr>lk_conn := c\<rparr>"]) (simp_all add: ps fwd_run_def w1_def)
qed

lemma streamRequestBody_ready:
  assumes "\<And>u f. frWrite L u f = None" "snd (body_of ts) = Some EOF" "\<forall>t \<in> set ts. alone t \<and> length (pt_data t) < 2 ^ 31"
    "pump_ready p (length (fst (body_of ts))) w"
  shows "\<exists>w'. streamRequestBody L sid p ts w = Some (None, w') \<and> c_writeErr (lk_conn w') = None"
  using assms(2-)
proof (induction ts arbitrary: w)
  case (Cons t ts)
  define n where "n = (if pt_err t = None then length (fst (body_of ts)) else 0)"
  have t: "pt_before t = []" "pt_during t = []" "pt_paces t \<noteq> []" "snd (hd (pt_paces t)) = []" "length (pt_data t) < 2 ^ 31"
    using Cons.prems(2) by (simp_all add: alone_def)
  have "pump_ready p (length (pt_data t) + n) w"
    using Cons.prems(3) by (auto simp: n_def split: option.splits prod.splits)
  from send_chunks_ready [OF assms(1) this t(5,3,4)] obtain w2 where
    w2: "send_chunks L sid p (pt_data t) (pt_paces t) w = Some (None, w2)" "pump_ready p n w2" .
  have d: "\<not> wk_down w" using Cons.prems(3) by (simp add: pump_ready_def)
  show ?case
  proof (cases "pt_err t")
    case None
    then show ?thesis using Cons w2 t(1,2) d by (auto simp: fwd_run_def n_def split: prod.splits)
  next
    case (Some e)
    then have "e = EOF" using Cons.prems(1) by simp
    moreover obtain c where "SendData L sid [] True (lk_conn w2) = (None, c)" "pump_ready p n (w2\<lparr>lk_conn := c\<rparr>)"
      using SendData_ready [OF assms(1) w2(2)] .
    ultimately show ?thesis using w2 t(1,2) d Some by (simp add: fwd_run_def pump_ready_def)
  qed
qed simp

text \<open>A tunnel with one open stream, and a body of two reads.\<close>

definition sample_tunnel :: Worker where
  "sample_tunnel = new_Worker\<lparr>lk_mem := set_windows (\<lambda>_. 100) empty_mem\<rparr>"

definition sample_turns :: "pump_turn list" where
  "sample_turns =
     [\<lparr>pt_before = [], pt_during = [], pt_data = [1, 2], pt_err = None, pt_paces = [([], [])]\<rparr>,
      \<lparr>pt_before = [], pt_during = [], pt_data = [3], pt_err = Some EOF, pt_paces = [([], [])]\<rparr>]"

lemma sample_tunnel_ready: "n \<le> 100 \<Longrightarrow> pump_ready p n sample_tunnel"
proof -
  have "regs_ok (new_Worker\<lparr>lk_conn := (lk_conn new_Worker)\<lparr>c_Send := c_Send (lk_conn new_Worker)\<rparr>,
      lk_mem := set_windows (\<lambda>_. 100) (lk_mem new_Worker)\<rparr>)"
    using new_Worker_ok(1) by (intro regs_windows) (simp_all add: worker_ok_def new_Worker_def init_Conn_def fresh_credit_def DefaultInitialWindow_def)
  then have "regs_ok sample_tunnel" by (simp add: sample_tunnel_def new_Worker_def)
  then show "n \<le> 100 \<Longrightarrow> pump_ready p n sample_tunnel"
    by (simp add: pump_ready_def sample_tunnel_def new_Worker_def init_Conn_def fresh_credit_def DefaultInitialWindow_def)
qed

lemma sample_turns_body: "body_of sample_turns = ([1, 2, 3], Some EOF)"
  by (simp add: sample_turns_def)

lemma sample_turns_legal: "\<forall>t \<in> set sample_turns. alone t \<and> legal_turn (unat (pump_buf (lk_conn sample_tunnel))) t"
  by (simp add: sample_turns_def alone_def legal_turn_def legal_paces_def pump_buf_def MaxFrameSize_def sample_tunnel_def
      new_Worker_def init_Conn_def Let_def)

section \<open>Properties\<close>

text \<open>
  C5. The request body arrives whole or is visibly cut off. Whatever the other forwarders, the frame loop and the peer do
  meanwhile, as long as the tunnel's writer is alive, the DATA frames the pump has put on its stream are nonempty pieces of
  what it read, in order, none longer than its buffer; they end with an empty frame carrying END_STREAM if
  and only if the pump reported success, in which case they are the whole body and the body ended with EOF. Otherwise the
  tunnel was lost or detached, or the read failed, and then every byte read before was sent and RST_STREAM(CANCEL) is the
  last frame.
\<close>

theorem request_body_streamed:
  assumes "regs_ok w" "\<forall>t \<in> set ts. legal_turn (unat (pump_buf (lk_conn w))) t"
    "streamRequestBody L sid p ts w = Some (r, w')" "c_writeErr (lk_conn w') = None"
  shows "\<exists>cs. sent_data sid (outgoing L (lk_conn w')) =
      sent_data sid (outgoing L (lk_conn w)) @ map (\<lambda>b. (b, False)) cs @ (if r = None then [([], True)] else []) \<and>
    (\<forall>b \<in> set cs. b \<noteq> [] \<and> length b \<le> unat (pump_buf (lk_conn w))) \<and> prefix (concat cs) (fst (body_of ts)) \<and>
    pump_result L sid (lk_conn w') r (concat cs = fst (body_of ts)) (snd (body_of ts))"
proof -
  have "unat (pump_buf (lk_conn w)) < 2 ^ 31"
    using regs_cm [OF assms(1)] by (simp add: pump_buf_def MaxFrameSize_def cm_ok_def conn_ok_def Let_def)
  from streamRequestBody_spec [OF assms(1) this assms(2,3)] show ?thesis
    using assms(4) by (auto simp: commits_def chunks_def pump_frames_def)
qed

theorem request_body_streamed_witness:
  "\<exists>w' cs. streamRequestBody literal_lib 1 0 sample_turns sample_tunnel = Some (None, w') \<and> concat cs = [1, 2, 3] \<and>
     sent_data 1 (outgoing literal_lib (lk_conn w')) = map (\<lambda>b. (b, False)) cs @ [([], True)]"
proof -
  have r: "pump_ready 0 (length (fst (body_of sample_turns))) sample_tunnel"
    by (rule sample_tunnel_ready) (simp add: sample_turns_body)
  have l: "\<forall>t \<in> set sample_turns. alone t \<and> length (pt_data t) < 2 ^ 31" by (simp add: sample_turns_def alone_def)
  obtain w' where w': "streamRequestBody literal_lib 1 0 sample_turns sample_tunnel = Some (None, w')" "c_writeErr (lk_conn w') = None"
    using streamRequestBody_ready [OF frWrite_literal _ l r, of 1] sample_turns_body by auto
  have "outgoing literal_lib (lk_conn sample_tunnel) = []"
    by (simp add: outgoing_def sample_tunnel_def new_Worker_def init_Conn_def)
  then show ?thesis
    using request_body_streamed [OF _ _ w'] r sample_turns_legal w'(1) by (auto simp: pump_ready_def pump_result_def sample_turns_body)
qed

text \<open>
  C24. The pump comes to an end. With a framer that works, on a live tunnel with enough credit and without interference, the pump
  returns successfully for every body that ends with EOF, however it is cut into reads, with the whole
  body and the end of the stream on the wire.
\<close>

theorem request_body_completes:
  assumes "\<And>u f. frWrite L u f = None" "snd (body_of ts) = Some EOF" "pump_ready p (length (fst (body_of ts))) w"
    "\<forall>t \<in> set ts. alone t \<and> legal_turn (unat (pump_buf (lk_conn w))) t"
  shows "\<exists>w' cs. streamRequestBody L sid p ts w = Some (None, w') \<and> concat cs = fst (body_of ts) \<and>
    sent_data sid (outgoing L (lk_conn w')) = sent_data sid (outgoing L (lk_conn w)) @ map (\<lambda>b. (b, False)) cs @ [([], True)]"
proof -
  have r: "regs_ok w" using assms(3) by (simp add: pump_ready_def)
  have n: "unat (pump_buf (lk_conn w)) < 2 ^ 31"
    using regs_cm [OF r] by (simp add: pump_buf_def MaxFrameSize_def cm_ok_def conn_ok_def Let_def)
  then have "\<forall>t \<in> set ts. alone t \<and> length (pt_data t) < 2 ^ 31" using assms(4) by (auto simp: legal_turn_def)
  from streamRequestBody_ready [OF assms(1,2) this assms(3), of sid] obtain w' where
    w': "streamRequestBody L sid p ts w = Some (None, w')" "c_writeErr (lk_conn w') = None" by blast
  from streamRequestBody_spec [OF r n _ w'(1)] assms(4) w'(2) show ?thesis using w'(1)
    by (auto simp: commits_def pump_frames_def pump_result_def)
qed

theorem request_body_completes_witness:
  "\<exists>w' cs. streamRequestBody literal_lib 1 0 sample_turns sample_tunnel = Some (None, w') \<and> concat cs = [1, 2, 3] \<and>
     sent_data 1 (outgoing literal_lib (lk_conn w')) = map (\<lambda>b. (b, False)) cs @ [([], True)]"
proof -
  have "pump_ready 0 (length (fst (body_of sample_turns))) sample_tunnel"
    by (rule sample_tunnel_ready) (simp add: sample_turns_body)
  moreover have "outgoing literal_lib (lk_conn sample_tunnel) = []"
    by (simp add: outgoing_def sample_tunnel_def new_Worker_def init_Conn_def)
  ultimately show ?thesis
    using request_body_completes [OF frWrite_literal _ _ sample_turns_legal, of 0 1] by (simp add: sample_turns_body)
qed

end
