(* ===== verification/P_Relay.thy ===== *)
theory P_Relay
  imports P_Forward
begin

text \<open>
  The response body on its way to the public client (\<open>writeResponse\<close>, \<open>internal/proxy/forward.go\<close>): in any interleaving with the
  rest of the tunnel, the bytes copied are the bytes that arrived.
\<close>

section \<open>Nobody else touches the body\<close>

text \<open>The part of a stream its body reader works on.\<close>

definition ring :: "Stream \<Rightarrow> DataChunk list \<times> nat \<times> bodyReader" where
  "ring s = (st_queue s, st_qHead s, st_body s)"

lemma ring_pending: "ring s' = ring s \<Longrightarrow> st_pending s' = st_pending s" "ring s' = ring s \<Longrightarrow> stream_ok s' = stream_ok s"
  by (simp_all add: ring_def st_pending_def stream_ok_def)

lemma ring_ops [simp]:
  "ring (s\<lparr>st_SendWindow := x\<rparr>) = ring s" "ring (s\<lparr>st_Header := h\<rparr>) = ring s"
  "ring (m_stream (mem_CloseData q m) p) = ring (m_stream m p)"
  "ring (m_stream (mem_FailBody e q m) p) = ring (m_stream m p)"
  "ring (m_stream (set_windows W m) p) = ring (m_stream m p)"
  "q \<noteq> p \<Longrightarrow> ring (m_stream (snd (mem_Read n q m)) p) = ring (m_stream m p)"
  "q \<noteq> p \<Longrightarrow> ring (m_stream (mem_Close q m) p) = ring (m_stream m p)"
  "q \<noteq> p \<Longrightarrow> ring (m_stream (Release q m) p) = ring (m_stream m p)"
  by (auto simp: ring_def mem_CloseData_def CloseData_def mem_FailBody_def FailBody_def cancel_ctx_def mem_Read_def mem_Close_def
      Release_def put_all_def split_beta Let_def split: option.splits prod.splits)

lemma ring_acquire:
  assumes "pool_ok live (m_streamPool m)" "p \<in> live" "Acquire k sid conn w m = (q, m')"
  shows "ring (m_stream m' p) = ring (m_stream m p)" "q \<noteq> p"
  using Acquire_fresh [OF assms(1,3)] assms(2) by auto

lemma ring_fail_all: "ring (m_stream (FailAllStreams e c m) p) = ring (m_stream m p)"
proof -
  have "ring (m_stream (fold (\<lambda>(sid, q). mem_FailBody e q) xs m) p) = ring (m_stream m p)" for xs :: "(uint32 \<times> ptr) list" and m
    by (induction xs arbitrary: m) auto
  then show ?thesis by (simp add: FailAllStreams_def)
qed

lemma ring_settings: "ring (m_stream (snd (snd (ApplyPeerSettings xs cm))) p) = ring (m_stream (snd cm) p)"
proof (induction xs arbitrary: cm)
  case (Cons x xs)
  have "ring (m_stream (snd (snd (apply_setting x cm))) p) = ring (m_stream (snd cm) p)"
    by (cases cm; cases "fst x") (auto simp: apply_setting_def split: prod.splits)
  then show ?case using Cons.IH by (auto split: prod.splits option.splits)
qed simp

text \<open>The stream of a forwarder is nobody else's.\<close>

lemma carries_only:
  assumes "carries sid p n w"
  shows "cm_ok (lk_conn w, lk_mem w)" "GetStream sid (lk_conn w) = Some p" "p \<in> snd ` set (c_streams (lk_conn w))"
    "GetStream s (lk_conn w) = Some p \<Longrightarrow> s = sid"
proof -
  show cm: "cm_ok (lk_conn w, lk_mem w)" using assms by (simp add: carries_def regs_ok_def)
  have r: "regs_ok w" using assms by (simp add: carries_def)
  show g: "GetStream sid (lk_conn w) = Some p" using assms registries_agree(3) [OF r, of sid] by (simp add: carries_def)
  have ro: "registry_ok (lk_conn w) (lk_mem w)" using cm by (simp add: cm_ok_def)
  show "p \<in> snd ` set (c_streams (lk_conn w))" using registered_ptr [OF ro g] by force
  show "GetStream s (lk_conn w) = Some p \<Longrightarrow> s = sid"
    using registered_ptr [OF ro g] registered_ptr [OF ro, of s p] ro by (auto simp: registry_ok_def)
qed

lemma ring_open:
  assumes "carries sid p n w"
  shows "ring (m_stream (lk_mem (snd (openStream k now iw sh w))) p) = ring (m_stream (lk_mem w) p)"
proof -
  obtain s c1 where n: "NextStreamID (lk_conn w) = (s, c1)" by (metis prod.exhaust)
  obtain q m1 where a: "Acquire k s (c_self c1) iw (lk_mem w) = (q, m1)" by (metis prod.exhaust)
  note acq = Acquire_cm_ok [OF carries_only(1) [OF assms] a]
  have q: "q \<noteq> p" using acq(1) carries_only(3) [OF assms] by auto
  then have "ring (m_stream m1 p) = ring (m_stream (lk_mem w) p)" using acq(5) [of p] by simp
  then show ?thesis using n a q by (auto simp: openStream_def Let_def split: prod.splits option.splits)
qed

lemma ring_env:
  assumes "carries sid p n w" "\<not> forwarder_owns sid w (FOp (PMem e))" "\<And>now s. e \<noteq> EnvFinish now s"
  shows "ring (m_stream (snd (env_step L e (lk_conn w, lk_mem w))) p) = ring (m_stream (lk_mem w) p)"
proof (cases e)
  case (EnvAcquire k s conn iw)
  obtain q m1 where a: "Acquire k s conn iw (lk_mem w) = (q, m1)" by (metis prod.exhaust)
  have "q \<noteq> p" using Acquire_cm_ok(1) [OF carries_only(1) [OF assms(1)] a] carries_only(3) [OF assms(1)] by auto
  then show ?thesis using Acquire_cm_ok(5) [OF carries_only(1) [OF assms(1)] a, of p] a EnvAcquire by simp
next
  case (EnvRelease q)
  have "q \<notin> snd ` set (c_streams (lk_conn w)) \<Longrightarrow> q \<noteq> p" using carries_only(3) [OF assms(1)] by metis
  then show ?thesis using EnvRelease by simp
next
  case (EnvRead l q)
  then have "q \<noteq> p" using assms(2) carries_only(2) [OF assms(1)] by auto
  then show ?thesis using EnvRead by simp
next
  case (EnvCloseBody q)
  then have "q \<noteq> p" using assms(2) carries_only(2) [OF assms(1)] by auto
  then show ?thesis using EnvCloseBody by simp
qed (use assms(3) in \<open>auto split: prod.splits\<close>)

lemma mem_on [simp]: "lk_mem (on_link g w) = snd (g (lk_conn w, lk_mem w))"
  by (simp add: on_link_def split_beta Let_def)

lemma ring_fail [simp]: "ring (m_stream (lk_mem (fail e s w)) p) = ring (m_stream (lk_mem w) p)"
  by (simp add: fail_def Let_def split: option.splits)

lemma ring_failAll [simp]: "ring (m_stream (lk_mem (failAllStreams e w)) p) = ring (m_stream (lk_mem w) p)"
proof -
  have "ring (m_stream (fold (\<lambda>(sid, cs). mem_FailBody e (cs_h2 cs)) xs m) p) = ring (m_stream m p)"
    for xs :: "(uint32 \<times> clientStream) list" and m
    by (induction xs arbitrary: m) auto
  then show ?thesis by (simp add: failAllStreams_def Let_def)
qed

lemma ring_take [simp]: "ring (m_stream (lk_mem (snd (take_response res w))) p) = ring (m_stream (lk_mem w) p)"
  by (auto simp: take_response_def deliverResponse_def deliverHeaders_def Let_def split: sum.splits option.splits prod.splits)

text \<open>What a frame adds to the body: the bytes of the stream's own DATA frames.\<close>

lemma body_frame:
  assumes "carries sid p n w" "stream_ok (m_stream (lk_mem w) p)" "m' = lk_mem (snd (tunnel_frame L k now f w))"
  shows "stream_ok (m_stream m' p)" "st_pending (m_stream m' p) = st_pending (m_stream (lk_mem w) p) @ fwd_bytes sid (FFrame k now f) w"
proof -
  have "stream_ok (m_stream m' p) \<and> st_pending (m_stream m' p) = st_pending (m_stream (lk_mem w) p) @ fwd_bytes sid (FFrame k now f) w"
  proof (cases "\<exists>d fl es. f = FData sid d fl es \<and> \<not> InContinuation (lk_conn w)")
    case True
    then obtain d fl es where f: "f = FData sid d fl es" "\<not> InContinuation (lk_conn w)" by blast
    have m': "m' = deliver_data k d es p (lk_mem w)"
      using f assms(3) carries_only(2) [OF assms(1)] by (simp add: tunnel_frame_def handleProxyFrame_def HandleInboundData_def Let_def)
    have "stream_ok (m_stream m' p)" unfolding m' using assms(2)
      by (auto simp: deliver_data_def mem_PushData_def mem_CloseData_def PushData_def CloseData_def stream_ok_def Let_def split: prod.splits)
    then show ?thesis using deliver_data_same(1) [OF assms(2)] f by (simp add: m' fwd_bytes_def)
  next
    case False
    have rs: "ring (m_stream (snd (HandleWindowUpdate s i (c, m))) p) = ring (m_stream m p)"
      "ring (m_stream (snd (HandleRSTStream s (c, m))) p) = ring (m_stream m p)" for s i c m
      by (auto simp: HandleWindowUpdate_def grant_stream_def HandleRSTStream_def reset_stream_def split: option.splits)
    have da: "s \<noteq> sid \<Longrightarrow> ring (m_stream (snd (HandleInboundData k s d fl es (lk_conn w, lk_mem w))) p) = ring (m_stream (lk_mem w) p)"
      for s d fl es
    proof (cases "GetStream s (lk_conn w)")
      case (Some q)
      moreover assume "s \<noteq> sid"
      ultimately have "p \<noteq> q" using carries_only(4) [OF assms(1), of s] by auto
      then show ?thesis using Some by (simp add: HandleInboundData_def deliver_data_other Let_def)
    qed (simp add: HandleInboundData_def Let_def)
    have st: "ring (m_stream (lk_mem (snd (handleProxyFrame L k now (FSettings ack xs) w))) p) = ring (m_stream (lk_mem w) p)" for ack xs
      using ring_settings [of xs "(lk_conn w, lk_mem w)" p] by (auto simp: handleProxyFrame_def split: prod.splits option.splits)
    have h: "\<not> InContinuation (lk_conn w) \<Longrightarrow> ring (m_stream (lk_mem (snd (handleProxyFrame L k now f w))) p) = ring (m_stream (lk_mem w) p)"
      using False st by (cases f) (simp_all add: handleProxyFrame_def rs da)
    have r: "ring (m_stream m' p) = ring (m_stream (lk_mem w) p)"
      unfolding assms(3) tunnel_frame_def using h by (auto split: frame.splits)
    have "fwd_bytes sid (FFrame k now f) w = []" using False by (auto simp: fwd_bytes_def split: frame.splits)
    then show ?thesis using ring_pending [OF r] assms(2) by simp
  qed
  then show "stream_ok (m_stream m' p)" "st_pending (m_stream m' p) = st_pending (m_stream (lk_mem w) p) @ fwd_bytes sid (FFrame k now f) w"
    by auto
qed

lemma body_op:
  assumes "carries sid p n w" "\<not> forwarder_owns sid w (FOp e)"
  shows "ring (m_stream (lk_mem (proxy_step L e w)) p) = ring (m_stream (lk_mem w) p)"
proof (cases e)
  case (POp t)
  show ?thesis
  proof (cases t)
    case (TGiveUp now s)
    then have s: "s \<noteq> sid" using assms(2) POp by simp
    have "cs_h2 cs \<noteq> p" if "getStream s w = Some cs" for cs
      using carries_only(4) [OF assms(1), of s] s registries_agree(3) [of w s] assms(1) that by (auto simp: carries_def)
    then show ?thesis using POp TGiveUp by (auto simp: give_up_def split: option.splits)
  qed (use POp ring_open [OF assms(1)] in auto)
next
  case (PMem x)
  then show ?thesis using ring_env [OF assms(1), of x L] assms(2) by (cases x) auto
qed

lemma body_step:
  assumes "carries sid p n w" "stream_ok (m_stream (lk_mem w) p)" "w' = fwd_step L (forwarder_owns sid) e w"
  shows "stream_ok (m_stream (lk_mem w') p)" "st_pending (m_stream (lk_mem w') p) = st_pending (m_stream (lk_mem w) p) @ fwd_bytes sid e w"
proof -
  have "stream_ok (m_stream (lk_mem w') p) \<and>
    st_pending (m_stream (lk_mem w') p) = st_pending (m_stream (lk_mem w) p) @ fwd_bytes sid e w"
  proof (cases e)
    case (FOp x)
    then have r: "ring (m_stream (lk_mem w') p) = ring (m_stream (lk_mem w) p)"
      using body_op [OF assms(1)] assms(3) by (simp add: fwd_step_def)
    then show ?thesis using ring_pending [OF r] assms(2) FOp by (simp add: fwd_bytes_def)
  next
    case (FFrame k now f)
    then show ?thesis using body_frame [OF assms(1,2) refl] assms(3) by (simp add: fwd_step_def)
  next
    case (FDown x)
    then have r: "ring (m_stream (lk_mem w') p) = ring (m_stream (lk_mem w) p)"
      using assms(3) by (simp add: fwd_step_def tunnel_teardown_def Worker_detach_def ring_fail_all Let_def)
    then show ?thesis using ring_pending [OF r] assms(2) FDown by (simp add: fwd_bytes_def)
  qed
  then show "stream_ok (m_stream (lk_mem w') p)"
    "st_pending (m_stream (lk_mem w') p) = st_pending (m_stream (lk_mem w) p) @ fwd_bytes sid e w" by auto
qed

section \<open>The copy loop\<close>

text \<open>What has arrived is what has been copied and what is still to be read.\<close>

definition relayed :: "uint32 \<Rightarrow> ptr \<Rightarrow> int \<Rightarrow> fstate \<Rightarrow> bool" where
  "relayed sid p n s \<longleftrightarrow> carries sid p n (f_w s) \<and> stream_ok (m_stream (lk_mem (f_w s)) p) \<and>
     pb_body (f_pub s) @ st_pending (m_stream (lk_mem (f_w s)) p) = f_in s"

lemma relayed_meanwhile: "relayed sid p n s \<Longrightarrow> relayed sid p n (meanwhile L sid es s)"
proof (induction es arbitrary: s)
  case (Cons e es)
  have c: "carries sid p n (f_w s)" "stream_ok (m_stream (lk_mem (f_w s)) p)" using Cons.prems by (simp_all add: relayed_def)
  have "carries sid p n (f_w (meanwhile L sid [e] s))" by (rule carries_meanwhile [OF c(1)])
  then have "relayed sid p n (meanwhile1 L sid e s)"
    using body_step [OF c refl, of L e] Cons.prems by (auto simp: relayed_def meanwhile_def meanwhile1_def)
  then show ?case using Cons.IH by (simp add: meanwhile_def)
qed (simp add: meanwhile_def)

text \<open>How the copying ended: with the end of the body, everything copied, or with a failed public write, which loses its bytes.\<close>

definition relay_result :: "uint32 \<Rightarrow> ptr \<Rightarrow> gerr option \<Rightarrow> fstate \<Rightarrow> bool" where
  "relay_result sid p r s \<longleftrightarrow>
     (let st = m_stream (lk_mem (f_w s)) p in
      case r of
        Some e \<Rightarrow> pb_body (f_pub s) = f_in s \<and> st_end st = Some e
      | None \<Rightarrow> \<exists>lost. lost \<noteq> [] \<and> pb_body (f_pub s) @ lost @ st_pending st = f_in s)"

lemma relayed_read:
  assumes "relayed sid p n s" "mem_Read l p (lk_mem (f_w s)) = (x, m)" "s2 = s\<lparr>f_w := (f_w s)\<lparr>lk_mem := m\<rparr>\<rparr>"
  shows "x = ROk bs \<Longrightarrow> carries sid p n (f_w s2) \<and> stream_ok (m_stream m p) \<and> pb_body (f_pub s) @ bs @ st_pending (m_stream m p) = f_in s"
    "x = RErr e \<Longrightarrow> pb_body (f_pub s2) = f_in s2 \<and> st_end (m_stream m p) = Some e"
proof -
  have s: "carries sid p n (f_w s)" "stream_ok (m_stream (lk_mem (f_w s)) p)"
    "pb_body (f_pub s) @ st_pending (m_stream (lk_mem (f_w s)) p) = f_in s" using assms(1) by (simp_all add: relayed_def)
  obtain st fr where rd: "bodyReader_Read l (m_stream (lk_mem (f_w s)) p) = (x, st, fr)"
    and m: "m_stream m p = st" using assms(2) by (auto simp: mem_Read_def put_all_def split: prod.splits)
  show "carries sid p n (f_w s2) \<and> stream_ok (m_stream m p) \<and> pb_body (f_pub s) @ bs @ st_pending (m_stream m p) = f_in s"
    if "x = ROk bs" using Read_ok(1,3) [OF s(2), of l bs st fr] rd that m s(3) carries_read [OF s(1) assms(2)] by (simp add: assms(3))
  show "pb_body (f_pub s2) = f_in s2 \<and> st_end (m_stream m p) = Some e" if "x = RErr e"
    using Read_not_ok(1,2,4) [OF s(2) rd] that m s(3) by (auto simp: assms(3) split: option.splits)
qed

lemma pub_Write_fields [simp]: "pb_body (pub_Write bs pub) = pb_body pub @ bs" "pb_Header (pub_Write bs pub) = pb_Header pub"
  by (simp_all add: pub_Write_def Let_def)

lemma copy_relayed:
  "copy_body L sid p ts s = Some (r, s') \<Longrightarrow> relayed sid p n s \<Longrightarrow> relay_result sid p r s' \<and> pb_Header (f_pub s') = pb_Header (f_pub s)"
proof (induction ts arbitrary: s)
  case (Cons t ts)
  define s1 where "s1 = meanwhile L sid (ct_ops t) s"
  have 1: "relayed sid p n s1" unfolding s1_def by (rule relayed_meanwhile [OF Cons.prems(2)])
  have h: "pb_Header (f_pub s1) = pb_Header (f_pub s)" by (simp add: s1_def meanwhile_pub)
  obtain x m where x: "mem_Read (16 * 1024) p (lk_mem (f_w s1)) = (x, m)" by (metis prod.exhaust)
  define s2 where "s2 = s1\<lparr>f_w := (f_w s1)\<lparr>lk_mem := m\<rparr>\<rparr>"
  note rd = relayed_read [OF 1 x s2_def]
  note b = Cons.prems(1) [simplified copy_body.simps Let_def, folded s1_def, unfolded x prod.case, folded s2_def]
  show ?case
  proof (cases x)
    case RBlock
    then show ?thesis using b Cons.IH [OF _ 1] h by simp
  next
    case (RErr e)
    then show ?thesis using b rd(2) h by (auto simp: relay_result_def s2_def)
  next
    case (ROk bs)
    note ok = rd(1) [OF ROk]
    have f: "f_pub s2 = f_pub s1" "f_in s2 = f_in s1" "lk_mem (f_w s2) = m" by (simp_all add: s2_def)
    have w: "relayed sid p n (s2\<lparr>f_pub := pub_Write bs (f_pub s2)\<rparr>)" using ok f by (simp add: relayed_def)
    show ?thesis
    proof (cases "bs = []")
      case True
      then have "relayed sid p n s2" using ok f by (simp add: relayed_def)
      then show ?thesis using b ROk True Cons.IH [of s2] f h by simp
    next
      case False
      then show ?thesis using b ROk ok f h Cons.IH [OF _ w] by (auto simp: relay_result_def split: if_splits)
    qed
  qed
qed simp

text \<open>With a finished body and a client that keeps reading, the loop comes to its end.\<close>

lemma copy_returns:
  assumes "relayed sid p n s" "st_end (m_stream (lk_mem (f_w s)) p) = Some e" "\<forall>t \<in> set ts. ct_ops t = [] \<and> \<not> ct_werr t"
    "length (st_pending (m_stream (lk_mem (f_w s)) p)) < length ts"
  shows "\<exists>s'. copy_body L sid p ts s = Some (Some e, s') \<and> f_in s' = f_in s"
  using assms
proof (induction ts arbitrary: s)
  case (Cons t ts)
  let ?st = "m_stream (lk_mem (f_w s)) p"
  have ok: "stream_ok ?st" using Cons.prems(1) by (simp add: relayed_def)
  have t: "meanwhile L sid (ct_ops t) s = s" "\<not> ct_werr t" using Cons.prems(3) by (simp_all add: meanwhile_def)
  obtain x m where x: "mem_Read (16 * 1024) p (lk_mem (f_w s)) = (x, m)" by (metis prod.exhaust)
  obtain st fr where rd: "bodyReader_Read (16 * 1024) ?st = (x, st, fr)"
    and m: "m_stream m p = st" using x by (auto simp: mem_Read_def put_all_def split: prod.splits)
  define s2 where "s2 = s\<lparr>f_w := (f_w s)\<lparr>lk_mem := m\<rparr>\<rparr>"
  show ?case
  proof (cases x)
    case (ROk bs)
    have sp: "st_pending ?st = bs @ st_pending st" "st_end st = st_end ?st" by (rule Read_ok(1,2) [OF ok rd [unfolded ROk]])+
    have "bs \<noteq> []"
    proof (cases "st_pending ?st = []")
      case True
      from body.rd_end [OF ok True Cons.prems(2), of "16 * 1024"] show ?thesis unfolding stream_read_def rd ROk by simp
    next
      case False
      from Read_progress [OF ok _ False, of "16 * 1024"] show ?thesis unfolding rd ROk by auto
    qed
    define s3 where "s3 = s2\<lparr>f_pub := pub_Write bs (f_pub s2)\<rparr>"
    have step: "copy_body L sid p (t # ts) s = copy_body L sid p ts s3"
      unfolding copy_body.simps Let_def t(1) x ROk prod.case read_result.case s2_def [symmetric] s3_def using t(2) \<open>bs \<noteq> []\<close> by simp
    have r3: "relayed sid p n s3"
      using relayed_read(1) [OF Cons.prems(1) x s2_def ROk] by (simp add: relayed_def s2_def s3_def)
    have st: "m_stream (lk_mem (f_w s3)) p = st" "f_in s3 = f_in s" by (simp_all add: s3_def s2_def m)
    have "length (st_pending st) < length ts" using sp(1) Cons.prems(4) \<open>bs \<noteq> []\<close> by (cases bs; simp)
    with Cons.prems(2,3) sp(2) show ?thesis unfolding step st(2) [symmetric] by (intro Cons.IH [OF r3]) (simp_all add: st(1))
  next
    case (RErr e')
    then have "e' = e" using Read_not_ok(4) [OF ok rd] Cons.prems(2) by simp
    then show ?thesis unfolding copy_body.simps Let_def t(1) x RErr prod.case read_result.case by simp
  next
    case RBlock
    then show ?thesis using Read_not_ok(4) [OF ok rd] Cons.prems(2) by simp
  qed
qed simp

section \<open>From the opening of the stream\<close>

lemma open_fresh:
  assumes "openStream k now iw sh w = (Inr sid, w1)" "cm_ok (lk_conn w, lk_mem w)" "getStream sid w1 = Some cs"
  shows "st_pending (m_stream (lk_mem w1) (cs_h2 cs)) = []" "stream_ok (m_stream (lk_mem w1) (cs_h2 cs))"
    "st_dataErr (m_stream (lk_mem w1) (cs_h2 cs)) = None" "cs_respHeader cs = []" "cs_respStatus cs = 0"
proof -
  obtain x c1 where n: "NextStreamID (lk_conn w) = (x, c1)" by (metis prod.exhaust)
  obtain q m1 where a: "Acquire k x (c_self c1) iw (lk_mem w) = (q, m1)" by (metis prod.exhaust)
  have q: "cs_h2 cs = q" "lk_mem w1 = m1" "cs_respHeader cs = []" "cs_respStatus cs = 0"
    using assms(1,3) n a by (auto simp: openStream_def getStream_def update_conv' Let_def split: prod.splits option.splits if_splits)
  then have "m_stream (lk_mem w1) (cs_h2 cs) = fresh_stream x (c_self c1) iw (m_nextCtx (lk_mem w))"
    using Acquire_cm_ok(4) [OF assms(2) a] by simp
  then show "st_pending (m_stream (lk_mem w1) (cs_h2 cs)) = []" "stream_ok (m_stream (lk_mem w1) (cs_h2 cs))"
    "st_dataErr (m_stream (lk_mem w1) (cs_h2 cs)) = None" "cs_respHeader cs = []" "cs_respStatus cs = 0"
    using q by (simp_all add: st_pending_def fresh_stream_def stream_ok_def)
qed

lemma forward_relayed:
  assumes "regs_ok w" "openForward L k now mid req w = (Inr sid, w1)" "pb_body pub = []"
    "s = meanwhile L sid es \<lparr>f_w = w1, f_pub = pub, f_in = []\<rparr>" "getStream sid (f_w s) = Some cs"
  shows "relayed sid (cs_h2 cs) (wk_inFlight w) s"
proof -
  from openForward_spec(3) [OF assms(1,2) refl] obtain cs1 where
    c: "getStream sid w1 = Some cs1" "carries sid (cs_h2 cs1) (wk_inFlight w) w1" by blast
  have "cm_ok (lk_conn (fwd_run L (\<lambda>_ _. False) mid w), lk_mem (fwd_run L (\<lambda>_ _. False) mid w))"
    by (rule regs_cm [OF fwd_run_regs [OF assms(1)]])
  from open_fresh(1,2) [OF assms(2) [unfolded openForward_def Let_def] this c(1)] c(2)
  have "relayed sid (cs_h2 cs1) (wk_inFlight w) \<lparr>f_w = w1, f_pub = pub, f_in = []\<rparr>"
    using assms(3) by (simp add: relayed_def)
  then have r: "relayed sid (cs_h2 cs1) (wk_inFlight w) s" unfolding assms(4) by (rule relayed_meanwhile)
  then have "cs_h2 cs1 = cs_h2 cs" using assms(5) by (simp add: relayed_def carries_def)
  with r show ?thesis by simp
qed

text \<open>The public response as \<open>writeResponse\<close> starts to copy.\<close>

lemma relayed_pub: "relayed sid p n s \<Longrightarrow> pb_body pub = pb_body (f_pub s) \<Longrightarrow> relayed sid p n (s\<lparr>f_pub := pub\<rparr>)"
  by (simp add: relayed_def)

lemma WriteHeader_fields:
  "pub_WriteHeader code pub = Some pub' \<Longrightarrow> pb_body pub' = pb_body pub \<and> pb_Header pub' = pb_Header pub"
  by (auto simp: pub_WriteHeader_def split: if_splits)

lemma open_sent:
  assumes "openStream k now iw sh w = (Inr sid, w1)" "NextStreamID (lk_conn w) = (x, c1)"
    "Acquire k x (c_self c1) iw (lk_mem w) = (q, m1)"
  shows "sh x (Conn_AddStream q m1 c1) = (None, lk_conn w1)"
  using assms by (auto simp: openStream_def Let_def split: prod.splits option.splits if_splits)

lemma open_conn:
  assumes "openForward L k now mid req w = (Inr sid, w1)" "regs_ok w"
  shows "c_contStreamID (lk_conn w1) = c_contStreamID (lk_conn (fwd_run L (\<lambda>_ _. False) mid w))"
proof -
  define w0 where "w0 = fwd_run L (\<lambda>_ _. False) mid w"
  have r: "regs_ok w0" unfolding w0_def by (rule fwd_run_regs [OF assms(2)])
  obtain x c1 where n: "NextStreamID (lk_conn w0) = (x, c1)" by (metis prod.exhaust)
  obtain q m1 where a: "Acquire k x (c_self c1) (InitialStreamWindow (c_Send (lk_conn w))) (lk_mem w0) = (q, m1)" by (metis prod.exhaust)
  let ?c = "Conn_AddStream q m1 c1"
  have c: "c_contStreamID ?c = c_contStreamID (lk_conn w0)" "c_lowerNames ?c = c_lowerNames (lk_conn w0)"
    using n by (auto simp: Conn_AddStream_def NextStreamID_def Let_def)
  have ca: "cache_ok ToLower (c_lowerNames ?c)" using regs_cm [OF r] by (simp add: c(2) cm_ok_def conn_ok_def)
  note sent = open_sent [OF assms(1) [unfolded openForward_def Let_def w0_def [symmetric]] n a, unfolded SendRequestHeaders_def]
  from ca sent have "unowned (lk_conn w1) = unowned ?c" by (cases rule: submit_cases) auto
  from unowned_fields(6) [OF this] c(1) show ?thesis by (simp add: w0_def)
qed

text \<open>A response body of one frame.\<close>

definition sample_arrival :: "fwd_op list" where
  "sample_arrival = [FFrame 0 0 (FData 1 [7, 8] 2 True)]"

definition sample_copy :: "copy_turn list" where
  "sample_copy = replicate 3 \<lparr>ct_ops = [], ct_werr = False\<rparr>"

lemma sample_arrived:
  assumes "openForward literal_lib 0 0 [] sample_public_request (add_inFlight 1 new_Worker) = (Inr 1, w1)"
    "s = meanwhile literal_lib 1 sample_arrival \<lparr>f_w = w1, f_pub = fresh_public, f_in = []\<rparr>"
  shows "\<exists>cs. getStream 1 (f_w s) = Some cs \<and> st_end (m_stream (lk_mem (f_w s)) (cs_h2 cs)) = Some EOF \<and> f_in s = [7, 8] \<and>
    cs_respHeader cs = [] \<and> cs_respStatus cs = 0"
proof -
  let ?w = "add_inFlight 1 new_Worker"
  have r: "regs_ok ?w" using new_Worker_ok(1) by (simp add: worker_ok_def)
  from openForward_spec(3) [OF r assms(1) refl] obtain cs where
    cs: "getStream 1 w1 = Some cs" "carries 1 (cs_h2 cs) (wk_inFlight ?w) w1" by blast
  have i: "\<not> InContinuation (lk_conn w1)"
    using open_conn [OF assms(1) r] by (simp add: InContinuation_def fwd_run_def add_inFlight_def new_Worker_def init_Conn_def)
  have cm: "cm_ok (lk_conn (fwd_run literal_lib (\<lambda>_ _. False) [] ?w), lk_mem (fwd_run literal_lib (\<lambda>_ _. False) [] ?w))"
    by (rule regs_cm [OF fwd_run_regs [OF r]])
  note fr = open_fresh [OF assms(1) [unfolded openForward_def Let_def] cm cs(1)]
  have w: "f_w s = w1\<lparr>lk_conn := lk_conn (f_w s), lk_mem := deliver_data 0 [7, 8] True (cs_h2 cs) (lk_mem w1)\<rparr>" "f_in s = [7, 8]"
    using i carries_only(2) [OF cs(2)]
    by (simp_all add: assms(2) sample_arrival_def meanwhile_def meanwhile1_def fwd_step_def fwd_bytes_def tunnel_frame_def
        handleProxyFrame_def on_link_def HandleInboundData_def Let_def)
  have "getStream 1 (f_w s) = getStream 1 w1" by (subst w(1)) (simp add: getStream_def)
  moreover have "lk_mem (f_w s) = deliver_data 0 [7, 8] True (cs_h2 cs) (lk_mem w1)" by (subst w(1)) simp
  moreover have "st_dataErr (m_stream (lk_mem w1) (cs_h2 cs)) = None" "cs_respHeader cs = []" "cs_respStatus cs = 0" using fr(3-5) by auto
  ultimately show ?thesis using cs(1) w(2) deliver_data_same(2) [OF fr(2), of 0 "[7, 8]" True] by auto
qed

section \<open>Properties\<close>

text \<open>
  C6. The response is relayed as it came. Whatever else happens on the tunnel from the opening of a stream to the end of
  \<open>writeResponse\<close>, the public body is, byte for byte and in order, what the DATA frames of that stream have
  carried: all of it when the copying ended with the end of the body, be it EOF or the reset of the stream, and all but the
  unread rest and the bytes of the failed write when the client went away. The public headers are those of the worker.
\<close>

theorem response_relayed:
  assumes "regs_ok w" "openForward L k now mid req w = (Inr sid, w1)" "pb_body pub = []" "pb_Header pub = []"
    "s = meanwhile L sid es \<lparr>f_w = w1, f_pub = pub, f_in = []\<rparr>" "getStream sid (f_w s) = Some cs" "header_wf (cs_respHeader cs)"
    "writeResponse L ts sid cs s = Some (True, r, s')"
  shows "relay_result sid (cs_h2 cs) r s' \<and> pb_Header (f_pub s') = cs_respHeader cs"
proof -
  let ?pub1 = "(f_pub s)\<lparr>pb_Header := copy_headers (\<lambda>_. False) (cs_respHeader cs) (pb_Header (f_pub s))\<rparr>"
  have h: "pb_Header ?pub1 = cs_respHeader cs" using assms(4) copy_headers_filter [OF assms(7), of "[]" "\<lambda>_. False"]
    by (simp add: assms(5))
  obtain pub2 where p2: "pub_WriteHeader (if cs_respStatus cs = 0 then 502 else cs_respStatus cs) ?pub1 = Some pub2"
    and c: "copy_body L sid (cs_h2 cs) ts (s\<lparr>f_pub := pub2\<rparr>) = Some (r, s')"
    using assms(8) by (auto simp: writeResponse_def Let_def split: option.splits)
  note f = WriteHeader_fields [OF p2]
  have "relayed sid (cs_h2 cs) (wk_inFlight w) (s\<lparr>f_pub := pub2\<rparr>)"
    by (rule relayed_pub [OF forward_relayed [OF assms(1-3,5,6)]]) (simp add: f)
  from copy_relayed [OF c this] h f show ?thesis by simp
qed

theorem response_relayed_witness:
  "\<exists>w1 s cs s'. openForward literal_lib 0 0 [] sample_public_request (add_inFlight 1 new_Worker) = (Inr 1, w1) \<and>
     s = meanwhile literal_lib 1 sample_arrival \<lparr>f_w = w1, f_pub = fresh_public, f_in = []\<rparr> \<and> getStream 1 (f_w s) = Some cs \<and>
     writeResponse literal_lib sample_copy 1 cs s = Some (True, Some EOF, s') \<and> relay_result 1 (cs_h2 cs) (Some EOF) s'"
proof -
  have r: "regs_ok (add_inFlight 1 new_Worker)" using new_Worker_ok(1) by (simp add: worker_ok_def)
  obtain w1 where o: "openForward literal_lib 0 0 [] sample_public_request (add_inFlight 1 new_Worker) = (Inr 1, w1)"
    using sample_open by blast
  define s where "s = meanwhile literal_lib 1 sample_arrival \<lparr>f_w = w1, f_pub = fresh_public, f_in = []\<rparr>"
  obtain cs where cs: "getStream 1 (f_w s) = Some cs" "st_end (m_stream (lk_mem (f_w s)) (cs_h2 cs)) = Some EOF" "f_in s = [7, 8]"
    "cs_respHeader cs = []" "cs_respStatus cs = 0" using sample_arrived [OF o s_def] by blast
  have p: "pb_body fresh_public = []" "pb_Header fresh_public = []" "f_pub s = fresh_public" by (simp_all add: fresh_public_def s_def)
  define s1 where "s1 = s\<lparr>f_pub := fresh_public\<lparr>pb_status := Some 502\<rparr>\<rparr>"
  have "relayed 1 (cs_h2 cs) (wk_inFlight (add_inFlight 1 new_Worker)) s1"
    unfolding s1_def by (rule relayed_pub [OF forward_relayed [OF r o p(1) s_def cs(1)]]) (simp add: p)
  from copy_returns [OF this, of EOF sample_copy literal_lib] obtain s' where
    c: "copy_body literal_lib 1 (cs_h2 cs) sample_copy s1 = Some (Some EOF, s')"
    using cs(2,3) forward_relayed [OF r o p(1) s_def cs(1)] p
    by (auto simp: s1_def sample_copy_def relayed_def)
  have "pub_WriteHeader 502 fresh_public = Some (fresh_public\<lparr>pb_status := Some 502\<rparr>)" by (simp add: pub_WriteHeader_def fresh_public_def)
  then have w: "writeResponse literal_lib sample_copy 1 cs s = Some (True, Some EOF, s')"
    using c cs(4,5) p by (simp add: writeResponse_def s1_def Let_def fresh_public_def)
  have "header_wf (cs_respHeader cs)" by (simp add: cs(4) header_wf_def)
  from response_relayed [OF r o p(1,2) s_def cs(1) this w] o s_def cs(1) w show ?thesis by auto
qed

text \<open>
  C25. Copying comes to an end. When the worker has finished its response and the client keeps reading, the copy loop returns
  after at most one read per byte that is left and one more, with the whole response body copied.
\<close>

theorem response_copied:
  assumes "regs_ok w" "openForward L k now mid req w = (Inr sid, w1)" "pb_body pub = []"
    "s = meanwhile L sid es \<lparr>f_w = w1, f_pub = pub, f_in = []\<rparr>" "getStream sid (f_w s) = Some cs"
    "st_end (m_stream (lk_mem (f_w s)) (cs_h2 cs)) = Some e" "\<forall>t \<in> set ts. ct_ops t = [] \<and> \<not> ct_werr t" "length (f_in s) < length ts"
  shows "\<exists>s'. copy_body L sid (cs_h2 cs) ts s = Some (Some e, s') \<and> pb_body (f_pub s') = f_in s"
proof -
  note r = forward_relayed [OF assms(1-5)]
  then have "length (st_pending (m_stream (lk_mem (f_w s)) (cs_h2 cs))) < length ts"
    using assms(8) by (auto simp: relayed_def dest: arg_cong [where f = length])
  from copy_returns [OF r assms(6,7) this] obtain s' where
    s': "copy_body L sid (cs_h2 cs) ts s = Some (Some e, s')" "f_in s' = f_in s" by blast
  from copy_relayed [OF s'(1) r] s' show ?thesis by (auto simp: relay_result_def Let_def)
qed

theorem response_copied_witness:
  "\<exists>w1 s s'. \<exists>cs :: clientStream. openForward literal_lib 0 0 [] sample_public_request (add_inFlight 1 new_Worker) = (Inr 1, w1) \<and>
     s = meanwhile literal_lib 1 sample_arrival \<lparr>f_w = w1, f_pub = fresh_public, f_in = []\<rparr> \<and>
     copy_body literal_lib 1 (cs_h2 cs) sample_copy s = Some (Some EOF, s') \<and> pb_body (f_pub s') = [7, 8]"
proof -
  have r: "regs_ok (add_inFlight 1 new_Worker)" using new_Worker_ok(1) by (simp add: worker_ok_def)
  obtain w1 where o: "openForward literal_lib 0 0 [] sample_public_request (add_inFlight 1 new_Worker) = (Inr 1, w1)"
    using sample_open by blast
  define s where "s = meanwhile literal_lib 1 sample_arrival \<lparr>f_w = w1, f_pub = fresh_public, f_in = []\<rparr>"
  obtain cs where cs: "getStream 1 (f_w s) = Some cs" "st_end (m_stream (lk_mem (f_w s)) (cs_h2 cs)) = Some EOF" "f_in s = [7, 8]"
    using sample_arrived [OF o s_def] by blast
  have "\<forall>t \<in> set sample_copy. ct_ops t = [] \<and> \<not> ct_werr t" "length (f_in s) < length sample_copy" "pb_body fresh_public = []"
    by (simp_all add: sample_copy_def cs(3) fresh_public_def)
  from response_copied [OF r o this(3) s_def cs(1,2) this(1,2)] o s_def cs(3) show ?thesis by metis
qed

end
