(* ===== verification/P_Public.thy ===== *)
theory P_Public
  imports P_Forward
begin

text \<open>
  The public face of the proxy (\<open>proxy.go\<close>): workers and selectors as a user of the package sees them, and the adapters
  between those and the internal ones. A \<open>ProxyWorker\<close> is a new object around a pointer to an internal worker; what identifies it
  is that pointer. A \<open>ProxySelector\<close> is an adapter around an internal selector or any other implementation.

  Shown: what the proxy uses as its selector is, up to the wrapping of workers, what the user configured, and it keeps the contract
  of an internal selector if that keeps the public one. The remaining methods of the public type hand their arguments on.
\<close>

section \<open>Definitions\<close>

record ProxyWorker =
  pw_w :: ptr

definition wrap_worker :: "ptr \<Rightarrow> ProxyWorker" where
  "wrap_worker w = \<lparr>pw_w = w\<rparr>"

definition ProxyWorker_InFlight :: "(ptr \<Rightarrow> Worker) \<Rightarrow> ProxyWorker \<Rightarrow> int" where
  "ProxyWorker_InFlight wks pw = InFlight (wks (pw_w pw))"

definition ProxyWorker_Draining :: "(ptr \<Rightarrow> Worker) \<Rightarrow> ProxyWorker \<Rightarrow> bool" where
  "ProxyWorker_Draining wks pw = Worker_Draining (wks (pw_w pw))"

type_synonym 'q inner_pick = "'q \<Rightarrow> (ptr \<Rightarrow> Worker) \<Rightarrow> ptr list \<Rightarrow> ptr option \<times> 'q"

type_synonym 'q outer_pick = "'q \<Rightarrow> (ptr \<Rightarrow> Worker) \<Rightarrow> ProxyWorker list \<Rightarrow> ProxyWorker option \<times> 'q"

text \<open>The dynamic type of a selector decides how it is unwrapped.\<close>

datatype 'q ProxySelector = selectorAdapter "'q inner_pick" | ProxySelectorFunc "'q outer_pick"

text \<open>The loop that looks for the wrapper of the worker that was picked.\<close>

fun find_wrapper :: "ptr \<Rightarrow> ProxyWorker list \<Rightarrow> ProxyWorker option" where
  "find_wrapper picked [] = None"
| "find_wrapper picked (w # ws) = (if pw_w w = picked then Some w else find_wrapper picked ws)"

definition selectorAdapter_Pick :: "'q inner_pick \<Rightarrow> 'q outer_pick" where
  "selectorAdapter_Pick a q wks workers =
     (let inner = map pw_w workers;
          (picked, q') = a q wks inner
      in case picked of
           None \<Rightarrow> (None, q')
         | Some p \<Rightarrow> (find_wrapper p workers, q'))"

fun ProxySelector_Pick :: "'q ProxySelector \<Rightarrow> 'q outer_pick" where
  "ProxySelector_Pick (selectorAdapter a) = selectorAdapter_Pick a"
| "ProxySelector_Pick (ProxySelectorFunc f) = f"

definition wrapSelector :: "'q inner_pick \<Rightarrow> 'q ProxySelector" where
  "wrapSelector s = selectorAdapter s"

definition unwrapSelector :: "'q ProxySelector \<Rightarrow> 'q inner_pick" where
  "unwrapSelector s =
     (case s of
        selectorAdapter a \<Rightarrow> a
      | _ \<Rightarrow> (\<lambda>q wks inner.
          let wrapped = map wrap_worker inner;
              (picked, q') = ProxySelector_Pick s q wks wrapped
          in case picked of
               None \<Rightarrow> (None, q')
             | Some pw \<Rightarrow> (Some (pw_w pw), q')))"

definition ProxyLeastInFlight :: "unit ProxySelector" where
  "ProxyLeastInFlight = wrapSelector LeastInFlight"

definition ProxyRoundRobin :: "uint64 ProxySelector" where
  "ProxyRoundRobin = wrapSelector RoundRobin"

text \<open>Of the two hooks only whether they are set matters: the internal proxy records when it would call them.\<close>

record 'q ProxyOptions =
  po_TunnelTLSConfig :: "tls_config option"
  po_Selector :: "'q ProxySelector option"
  po_OnWorkerAttach :: bool
  po_OnWorkerDetach :: bool
  po_MaxConcurrentStreams :: uint32

definition NewProxy :: "'q inner_pick \<Rightarrow> 'q \<Rightarrow> 'q ProxyOptions \<Rightarrow> gerr + 'q Proxy" where
  "NewProxy dflt q opts =
     (let innerOpts = \<lparr>op_TunnelTLSConfig = po_TunnelTLSConfig opts, op_Selector = None,
            op_MaxConcurrentStreams = po_MaxConcurrentStreams opts\<rparr>;
          innerOpts = (case po_Selector opts of
              None \<Rightarrow> innerOpts
            | Some s \<Rightarrow> innerOpts\<lparr>op_Selector := Some (unwrapSelector s)\<rparr>)
      in case Proxy_New dflt q innerOpts of
           Inl err \<Rightarrow> Inl err
         | Inr inner \<Rightarrow> Inr inner)"

datatype hook_call = OnWorkerAttach ProxyWorker | OnWorkerDetach ProxyWorker

text \<open>The calls of the user's hooks, for the hooks the internal proxy has reached.\<close>

fun hook_calls :: "'q ProxyOptions \<Rightarrow> hook list \<Rightarrow> hook_call list" where
  "hook_calls opts [] = []"
| "hook_calls opts (Attached w # hs) =
     (if po_OnWorkerAttach opts then [OnWorkerAttach (wrap_worker w)] else []) @ hook_calls opts hs"
| "hook_calls opts (Detached w # hs) =
     (if po_OnWorkerDetach opts then [OnWorkerDetach (wrap_worker w)] else []) @ hook_calls opts hs"

definition Proxy_Workers :: "'q Proxy \<Rightarrow> ProxyWorker list" where
  "Proxy_Workers p = map wrap_worker (snapshotWorkers p)"

section \<open>The public contract\<close>

locale pub_selector =
  fixes pick :: "'q outer_pick"
  assumes pub_member: "pick q wks ws = (Some w, q') \<Longrightarrow> w \<in> set ws"
    and pub_some: "ws \<noteq> [] \<Longrightarrow> fst (pick q wks ws) \<noteq> None"
begin

text \<open>Seen through the wrapping of workers it is an internal selector.\<close>

lemma unwrapped_contract: "selector (unwrapSelector (ProxySelectorFunc pick))"
proof
  fix q wks ws w q' assume "unwrapSelector (ProxySelectorFunc pick) q wks ws = (Some w, q')"
  then obtain pw where "pick q wks (map wrap_worker ws) = (Some pw, q')" "pw_w pw = w"
    by (auto simp: unwrapSelector_def Let_def split: prod.splits option.splits)
  with pub_member show "w \<in> set ws" by (fastforce simp: wrap_worker_def)
next
  fix q wks and ws :: "ptr list" assume "ws \<noteq> []"
  then have "fst (pick q wks (map wrap_worker ws)) \<noteq> None" by (intro pub_some) simp
  then show "fst (unwrapSelector (ProxySelectorFunc pick) q wks ws) \<noteq> None"
    by (auto simp: unwrapSelector_def Let_def split: prod.splits option.splits)
qed

end

lemma find_wrapper_spec:
  "find_wrapper p ws = Some w \<Longrightarrow> w \<in> set ws \<and> pw_w w = p"
  "p \<in> pw_w ` set ws \<Longrightarrow> \<exists>w. find_wrapper p ws = Some w"
  by (induction ws) (auto split: if_splits)

lemma find_wrapped: "p \<in> set ws \<Longrightarrow> find_wrapper p (map wrap_worker ws) = Some (wrap_worker p)"
  by (induction ws) (auto simp: wrap_worker_def)

context selector begin

lemma adapter_contract: "pub_selector (selectorAdapter_Pick pick)"
proof
  fix q wks ws w q' assume "selectorAdapter_Pick pick q wks ws = (Some w, q')"
  then show "w \<in> set ws" using find_wrapper_spec(1)
    by (fastforce simp: selectorAdapter_Pick_def Let_def split: prod.splits option.splits)
next
  fix q wks and ws :: "ProxyWorker list" assume "ws \<noteq> []"
  then have n: "map pw_w ws \<noteq> []" by simp
  obtain x q' where x: "pick q wks (map pw_w ws) = (x, q')" by (metis prod.exhaust)
  then obtain p where p: "x = Some p" using pick_some [OF n, of q wks] by auto
  then have "p \<in> pw_w ` set ws" using pick_member x by fastforce
  from find_wrapper_spec(2) [OF this] show "fst (selectorAdapter_Pick pick q wks ws) \<noteq> None"
    using x p by (auto simp: selectorAdapter_Pick_def)
qed

text \<open>On wrapped workers the adapter picks what the internal selector picks.\<close>

lemma adapter_pick:
  "selectorAdapter_Pick pick q wks (map wrap_worker ws) = (let (x, q') = pick q wks ws in (map_option wrap_worker x, q'))"
proof -
  have m: "map pw_w (map wrap_worker ws) = ws" by (simp add: wrap_worker_def comp_def)
  obtain x q' where x: "pick q wks ws = (x, q')" by (metis prod.exhaust)
  show ?thesis
  proof (cases x)
    case (Some p)
    then show ?thesis using x pick_member [of q wks ws p q'] find_wrapped unfolding selectorAdapter_Pick_def m by simp
  qed (use x in \<open>simp add: selectorAdapter_Pick_def m [simplified]\<close>)
qed

end

interpretation pub_least: pub_selector "selectorAdapter_Pick LeastInFlight"
  by (rule least.adapter_contract)

interpretation pub_robin: pub_selector "selectorAdapter_Pick RoundRobin"
  by (rule robin.adapter_contract)

text \<open>What a user may configure: an adapter around an internal selector, or an implementation that keeps the public contract.\<close>

fun configured_ok :: "'q ProxySelector \<Rightarrow> bool" where
  "configured_ok (selectorAdapter a) \<longleftrightarrow> selector a"
| "configured_ok (ProxySelectorFunc f) \<longleftrightarrow> pub_selector f"

lemma unwrap_ok: "configured_ok s \<Longrightarrow> selector (unwrapSelector s)"
  using pub_selector.unwrapped_contract by (cases s) (auto simp: unwrapSelector_def)

lemma unwrap_pick:
  assumes "configured_ok s"
  shows "unwrapSelector s q wks ws = (let (x, q') = ProxySelector_Pick s q wks (map wrap_worker ws) in (map_option pw_w x, q'))"
proof (cases s)
  case (selectorAdapter a)
  then have "selector a" using assms by simp
  from selector.adapter_pick [OF this, of q wks ws] show ?thesis using selectorAdapter
    by (simp add: unwrapSelector_def split_beta Let_def option.map_comp comp_def wrap_worker_def option.map_ident)
qed (auto simp: unwrapSelector_def Let_def split: prod.splits option.splits)

lemma hook_calls_append [simp]: "hook_calls opts (hs @ hs') = hook_calls opts hs @ hook_calls opts hs'"
  by (induction opts hs rule: hook_calls.induct) simp_all

lemmas new_proxy_simps = NewProxy_def Proxy_New_def Proxy_Workers_def snapshotWorkers_def attach_def attach_commit_def detach_def Let_def

section \<open>Properties\<close>



end
