(* ===== verification/Spec2Isabelle.thy ===== *)
theory Spec2Isabelle
  imports H2_Writer_Steps W_Serve W_Pool P_Pump P_Relay P_Public
begin

text \<open>
  A model of reverse-http and the properties that make it correct.

  \<^bold>\<open>The program.\<close> reverse-http is a reverse HTTP/2 tunnel. A worker behind a firewall dials out to a proxy; once the TLS session
  is up the roles of HTTP are reversed: the proxy opens streams and sends the requests of public clients, the worker answers
  them with a local \<open>http.Handler\<close>. Both ends use one HTTP/2 connection layer, \<open>src/internal/h2\<close>. The proxy is \<open>src/internal/proxy\<close>
  with its public face \<open>src/proxy.go\<close>; the worker is the rest of the root package.

  A public request goes through \<open>forward\<close> (pick a worker, \<open>openForward\<close>, body pump), the connection's writer, the wire, the
  worker's frame loop \<open>serve\<close>, which starts a goroutine \<open>serveStream\<close> for the handler, and back through the response
  writer, the wire, the proxy's frame loop \<open>serveTunnel\<close> and the copy loop of \<open>writeResponse\<close>.

  \<^bold>\<open>How the code is modelled.\<close> One definition per function, with the source's name where Isabelle allows it. Structs are records, Go
  maps association lists (the locale \<open>registry\<close>, interpreted as \<open>gm\<close>), \<open>int32\<close> and \<open>uint32\<close> words, errors values of \<open>gerr\<close>, pointers
  natural numbers, and the pooled \<open>Stream\<close> objects live in a heap \<open>mem\<close>, so that recycling and stale pointers can be stated.
  A panic or an early return is a branch. A function that may block takes the list of what happens meanwhile and returns \<open>None\<close> if
  that list is used up before it returns: credit events for \<open>Reserve\<close>, turns for the frame loops and for the copy loop, reads
  for the body pump. No bound is put on these lists; theorems either hold for every list, or say which lists are
  long enough (\<open>Write_returns\<close>, \<open>request_body_completes\<close>, \<open>response_copied\<close>). The response writer's loop, which needs no events to run
  for ever, is a \<open>partial_function (option)\<close>.

  Interleaving is explicit. Between any two actions of a goroutine the others may do anything they can do: \<open>env_op\<close> for the
  worker, \<open>proxy_op\<close> and \<open>fwd_op\<close> for a tunnel of the proxy, \<open>credit_event\<close> for a parked writer. The accept loop, the tunnels and
  \<open>Shutdown\<close> of the proxy, and the slots, reapers and \<open>Shutdown\<close> of the pool, are transition systems (\<open>proxy_trans\<close>,
  \<open>pool_trans\<close>), as are the callers of \<open>submit\<close> and the writer goroutine (\<open>queue_trans\<close>), all of them interpretations of the locale \<open>step_system\<close>.

  The HTTP/2 framer and the HPACK codec are libraries; they are the parameter \<open>H2Lib\<close>, with \<open>hpack_ok\<close> (what an encoder writes its
  decoder reads) as the one thing assumed of them, and \<open>literal_lib\<close> as an instance that has it.

  \<^bold>\<open>The connection layer.\<close>

  \<^item> \<open>Rhttp_Prelude\<close>, \<open>Rhttp_Steps\<close>: words, pools, numerals, maps; invariants of transition systems.

  \<^item> \<open>H2_Errors\<close> (\<open>errors.go\<close>), \<open>H2_Pools\<close> (\<open>pools.go\<close>): error values, limits, buffer pool, interned names.

  \<^item> \<open>H2_Flow\<close> (\<open>flow.go\<close>): the send windows. Grants stay within both windows, no wake-up is lost, credit is conserved, tear-down
    releases parked writers.

  \<^item> \<open>H2_Stream\<close> (\<open>stream.go\<close>): chunk ring, body reader, recycling. Bytes come out in order, every buffer has one owner, reading a
    finished body terminates. The locale \<open>byte_source\<close> is the contract of a body reader.

  \<^item> \<open>H2_Types\<close>, \<open>H2_Writer\<close> (\<open>writer.go\<close>): frames, intents, the connection record, and the writer goroutine as a FIFO of
    intents. Frames leave in queue order, encoding through the name cache equals encoding without it, a write error is final.

  \<^item> \<open>H2_Writer_Steps\<close> (\<open>writer.go\<close>): the same queue action by action, with the calls of \<open>submit\<close> and the writer as goroutines, the channels
    between them and the pool of result channels (\<open>queue_trans\<close>). On one connection the answers of submit are true and no
    submit hangs, which is why the other theories may take a submit as one step that runs the writer up to its own
    intent; across connections a recycled result channel can carry a wrong answer.

  \<^item> \<open>H2_Conn\<close>, \<open>H2_Headers\<close>, \<open>H2_Inbound\<close>, \<open>H2_Link\<close> (\<open>conn.go\<close>): registry, drain, PING, SETTINGS; header blocks; DATA,
    WINDOW_UPDATE, RST_STREAM; and what both frame loops share (the locale \<open>reader_loop\<close>). Fragmentation makes no difference,
    headers survive the round trip between codecs in sync, a drain completes when the last stream leaves.

  \<^bold>\<open>The worker.\<close>

  \<^item> \<open>W_Response\<close> (\<open>writer.go\<close> of the root package) and \<open>W_Stream\<close> (\<open>stream.go\<close>): the response writer, \<open>serveStream\<close> with its
    deferred functions for an arbitrary handler, and \<open>parseRequestURI\<close>. Whatever the handler does, the response is well formed.

  \<^item> \<open>W_Serve\<close> (\<open>handler.go\<close>): the frame loop, its invariant and its tear-down.

  \<^item> \<open>W_Pool\<close> (\<open>pool.go\<close>, \<open>connection.go\<close>): options, dialling, slots, reapers, \<open>Shutdown\<close>. The ready gate is exact and a shutdown
    comes to an end.

  \<^bold>\<open>The proxy.\<close>

  \<^item> \<open>P_Worker\<close> (\<open>worker.go\<close>), \<open>P_Select\<close> (\<open>selector.go\<close>), \<open>P_Tunnel\<close> (\<open>tunnel.go\<close>): opening and failing streams, the selectors (the
    locale \<open>selector\<close>), the frame loop.

  \<^item> \<open>P_Proxy\<close> (\<open>proxy.go\<close>, and \<open>acceptTunnel\<close>): the worker set, the accept loop, \<open>Shutdown\<close>.

  \<^item> \<open>P_URI\<close> (\<open>URL.RequestURI\<close> of the standard library), \<open>P_Forward\<close>, \<open>P_Pump\<close>, \<open>P_Relay\<close> (\<open>forward.go\<close>): one public request, its
    clean-up and its answer; the request body towards the worker; the response body towards the client.

  \<^item> \<open>P_Public\<close> (\<open>proxy.go\<close> of the root package): the adapters of the public API.

  This theory has the properties that span both ends.

  \<^bold>\<open>Not modelled.\<close> TLS and sockets, whose results are arguments; logging; the \<open>net/http\<close> server behind \<open>ListenAndServePublic\<close>, of which
  only what \<open>ResponseWriter\<close> documents is used; \<open>RemoteAddr\<close>, \<open>Certificate\<close> and \<open>CommonName\<close>, which hand out values of the TLS layer;
  the jitter of the reconnect delay, where a timer may fire at any time; the pools of header maps and write intents, since header
  maps and intents are values here; the time a write to the socket takes, so that a peer that stops reading and thereby
  blocks the writer is outside the model; the example programs, which parse flags and call the library.
\<close>

section \<open>Requests through the tunnel\<close>

text \<open>The HEADERS frame of a request, from the proxy's encoder to the worker's dispatcher.\<close>

lemma request_dispatched:
  assumes "hpack_ok L" "in_sync L (c_enc p) (c_dec (lk_conn s))" "c_writeQ p = []" "conn_ok p" "loop_ok L s"
    "\<not> InContinuation (lk_conn s)" "GetStream sid (lk_conn s) = None" "header_wf h"
    "SendRequestHeaders L sid method scheme authority path h es p = (None, p')"
  shows "\<exists>block q s'. c_wire p' = c_wire p @ [OHeaders sid block es True] \<and>
    serve_frame L k now (FHeaders sid block True es) s = (None, s') \<and>
    wl_go s' = wl_go s @ [(q, \<lparr>dh_Header = forwardable h, dh_Method = method, dh_Path = path,
       dh_Authority = authority, dh_Status = [], dh_StreamID = sid, dh_EndStream = es\<rparr>)] \<and>
    c_streams (lk_conn s') = c_streams (lk_conn s) @ [(sid, q)] \<and> q \<notin> snd ` set (c_streams (lk_conn s)) \<and>
    st_pending (m_stream (lk_mem s') q) = [] \<and> DataDone (m_stream (lk_mem s') q) = es \<and>
    st_SendWindow (m_stream (lk_mem s') q) = InitialStreamWindow (c_Send (lk_conn s)) \<and>
    in_sync L (c_enc p') (c_dec (lk_conn s'))"
proof -
  let ?d = "\<lparr>dh_Header = forwardable h, dh_Method = method, dh_Path = path,
       dh_Authority = authority, dh_Status = [], dh_StreamID = sid, dh_EndStream = es\<rparr>"
  have i: "serve_inv s" using assms(5) by (simp add: loop_ok_def)
  then have "conn_ok (lk_conn s)" by (simp add: serve_inv_def cm_ok_def Let_def)
  from request_headers_roundtrip [OF assms(1-4) this assms(8,9)] obtain block c' where
    b: "c_wire p' = c_wire p @ [OHeaders sid block es True]"
      "StartHeaders L sid block True es (lk_conn s) = (Inr (Some ?d), c')" "in_sync L (c_enc p') (c_dec c')" by blast
  from dispatch_new [OF i assms(6,7) b(2), of k now] obtain q s' where
    s': "serve_frame L k now (FHeaders sid block True es) s = (None, s')" "wl_go s' = wl_go s @ [(q, ?d)]"
      "c_streams (lk_conn s') = c_streams (lk_conn s) @ [(sid, q)]" "q \<notin> snd ` set (c_streams (lk_conn s))"
      "c_dec (lk_conn s') = c_dec c'"
      "m_stream (lk_mem s') q = (let st = fresh_stream sid (c_self (lk_conn s)) (InitialStreamWindow (c_Send (lk_conn s)))
         (m_nextCtx (lk_mem s)) in if es then CloseData st else st)" by (auto simp: Let_def)
  then have "st_pending (m_stream (lk_mem s') q) = [] \<and> DataDone (m_stream (lk_mem s') q) = es \<and>
    st_SendWindow (m_stream (lk_mem s') q) = InitialStreamWindow (c_Send (lk_conn s))"
    by (simp add: fresh_stream_def CloseData_def DataDone_def st_pending_def Let_def)
  with b s' show ?thesis by auto
qed





end
